(* ===== verification/Prelude.thy ===== *)
theory Prelude
  imports Main "HOL-Library.Word"
begin

text \<open>
  Shared vocabulary of the development: bytes, the errors the code throws, the result
  type every fallible operation returns, the build configuration, and the little-endian
  object representation of machine words, with the lemmas the components use.
\<close>

section \<open>Fact collections\<close>

named_theorems emits_intros \<open>what a writer puts on an output stream\<close>
named_theorems parses_intros \<open>what a reader takes from an input stream\<close>
named_theorems safe_intros \<open>readers that stay inside their range and their fuel\<close>

section \<open>Errors and results\<close>

text \<open>
  Every C++ exception of the library is a constructor. \<open>Undefined\<close> marks an execution
  whose behaviour the language leaves undefined, with the reason, where \<open>ArrayOverflow\<close> is a store
  past the end of a \<^verbatim>\<open>std::array\<close> and \<open>OutOfBounds\<close> every other access outside its object;
  \<open>OutOfFuel\<close> is the model's own: a loop was cut off by its fuel.
\<close>

datatype ub = OutOfBounds | ArrayOverflow | ShiftTooFar | SignedOverflow | ReadIndeterminate | NullPointer

datatype error =
    EarlyEof          \<comment> \<open>pbss::early_eof_error\<close>
  | IosFailure        \<comment> \<open>std::ios_base::failure\<close>
  | OutOfRange        \<comment> \<open>std::out_of_range\<close>
  | LengthError       \<comment> \<open>std::length_error\<close>
  | UnknownEncoding | BadChecksum | UnknownRealm | TypeMismatch | KeyMismatch | KeyMissing
  | CodecFailure      \<comment> \<open>std::runtime_error of a compression wrapper\<close>
  | Undefined ub
  | OutOfFuel

type_synonym byte = "8 word"

type_synonym 'a result = "error + 'a"

definition rbind :: "'a result \<Rightarrow> ('a \<Rightarrow> 'b result) \<Rightarrow> 'b result" where
  "rbind m f = (case m of Inl e \<Rightarrow> Inl e | Inr x \<Rightarrow> f x)"

lemma rbind_simps [simp]:
  "rbind (Inl e) f = Inl e"
  "rbind (Inr x) f = f x"
  by (simp_all add: rbind_def)

lemma rbind_Inr_right [simp]: "rbind m Inr = m"
  by (cases m) simp_all

lemma rbind_Inr_iff: "rbind m f = Inr y \<longleftrightarrow> (\<exists>x. m = Inr x \<and> f x = Inr y)"
  by (cases m) simp_all

lemma rbind_Inl_iff: "rbind m f = Inl e \<longleftrightarrow> m = Inl e \<or> (\<exists>x. m = Inr x \<and> f x = Inl e)"
  by (cases m) simp_all

lemma rbind_cong [fundef_cong]:
  "m = m' \<Longrightarrow> (\<And>x. m' = Inr x \<Longrightarrow> f x = f' x) \<Longrightarrow> rbind m f = rbind m' f'"
  by (cases m') simp_all

section \<open>Build configuration\<close>

text \<open>
  The preprocessor choices the code depends on: whether the sign conversions are checked
  (\<^verbatim>\<open>defined(DEBUG) || !defined(NDEBUG)\<close> in utils/misc.hh) and the value of
  \<^verbatim>\<open>PBSS_STRUCT_OPTIMISTIC_PARSE_THRESHOLD\<close>. \<open>fuel\<close> bounds the loops of the model whose
  termination depends on the input.
\<close>

record config =
  debug :: bool
  threshold :: nat
  fuel :: nat

section \<open>Little-endian bytes\<close>

primrec le_bytes :: "nat \<Rightarrow> nat \<Rightarrow> byte list" where
  "le_bytes 0 x = []"
| "le_bytes (Suc n) x = word_of_nat x # le_bytes n (x div 256)"

primrec le_val :: "byte list \<Rightarrow> nat" where
  "le_val [] = 0"
| "le_val (b # bs) = unat b + 256 * le_val bs"

lemma length_le_bytes [simp]: "length (le_bytes n x) = n"
  by (induction n arbitrary: x) simp_all

lemma unat_byte_lt [simp]: "unat (b :: byte) < 256"
  using unsigned_less [of b] by simp

lemma unat_byte_of_nat: "unat (word_of_nat x :: byte) = x mod 256"
  by (simp add: unat_of_nat)

lemma le_val_le_bytes: "le_val (le_bytes n x) = x mod 256 ^ n"
proof (induction n arbitrary: x)
  case (Suc n)
  have "x mod (256 * 256 ^ n) = x mod 256 + 256 * (x div 256 mod 256 ^ n)"
    by (simp add: mod_mult2_eq)
  with Suc show ?case by (simp add: unat_byte_of_nat)
qed simp

lemma le_bytes_le_val [simp]: "length bs = n \<Longrightarrow> le_bytes n (le_val bs) = bs"
proof (induction bs arbitrary: n)
  case (Cons b bs)
  have "(unat b + 256 * le_val bs) div 256 = le_val bs"
    using unat_byte_lt [of b] by simp
  moreover have "(word_of_nat (unat b + 256 * le_val bs) :: byte) = b"
  proof -
    have "(256 :: byte) * w = 0" for w
      by (rule word_unat_eq_iff [THEN iffD2]) (simp add: unat_word_ariths)
    then show ?thesis by simp
  qed
  ultimately show ?case using Cons by (auto simp: Suc_length_conv)
qed simp

lemma le_val_lt: "le_val bs < 256 ^ length bs"
proof (induction bs)
  case (Cons b bs)
  then have "le_val bs + 1 \<le> 256 ^ length bs" by simp
  then have "256 * le_val bs + 256 \<le> 256 * 256 ^ length bs" by simp
  then show ?case using unat_byte_lt [of b] by (simp del: unat_byte_lt)
qed simp

text \<open>The bytes of a word in memory on the little-endian targets the library supports.\<close>

definition mem_bytes :: "'a::len word \<Rightarrow> byte list" where
  "mem_bytes x = le_bytes (LENGTH('a) div 8) (unat x)"

definition of_mem :: "byte list \<Rightarrow> 'a::len word" where
  "of_mem bs = word_of_nat (le_val bs)"

lemma length_mem_bytes [simp]: "length (mem_bytes (x :: 'a::len word)) = LENGTH('a) div 8"
  by (simp add: mem_bytes_def)

lemma pow256: "(256::nat) ^ n = 2 ^ (8 * n)"
  by (simp add: power_mult)

lemma of_mem_mem_bytes [simp]:
  assumes "8 dvd LENGTH('a::len)"
  shows "of_mem (mem_bytes (x :: 'a word)) = x"
proof -
  have "(256::nat) ^ (LENGTH('a) div 8) = 2 ^ LENGTH('a)"
    using assms by (simp add: pow256)
  then show ?thesis
    by (simp add: of_mem_def mem_bytes_def le_val_le_bytes)
qed

lemma mem_bytes_of_mem:
  assumes "8 dvd LENGTH('a::len)" and "length bs = LENGTH('a) div 8"
  shows "mem_bytes (of_mem bs :: 'a word) = bs"
proof -
  have "(256::nat) ^ (LENGTH('a) div 8) = 2 ^ LENGTH('a)"
    using assms by (simp add: pow256)
  then have "le_val bs < 2 ^ LENGTH('a)"
    using le_val_lt [of bs] assms by simp
  then show ?thesis
    using assms by (simp add: of_mem_def mem_bytes_def unat_of_nat)
qed

lemma mem_bytes_byte [simp]: "mem_bytes (b :: byte) = [b]"
  by (simp add: mem_bytes_def)

section \<open>Lists\<close>

lemma take_drop_append_exact [simp]:
  "length xs = n \<Longrightarrow> take n (xs @ ys) = xs"
  "length xs = n \<Longrightarrow> drop n (xs @ ys) = ys"
  by auto

lemma sum_list_of_nat:
  "(word_of_nat (sum_list ns) :: 'a::len word) = sum_list (map word_of_nat ns)"
  by (induction ns) simp_all

lemma length_concat_sum: "length (concat xss) = sum_list (map length xss)"
  by (rule length_concat)

end
