(* ===== verification/Misc.thy ===== *)
theory Misc
  imports Prelude
begin

text \<open>
  The helpers of \<^verbatim>\<open>include/bs3/utils/misc.hh\<close>: the variadic sum and the two sign
  conversions, which throw \<^verbatim>\<open>std::out_of_range\<close> in checked builds and reinterpret the bits
  otherwise. A signed integer is a word read through \<open>sint\<close>.
\<close>

section \<open>sumall\<close>

text \<open>
  The argument pack is a list. The code has no overload for an empty pack; the model
  gives it 0 and no client calls it so.
\<close>

fun sumall :: "'a::monoid_add list \<Rightarrow> 'a" where
  "sumall [] = 0"
| "sumall [n] = n"
| "sumall (n # m # rest) = n + sumall (m # rest)"

lemma sumall_sum_list: "sumall ns = sum_list ns"
  by (induction ns rule: sumall.induct) simp_all

section \<open>Sign conversions\<close>

definition to_unsigned :: "config \<Rightarrow> 'a::len word \<Rightarrow> 'a word result" where
  "to_unsigned cfg x = (if debug cfg \<and> sint x < 0 then Inl OutOfRange else Inr x)"

definition to_signed :: "config \<Rightarrow> 'a::len word \<Rightarrow> 'a word result" where
  "to_signed cfg x =
     (if debug cfg \<and> unat x > 2 ^ (LENGTH('a) - 1) - 1 then Inl OutOfRange else Inr x)"

lemma bit_top_iff: "bit (x :: 'a::len word) (LENGTH('a) - Suc 0) \<longleftrightarrow> 2 ^ (LENGTH('a) - Suc 0) \<le> unat x"
proof -
  define k where "k = LENGTH('a) - Suc 0"
  have "unat x < 2 ^ Suc k" unfolding k_def using unsigned_less [of x] by simp
  then have "unat x div 2 ^ k < 2" by (simp add: less_mult_imp_div_less)
  then have *: "odd (unat x div 2 ^ k) \<longleftrightarrow> unat x div 2 ^ k \<noteq> 0"
    by (auto elim: oddE)
  have "bit x k \<longleftrightarrow> bit (unat x) k" unfolding k_def by (simp add: bit_unsigned_iff)
  also have "\<dots> \<longleftrightarrow> odd (unat x div 2 ^ k)" by (simp add: bit_iff_odd)
  also have "\<dots> \<longleftrightarrow> 2 ^ k \<le> unat x" using * by (auto simp add: div_eq_0_iff)
  finally show ?thesis by (simp add: k_def)
qed

lemma sint_nonneg_iff: "0 \<le> sint (x :: 'a::len word) \<longleftrightarrow> unat x < 2 ^ (LENGTH('a) - 1)"
  using bit_top_iff [of x] bit_last_iff [of x] by auto

lemma sint_small:
  assumes "unat (x :: 'a::len word) < 2 ^ (LENGTH('a) - 1)"
  shows "sint x = int (unat x)"
proof -
  have nb: "\<not> bit (uint x) (LENGTH('a) - Suc 0)"
    using assms bit_top_iff [of x] by (simp add: bit_unsigned_iff)
  have "sint x = take_bit (LENGTH('a) - Suc 0) (uint x)"
    unfolding sint_uint using nb by (rule signed_take_bit_eq_if_positive)
  also have "\<dots> = int (take_bit (LENGTH('a) - Suc 0) (unat x))"
    by (simp add: of_nat_take_bit)
  also have "\<dots> = int (unat x)"
    using assms by (simp only: One_nat_def take_bit_nat_eq_self)
  finally show ?thesis .
qed

lemma lt_of_not_gt_pred: "\<not> (2::nat) ^ k - Suc 0 < u \<Longrightarrow> u < 2 ^ k"
  using zero_less_power [of "2 :: nat" k] by arith

lemma to_signed_small:
  "unat (x :: 'a::len word) < 2 ^ (LENGTH('a) - 1) \<Longrightarrow> to_signed cfg x = Inr x"
  by (auto simp: to_signed_def)

lemma to_signed_Inr: "to_signed cfg x = Inr y \<Longrightarrow> y = x"
  by (auto simp: to_signed_def split: if_splits)

lemma to_signed_debug:
  "debug cfg \<Longrightarrow> to_signed cfg (x :: 'a::len word) = Inr y \<Longrightarrow>
   y = x \<and> unat x < 2 ^ (LENGTH('a) - 1)"
  by (auto simp: to_signed_def lt_of_not_gt_pred split: if_splits)

text \<open>In a checked build a conversion to signed and back is the identity wherever it returns.\<close>

lemma to_signed_to_unsigned:
  assumes "debug cfg" and "to_signed cfg (x :: 'a::len word) = Inr y"
  shows "to_unsigned cfg y = Inr x"
  using to_signed_debug [OF assms] by (simp add: to_unsigned_def sint_small)

end
