(* ===== verification/Streams.thy ===== *)
theory Streams
  imports Misc
begin

text \<open>
  The stream concept of pbss and its implementations. \<^verbatim>\<open>serialize\<close> and \<^verbatim>\<open>parse\<close> are templates
  over a \<^verbatim>\<open>Stream\<close> type, so a stream is a record of operations over a state type; the
  in-memory \<^verbatim>\<open>char_range_reader\<close> and \<^verbatim>\<open>char_range_writer\<close> (include/bs3/pbss) are modelled
  from the source and the standard file streams from their specification. The locales
  \<open>input_stream\<close>, \<open>ending_stream\<close> and \<open>output_stream\<close> hold what the templates rely on;
  every stream is interpreted in them.
\<close>

section \<open>The Stream template parameter\<close>

text \<open>
  \<open>s_get\<close> and \<open>s_peek\<close> return \<open>None\<close> for \<^verbatim>\<open>Traits::eof()\<close>. \<open>s_read n\<close> returns the bytes copied
  to the destination. Counts are \<^verbatim>\<open>std::streamsize\<close>, a 64-bit word read with \<open>sint\<close>.
\<close>

record 's instream =
  s_get :: "'s \<Rightarrow> (byte option \<times> 's) result"
  s_peek :: "'s \<Rightarrow> (byte option \<times> 's) result"
  s_read :: "64 word \<Rightarrow> 's \<Rightarrow> (byte list \<times> 's) result"
  s_eof :: "'s \<Rightarrow> bool"
  s_ignore :: "64 word \<Rightarrow> 's \<Rightarrow> 's result"

record 'w outstream =
  o_put :: "byte \<Rightarrow> 'w \<Rightarrow> 'w result"
  o_write :: "byte list \<Rightarrow> 64 word \<Rightarrow> 'w \<Rightarrow> 'w result"

section \<open>char_range_reader\<close>

text \<open>
  The range \<^verbatim>\<open>[first, last)\<close> is a byte list and \<^verbatim>\<open>current\<close> its offset from \<^verbatim>\<open>first\<close>, an
  unbounded integer because the code moves the pointer outside the range.
\<close>

record char_range_reader =
  r_range :: "byte list"
  r_cur :: int

definition r_end :: "char_range_reader \<Rightarrow> int" where
  "r_end r = int (length (r_range r))"

definition char_range_reader_new :: "byte list \<Rightarrow> char_range_reader" where
  "char_range_reader_new bs = \<lparr>r_range = bs, r_cur = 0\<rparr>"

definition crr_at :: "char_range_reader \<Rightarrow> int \<Rightarrow> byte result" where
  "crr_at r i = (if 0 \<le> i \<and> i < r_end r then Inr (r_range r ! nat i) else Inl (Undefined OutOfBounds))"

definition crr_read :: "config \<Rightarrow> 64 word \<Rightarrow> char_range_reader \<Rightarrow> (byte list \<times> char_range_reader) result" where
  "crr_read cfg count r =
     (let c = r_cur r; r' = r\<lparr>r_cur := c + sint count\<rparr>
      in if r_cur r' \<le> r_end r then
           rbind (to_unsigned cfg count) (\<lambda>n.
             if 0 \<le> c \<and> c + int (unat n) \<le> r_end r
             then Inr (take (unat n) (drop (nat c) (r_range r)), r')
             else Inl (Undefined OutOfBounds))
         else Inr ([], r'))"

definition crr_eof :: "char_range_reader \<Rightarrow> bool" where
  "crr_eof r \<longleftrightarrow> r_cur r > r_end r"

definition crr_get :: "char_range_reader \<Rightarrow> (byte option \<times> char_range_reader) result" where
  "crr_get r =
     (let r' = r\<lparr>r_cur := r_cur r + 1\<rparr>
      in if r_cur r' > r_end r then Inr (None, r')
         else rbind (crr_at r (r_cur r' - 1)) (\<lambda>b. Inr (Some b, r')))"

definition crr_peek :: "char_range_reader \<Rightarrow> (byte option \<times> char_range_reader) result" where
  "crr_peek r =
     (if r_cur r \<ge> r_end r then Inr (None, r)
      else rbind (crr_at r (r_cur r)) (\<lambda>b. Inr (Some b, r)))"

definition crr_ignore :: "64 word \<Rightarrow> char_range_reader \<Rightarrow> char_range_reader result" where
  "crr_ignore count r = Inr (r\<lparr>r_cur := r_cur r + sint count\<rparr>)"

definition crr_ops :: "config \<Rightarrow> char_range_reader instream" where
  "crr_ops cfg = \<lparr>s_get = crr_get, s_peek = crr_peek, s_read = crr_read cfg,
     s_eof = crr_eof, s_ignore = crr_ignore\<rparr>"

section \<open>char_range_writer\<close>

text \<open>
  The memory the pointer walks over is a byte list; a store beyond it, or a source shorter
  than the count, is an access out of bounds (the code has no check).
\<close>

record char_range_writer =
  w_mem :: "byte list"
  w_ptr :: nat

definition char_range_writer_new :: "byte list \<Rightarrow> char_range_writer" where
  "char_range_writer_new m = \<lparr>w_mem = m, w_ptr = 0\<rparr>"

definition crw_put :: "byte \<Rightarrow> char_range_writer \<Rightarrow> char_range_writer result" where
  "crw_put ch w =
     (if w_ptr w < length (w_mem w)
      then Inr (w\<lparr>w_mem := (w_mem w)[w_ptr w := ch], w_ptr := Suc (w_ptr w)\<rparr>)
      else Inl (Undefined OutOfBounds))"

definition crw_write :: "config \<Rightarrow> byte list \<Rightarrow> 64 word \<Rightarrow> char_range_writer \<Rightarrow> char_range_writer result" where
  "crw_write cfg src count w =
     rbind (to_unsigned cfg count) (\<lambda>n.
       let k = unat n; p = w_ptr w; m = w_mem w
       in if k \<le> length src \<and> p + k \<le> length m
          then Inr (w\<lparr>w_mem := take p m @ take k src @ drop (p + k) m, w_ptr := p + k\<rparr>)
          else Inl (Undefined OutOfBounds))"

definition crw_ops :: "config \<Rightarrow> char_range_writer outstream" where
  "crw_ops cfg = \<lparr>o_put = crw_put, o_write = crw_write cfg\<rparr>"

section \<open>peek_for_eof\<close>

definition peek_for_eof :: "'s instream \<Rightarrow> 's \<Rightarrow> (bool \<times> 's) result" where
  "peek_for_eof ops s = rbind (s_peek ops s) (\<lambda>(c, s'). Inr (c = None, s'))"

section \<open>The contracts\<close>

text \<open>
  \<open>rem s\<close> is what is left to read in state \<open>s\<close>. A stream that holds enough bytes delivers
  them; \<open>ok\<close> is the stream's own invariant.
\<close>

locale input_stream =
  fixes ops :: "'s instream" and ok :: "'s \<Rightarrow> bool" and rem :: "'s \<Rightarrow> byte list"
  assumes get_cons: "ok s \<Longrightarrow> rem s = b # bs \<Longrightarrow>
      \<exists>s'. s_get ops s = Inr (Some b, s') \<and> ok s' \<and> rem s' = bs"
    and peek_cons: "ok s \<Longrightarrow> rem s = b # bs \<Longrightarrow>
      \<exists>s'. s_peek ops s = Inr (Some b, s') \<and> ok s' \<and> rem s' = b # bs"
    and read_enough: "ok s \<Longrightarrow> 0 \<le> sint n \<Longrightarrow> unat n \<le> length (rem s) \<Longrightarrow>
      \<exists>s'. s_read ops n s = Inr (take (unat n) (rem s), s') \<and> \<not> s_eof ops s' \<and>
           ok s' \<and> rem s' = drop (unat n) (rem s)"
    and ignore_enough: "ok s \<Longrightarrow> 0 \<le> sint n \<Longrightarrow> unat n \<le> length (rem s) \<Longrightarrow>
      \<exists>s'. s_ignore ops n s = Inr s' \<and> ok s' \<and> rem s' = drop (unat n) (rem s)"

text \<open>
  How a stream ends: reading past the last byte either throws one of \<open>eof_errors\<close> or leaves
  the stream in a \<open>past\<close> state, where every later read reports the end again.
\<close>

locale ending_stream = input_stream ops ok rem
  for ops :: "'s instream" and ok :: "'s \<Rightarrow> bool" and rem :: "'s \<Rightarrow> byte list" +
  fixes past :: "'s \<Rightarrow> bool" and eof_errors :: "error set"
  assumes early_eof: "EarlyEof \<in> eof_errors"
    and peek_end: "ok s \<Longrightarrow> rem s = [] \<Longrightarrow> \<exists>s'. s_peek ops s = Inr (None, s')"
    and get_end: "ok s \<and> rem s = [] \<or> past s \<Longrightarrow>
      (\<exists>e \<in> eof_errors. s_get ops s = Inl e) \<or> (\<exists>s'. s_get ops s = Inr (None, s') \<and> past s')"
    and read_end: "ok s \<and> length (rem s) < unat n \<or> past s \<Longrightarrow> 0 \<le> sint n \<Longrightarrow>
      (\<exists>e \<in> eof_errors. s_read ops n s = Inl e) \<or>
      (\<exists>bs s'. s_read ops n s = Inr (bs, s') \<and> s_eof ops s' \<and> past s')"
    and ignore_end: "ok s \<and> length (rem s) < unat n \<or> past s \<Longrightarrow> 0 \<le> sint n \<Longrightarrow>
      (\<exists>e \<in> eof_errors. s_ignore ops n s = Inl e) \<or> (\<exists>s'. s_ignore ops n s = Inr s' \<and> past s')"

text \<open>
  \<open>out w\<close> is what has been written, \<open>cap w n\<close> says that \<open>n\<close> more bytes fit.
\<close>

locale output_stream =
  fixes ops :: "'w outstream" and ok :: "'w \<Rightarrow> bool" and out :: "'w \<Rightarrow> byte list"
    and cap :: "'w \<Rightarrow> nat \<Rightarrow> bool"
  assumes put_ok: "ok w \<Longrightarrow> cap w (Suc n) \<Longrightarrow>
      \<exists>w'. o_put ops b w = Inr w' \<and> ok w' \<and> out w' = out w @ [b] \<and> cap w' n"
    and write_ok: "ok w \<Longrightarrow> cap w (length bs + n) \<Longrightarrow> unat k = length bs \<Longrightarrow> 0 \<le> sint k \<Longrightarrow>
      \<exists>w'. o_write ops bs k w = Inr w' \<and> ok w' \<and> out w' = out w @ bs \<and> cap w' n"

section \<open>What a writer emits and a reader takes\<close>

text \<open>
  \<open>emits\<close>: the action \<open>W\<close> appends exactly \<open>bs\<close> to any stream with room for it. \<open>parses\<close>:
  the action \<open>P\<close> takes exactly \<open>bs\<close> off any stream that starts with it and returns \<open>v\<close>.
  \<open>starves\<close>: on a stream that ends before \<open>bs\<close> is complete, \<open>P\<close> throws an end-of-file error.
\<close>

definition emits ::
  "('w \<Rightarrow> bool) \<Rightarrow> ('w \<Rightarrow> byte list) \<Rightarrow> ('w \<Rightarrow> nat \<Rightarrow> bool) \<Rightarrow> ('w \<Rightarrow> 'w result) \<Rightarrow> byte list \<Rightarrow> bool" where
  "emits ok out cap W bs \<longleftrightarrow>
     (\<forall>w n. ok w \<and> cap w (length bs + n) \<longrightarrow>
        (\<exists>w'. W w = Inr w' \<and> ok w' \<and> out w' = out w @ bs \<and> cap w' n))"

definition parses ::
  "('s \<Rightarrow> bool) \<Rightarrow> ('s \<Rightarrow> byte list) \<Rightarrow> ('s \<Rightarrow> ('v \<times> 's) result) \<Rightarrow> 'v \<Rightarrow> byte list \<Rightarrow> bool" where
  "parses ok rem P v bs \<longleftrightarrow>
     (\<forall>s rest. ok s \<and> rem s = bs @ rest \<longrightarrow>
        (\<exists>s'. P s = Inr (v, s') \<and> ok s' \<and> rem s' = rest))"

definition starves ::
  "('s \<Rightarrow> bool) \<Rightarrow> ('s \<Rightarrow> byte list) \<Rightarrow> ('s \<Rightarrow> bool) \<Rightarrow> error set \<Rightarrow>
   ('s \<Rightarrow> ('v \<times> 's) result) \<Rightarrow> byte list \<Rightarrow> bool" where
  "starves ok rem past E P bs \<longleftrightarrow>
     (\<forall>s k. ok s \<and> rem s = take k bs \<and> k < length bs \<or> past s \<longrightarrow> (\<exists>e \<in> E. P s = Inl e))"

lemma emits_append [emits_intros]:
  assumes "emits ok out cap W1 a" and "emits ok out cap W2 b"
  shows "emits ok out cap (\<lambda>w. rbind (W1 w) W2) (a @ b)"
  unfolding emits_def
proof (intro allI impI, elim conjE)
  fix w n
  assume "ok w" and "cap w (length (a @ b) + n)"
  then obtain w1 where w1: "W1 w = Inr w1" "ok w1" "out w1 = out w @ a" "cap w1 (length b + n)"
    using assms(1) by (auto simp: emits_def add.assoc)
  then obtain w2 where "W2 w1 = Inr w2" "ok w2" "out w2 = out w1 @ b" "cap w2 n"
    using assms(2) [unfolded emits_def, rule_format, of w1 n] by blast
  with w1 show "\<exists>w'. rbind (W1 w) W2 = Inr w' \<and> ok w' \<and> out w' = out w @ a @ b \<and> cap w' n"
    by simp
qed

lemma emits_Nil [emits_intros]: "emits ok out cap Inr []"
  by (simp add: emits_def)

lemma emitsD:
  "emits ok out cap W bs \<Longrightarrow> ok w \<Longrightarrow> cap w (length bs + n) \<Longrightarrow>
   \<exists>w'. W w = Inr w' \<and> ok w' \<and> out w' = out w @ bs \<and> cap w' n"
  by (simp add: emits_def)

lemma parsesD:
  "parses ok rem P v bs \<Longrightarrow> ok s \<Longrightarrow> rem s = bs @ rest \<Longrightarrow>
   \<exists>s'. P s = Inr (v, s') \<and> ok s' \<and> rem s' = rest"
  by (simp add: parses_def)

lemma parses_bind [parses_intros]:
  assumes "parses ok rem P v a" and "parses ok rem (Q v) u b"
  shows "parses ok rem (\<lambda>s. rbind (P s) (\<lambda>(x, s'). Q x s')) u (a @ b)"
  unfolding parses_def
proof (intro allI impI, elim conjE)
  fix s rest
  assume "ok s" and "rem s = (a @ b) @ rest"
  then obtain s1 where s1: "P s = Inr (v, s1)" "ok s1" "rem s1 = b @ rest"
    using parsesD [OF assms(1), of s "b @ rest"] by auto
  then obtain s2 where "Q v s1 = Inr (u, s2)" "ok s2" "rem s2 = rest"
    using parsesD [OF assms(2)] by blast
  with s1 show "\<exists>s'. rbind (P s) (\<lambda>(x, s'). Q x s') = Inr (u, s') \<and> ok s' \<and> rem s' = rest"
    by simp
qed

lemma parses_return [parses_intros]: "parses ok rem (\<lambda>s. Inr (v, s)) v []"
  by (simp add: parses_def)

lemma parses_map:
  assumes "parses ok rem P v bs"
  shows "parses ok rem (\<lambda>s. rbind (P s) (\<lambda>(x, s'). Inr (f x, s'))) (f v) bs"
  using parses_bind [OF assms, of "\<lambda>x s. Inr (f x, s)" "f v" "[]"] by (simp add: parses_return)

lemma starves_bind:
  assumes P: "parses ok rem P v a" and sP: "starves ok rem past E P a"
    and sQ: "starves ok rem past E (Q v) b"
  shows "starves ok rem past E (\<lambda>s. rbind (P s) (\<lambda>(x, s'). Q x s')) (a @ b)"
  unfolding starves_def
proof (intro allI impI)
  fix s k
  assume hyp: "ok s \<and> rem s = take k (a @ b) \<and> k < length (a @ b) \<or> past s"
  show "\<exists>e\<in>E. rbind (P s) (\<lambda>(x, s'). Q x s') = Inl e"
  proof (cases "past s \<or> k < length a")
    case True
    then have "ok s \<and> rem s = take k a \<and> k < length a \<or> past s" using hyp by auto
    then obtain e where "e \<in> E" "P s = Inl e" using sP by (auto simp: starves_def)
    then show ?thesis by auto
  next
    case False
    then have "ok s" "rem s = a @ take (k - length a) b" "k - length a < length b"
      using hyp by auto
    then obtain s1 where "P s = Inr (v, s1)" "ok s1" "rem s1 = take (k - length a) b"
      using parsesD [OF P] by blast
    with \<open>k - length a < length b\<close> show ?thesis
      using sQ by (auto simp: starves_def)
  qed
qed

lemma starves_map:
  "starves ok rem past E P bs \<Longrightarrow>
   starves ok rem past E (\<lambda>s. rbind (P s) (\<lambda>(x, s'). Inr (f x, s'))) bs"
  by (fastforce simp: starves_def)

section \<open>The in-memory streams meet the contracts\<close>

definition crr_inv :: "char_range_reader \<Rightarrow> bool" where
  "crr_inv r \<longleftrightarrow> 0 \<le> r_cur r \<and> r_cur r \<le> r_end r"

definition crr_rem :: "char_range_reader \<Rightarrow> byte list" where
  "crr_rem r = drop (nat (r_cur r)) (r_range r)"

definition crr_past :: "char_range_reader \<Rightarrow> bool" where
  "crr_past r \<longleftrightarrow> r_cur r > r_end r"

lemmas crr_defs = crr_ops_def crr_inv_def crr_rem_def crr_past_def crr_get_def crr_peek_def
  crr_read_def crr_eof_def crr_ignore_def crr_at_def r_end_def

lemma crr_rem_Cons:
  assumes "crr_inv r" and "crr_rem r = b # bs"
  shows "r_cur r < int (length (r_range r))" and "r_range r ! nat (r_cur r) = b"
    and "drop (nat (r_cur r + 1)) (r_range r) = bs"
proof -
  let ?c = "nat (r_cur r)"
  from assms have c: "0 \<le> r_cur r" and d: "drop ?c (r_range r) = b # bs"
    by (auto simp: crr_defs)
  from d have lt: "?c < length (r_range r)"
    by (metis drop_eq_Nil leI list.distinct(1))
  then show "r_cur r < int (length (r_range r))" using c by simp
  from d lt show "r_range r ! ?c = b" by (simp add: Cons_nth_drop_Suc [symmetric])
  from d lt have "drop (Suc ?c) (r_range r) = bs" by (simp add: Cons_nth_drop_Suc [symmetric])
  then show "drop (nat (r_cur r + 1)) (r_range r) = bs" using c by (simp add: nat_add_distrib)
qed

lemma crr_rem_length:
  "crr_inv r \<Longrightarrow> k \<le> length (crr_rem r) \<longleftrightarrow> r_cur r + int k \<le> int (length (r_range r))"
  by (auto simp: crr_defs)

lemma crr_to_unsigned: "0 \<le> sint n \<Longrightarrow> to_unsigned cfg n = Inr n"
  by (simp add: to_unsigned_def)

lemma sint_unat: "0 \<le> sint (n :: 64 word) \<Longrightarrow> sint n = int (unat n)"
  by (rule sint_small) (simp add: sint_nonneg_iff)

interpretation crr: ending_stream "crr_ops cfg" crr_inv crr_rem crr_past "{EarlyEof}"
proof unfold_locales
  fix r b bs
  assume r: "crr_inv r" "crr_rem r = b # bs"
  note c = crr_rem_Cons [OF r]
  have "0 \<le> r_cur r" using r by (simp add: crr_defs)
  with c show "\<exists>s'. s_get (crr_ops cfg) r = Inr (Some b, s') \<and> crr_inv s' \<and> crr_rem s' = bs"
    and "\<exists>s'. s_peek (crr_ops cfg) r = Inr (Some b, s') \<and> crr_inv s' \<and> crr_rem s' = b # bs"
    using r by (auto simp: crr_defs)
next
  fix r and n :: "64 word"
  assume r: "crr_inv r" "0 \<le> sint n" "unat n \<le> length (crr_rem r)"
  have c: "0 \<le> r_cur r" "r_cur r + int (unat n) \<le> int (length (r_range r))"
    using r by (auto simp: crr_rem_length) (simp add: crr_defs)
  have d: "nat (r_cur r + int (unat n)) = unat n + nat (r_cur r)"
    using c by (simp add: nat_add_distrib add.commute)
  have s: "sint n = int (unat n)" by (rule sint_unat) (rule r(2))
  have le: "r_cur r + sint n \<le> r_end r" using c s by (simp add: r_end_def)
  show "\<exists>s'. s_read (crr_ops cfg) n r = Inr (take (unat n) (crr_rem r), s') \<and>
      \<not> s_eof (crr_ops cfg) s' \<and> crr_inv s' \<and> crr_rem s' = drop (unat n) (crr_rem r)"
    using c s d r(2)
    by (simp add: crr_ops_def crr_read_def Let_def crr_to_unsigned r_end_def crr_eof_def
        crr_inv_def crr_rem_def)
  show "\<exists>s'. s_ignore (crr_ops cfg) n r = Inr s' \<and> crr_inv s' \<and> crr_rem s' = drop (unat n) (crr_rem r)"
    using c s d by (simp add: crr_ops_def crr_ignore_def crr_inv_def crr_rem_def r_end_def)
next
  fix r
  assume "crr_inv r" "crr_rem r = []"
  then show "\<exists>s'. s_peek (crr_ops cfg) r = Inr (None, s')"
    by (auto simp: crr_defs)
next
  fix r
  assume "crr_inv r \<and> crr_rem r = [] \<or> crr_past r"
  then show "(\<exists>e\<in>{EarlyEof}. s_get (crr_ops cfg) r = Inl e) \<or>
      (\<exists>s'. s_get (crr_ops cfg) r = Inr (None, s') \<and> crr_past s')"
    by (auto simp: crr_defs Let_def)
next
  fix r and n :: "64 word"
  assume h: "crr_inv r \<and> length (crr_rem r) < unat n \<or> crr_past r" and n: "0 \<le> sint n"
  have s: "sint n = int (unat n)" by (rule sint_unat) (rule n)
  have "r_cur r + sint n > r_end r"
    using h unfolding s by (auto simp: crr_inv_def crr_rem_def crr_past_def r_end_def simp del: of_nat_unat)
  note far = this
  then show "(\<exists>e\<in>{EarlyEof}. s_read (crr_ops cfg) n r = Inl e) \<or>
      (\<exists>bs s'. s_read (crr_ops cfg) n r = Inr (bs, s') \<and> s_eof (crr_ops cfg) s' \<and> crr_past s')"
    by (simp add: crr_ops_def crr_read_def Let_def crr_eof_def crr_past_def r_end_def)
  show "(\<exists>e\<in>{EarlyEof}. s_ignore (crr_ops cfg) n r = Inl e) \<or>
      (\<exists>s'. s_ignore (crr_ops cfg) n r = Inr s' \<and> crr_past s')"
    using far
    by (simp add: crr_ops_def crr_ignore_def crr_past_def r_end_def)
qed simp

definition crw_inv :: "char_range_writer \<Rightarrow> bool" where
  "crw_inv w \<longleftrightarrow> w_ptr w \<le> length (w_mem w)"

definition crw_out :: "char_range_writer \<Rightarrow> byte list" where
  "crw_out w = take (w_ptr w) (w_mem w)"

definition crw_cap :: "nat \<Rightarrow> char_range_writer \<Rightarrow> nat \<Rightarrow> bool" where
  "crw_cap N w n \<longleftrightarrow> length (w_mem w) = N \<and> w_ptr w + n \<le> N"

lemmas crw_defs = crw_ops_def crw_inv_def crw_out_def crw_cap_def crw_put_def crw_write_def

interpretation crw: output_stream "crw_ops cfg" crw_inv crw_out "crw_cap N"
proof unfold_locales
  fix w b n
  assume "crw_inv w" "crw_cap N w (Suc n)"
  then show "\<exists>w'. o_put (crw_ops cfg) b w = Inr w' \<and> crw_inv w' \<and> crw_out w' = crw_out w @ [b] \<and> crw_cap N w' n"
    by (simp add: crw_defs take_Suc_conv_app_nth)
next
  fix w and bs :: "byte list" and n and k :: "64 word"
  assume "crw_inv w" "crw_cap N w (length bs + n)" "unat k = length bs" "0 \<le> sint k"
  then show "\<exists>w'. o_write (crw_ops cfg) bs k w = Inr w' \<and> crw_inv w' \<and> crw_out w' = crw_out w @ bs \<and> crw_cap N w' n"
    by (simp add: crw_defs crr_to_unsigned Let_def)
qed

end
