(* ===== verification/Functional.thy ===== *)
theory Functional
  imports Prelude
begin

text \<open>
  \<^verbatim>\<open>include/bs3/utils/functional.hh\<close> and \<^verbatim>\<open>tuple-util.hh\<close>, and what \<^verbatim>\<open>bp-14.hh\<close> adds to the standard library: folds over argument packs, calls with
  the arguments reversed, composition, and the tuple helpers. An argument pack or a tuple is
  a list of elements of one type; a function called on a pack takes the list. What the
  templates reject by \<^verbatim>\<open>static_assert\<close> or by having no overload (a fold of an empty pack, an
  index beyond a tuple) is \<open>None\<close>.
\<close>

section \<open>Function objects\<close>

definition constref_forward :: "'a \<Rightarrow> 'a" where
  "constref_forward v = v"

text \<open>\<^verbatim>\<open>ebo_function\<close> wraps a function pointer so that it can be inherited from; the call is forwarded.\<close>

record 'f function_wrapper =
  fw_f :: 'f

definition function_wrapper_call :: "('a list \<Rightarrow> 'b) function_wrapper \<Rightarrow> 'a list \<Rightarrow> 'b" where
  "function_wrapper_call fw v = fw_f fw v"

text \<open>A \<^verbatim>\<open>std::unique_ptr\<close> is null, \<open>None\<close>, or owns an object; the arguments have been made into the object.\<close>

definition make_unique :: "'a \<Rightarrow> 'a option" where
  "make_unique arg = Some arg"

section \<open>Index sequences\<close>

text \<open>\<^verbatim>\<open>std_bp::make_integer_sequence\<close> counts down and prepends.\<close>

fun make_integer_sequence :: "nat \<Rightarrow> nat list \<Rightarrow> nat list" where
  "make_integer_sequence 0 is = is"
| "make_integer_sequence (Suc n) is = make_integer_sequence n (n # is)"

definition make_index_sequence :: "nat \<Rightarrow> nat list" where
  "make_index_sequence n = make_integer_sequence n []"

definition tuple_index_sequence :: "'a list \<Rightarrow> nat list" where
  "tuple_index_sequence t = make_index_sequence (length t)"

lemma make_integer_sequence_eq: "make_integer_sequence n is = [0..<n] @ is"
  by (induction n arbitrary: "is") simp_all

lemma tuple_index_sequence_eq: "tuple_index_sequence t = [0..<length t]"
  by (simp add: tuple_index_sequence_def make_index_sequence_def make_integer_sequence_eq)

section \<open>Folds over argument packs\<close>

fun static_foldr :: "('a \<Rightarrow> 'a \<Rightarrow> 'a) \<Rightarrow> 'a list \<Rightarrow> 'a option" where
  "static_foldr f [] = None"
| "static_foldr f [t] = Some t"
| "static_foldr f (h # t # ts) = map_option (f h) (static_foldr f (t # ts))"

fun static_foldl :: "('a \<Rightarrow> 'a \<Rightarrow> 'a) \<Rightarrow> 'a list \<Rightarrow> 'a option" where
  "static_foldl f [] = None"
| "static_foldl f [t] = Some t"
| "static_foldl f (x # y # ts) = static_foldl f (f x y # ts)"

lemma static_foldr_append:
  "static_foldr f (xs @ [y]) = Some (foldr f xs y)"
proof (induction xs)
  case (Cons x xs)
  then show ?case by (cases xs) auto
qed simp

lemma static_foldl_Cons: "static_foldl f (x # xs) = Some (foldl f x xs)"
  by (induction xs arbitrary: x) auto

lemma foldl_assoc_shift:
  assumes "\<And>a b c. f (f a b) c = f a (f b c)"
  shows "f x (foldl f y ys) = foldl f (f x y) ys"
  by (induction ys arbitrary: y) (simp_all add: assms [symmetric])

lemma static_folds_agree:
  assumes "\<And>a b c. f (f a b) c = f a (f b c)"
  shows "static_foldr f xs = static_foldl f xs"
proof (induction xs rule: induct_list012)
  case (3 h t ts)
  then show ?case
    by (simp add: static_foldl_Cons foldl_assoc_shift [OF assms])
qed simp_all

section \<open>Calls with the arguments reversed\<close>

text \<open>
  \<^verbatim>\<open>reverse_call_t<Rest, Reversed>\<close> moves the first of the remaining arguments to the front of
  the reversed ones and calls the function when none remain.
\<close>

fun reverse_call_t :: "'a list \<Rightarrow> 'a list \<Rightarrow> ('a list \<Rightarrow> 'b) \<Rightarrow> 'b" where
  "reverse_call_t [] reversed f = f reversed"
| "reverse_call_t (first # rest) reversed f = reverse_call_t rest (first # reversed) f"

definition reverse_call :: "('a list \<Rightarrow> 'b) \<Rightarrow> 'a list \<Rightarrow> 'b" where
  "reverse_call f args = reverse_call_t args [] f"

lemma reverse_call_t_eq: "reverse_call_t rest reversed f = f (rev rest @ reversed)"
  by (induction rest reversed f rule: reverse_call_t.induct) simp_all

lemma reverse_call_eq: "reverse_call f args = f (rev args)"
  by (simp add: reverse_call_def reverse_call_t_eq)

section \<open>Composition\<close>

definition compose_2_t :: "('b \<Rightarrow> 'c) \<Rightarrow> ('a \<Rightarrow> 'b) \<Rightarrow> 'a \<Rightarrow> 'c" where
  "compose_2_t f g = (\<lambda>v. f (g v))"

fun compose :: "('a \<Rightarrow> 'a) list \<Rightarrow> ('a \<Rightarrow> 'a) option" where
  "compose [] = None"
| "compose [f] = Some f"
| "compose (f # g # rest) = map_option (compose_2_t f) (compose (g # rest))"

definition pipe :: "('a \<Rightarrow> 'a) list \<Rightarrow> ('a \<Rightarrow> 'a) option" where
  "pipe fs = reverse_call compose fs"

lemma compose_foldr: "fs \<noteq> [] \<Longrightarrow> compose fs = Some (\<lambda>v. foldr (\<lambda>f x. f x) fs v)"
  by (induction fs rule: compose.induct) (simp_all add: compose_2_t_def fun_eq_iff)

lemma pipe_foldl: "fs \<noteq> [] \<Longrightarrow> pipe fs = Some (\<lambda>v. foldl (\<lambda>x f. f x) v fs)"
  by (simp add: pipe_def reverse_call_eq compose_foldr foldr_conv_foldl)

section \<open>Tuples\<close>

definition spread_call :: "('a list \<Rightarrow> 'b) \<Rightarrow> 'a list \<Rightarrow> 'b" where
  "spread_call f t = f (map (\<lambda>i. t ! i) (tuple_index_sequence t))"

definition pick_call :: "nat list \<Rightarrow> ('a list \<Rightarrow> 'b) \<Rightarrow> 'a list \<Rightarrow> 'b option" where
  "pick_call is f t = (if \<forall>i \<in> set is. i < length t then Some (f (map (\<lambda>i. t ! i) is)) else None)"

definition map_tuple :: "('a \<Rightarrow> 'b) \<Rightarrow> 'a list \<Rightarrow> 'b list" where
  "map_tuple f t = map (\<lambda>i. f (t ! i)) (tuple_index_sequence t)"

definition spread :: "('a list \<Rightarrow> 'b) \<Rightarrow> 'a list \<Rightarrow> 'b" where
  "spread f = (\<lambda>t. spread_call f t)"

definition pick :: "nat list \<Rightarrow> ('a list \<Rightarrow> 'b) \<Rightarrow> 'a list \<Rightarrow> 'b option" where
  "pick is f = (\<lambda>t. pick_call is f t)"

definition pick1 :: "nat \<Rightarrow> 'a list \<Rightarrow> 'a option" where
  "pick1 i = pick [i] (\<lambda>args. constref_forward (hd args))"

definition call_with :: "'a \<Rightarrow> ('a \<Rightarrow> 'b) \<Rightarrow> 'b" where
  "call_with v f = f v"

definition collect_result :: "('a \<Rightarrow> 'b) list \<Rightarrow> 'a \<Rightarrow> 'b list" where
  "collect_result fns v = map_tuple (call_with v) fns"

lemma spread_call_eq: "spread_call f t = f t"
  by (simp add: spread_call_def tuple_index_sequence_eq map_nth)

lemma pick1_eq: "pick1 i t = (if i < length t then Some (t ! i) else None)"
  by (simp add: pick1_def pick_def pick_call_def constref_forward_def)

lemma map_tuple_eq: "map_tuple f t = map f t"
  by (rule nth_equalityI) (simp_all add: map_tuple_def tuple_index_sequence_eq)

lemma collect_result_eq: "collect_result fns v = map (\<lambda>f. f v) fns"
  by (simp add: collect_result_def map_tuple_eq call_with_def)

end
