(* ===== verification/VarUint.thy ===== *)
theory VarUint
  imports Streams Functional
begin

text \<open>
  Variable-length unsigned integers, \<^verbatim>\<open>impl/pbss-var-uint.hh\<close>: the writer and reader loops,
  the two size computations, and the compile-time serialization of constants used for the
  field headers of tagged structs. \<^verbatim>\<open>var_uint<UInt>\<close> is a word of \<^verbatim>\<open>UInt\<close>'s width.
  \<open>vuint_bytes\<close> is the format of doc/serialization.md; every routine is proved against it.
\<close>

unbundle bit_operations_syntax

section \<open>The format\<close>

text \<open>Seven bits a byte, least significant first, the top bit set on all but the last.\<close>

fun vuint_bytes :: "nat \<Rightarrow> byte list" where
  "vuint_bytes x = (if x < 128 then [word_of_nat x] else word_of_nat (x mod 128 + 128) # vuint_bytes (x div 128))"

declare vuint_bytes.simps [simp del]

lemma vuint_bytes_small: "x < 128 \<Longrightarrow> vuint_bytes x = [word_of_nat x]"
  by (simp add: vuint_bytes.simps)

lemma vuint_bytes_large:
  "128 \<le> x \<Longrightarrow> vuint_bytes x = word_of_nat (x mod 128 + 128) # vuint_bytes (x div 128)"
  by (simp add: vuint_bytes.simps [of x])

lemma vuint_bytes_ne [simp]: "vuint_bytes x \<noteq> []"
  by (simp add: vuint_bytes.simps [of x])

lemma length_vuint_bytes_pos [simp]: "0 < length (vuint_bytes x)"
  by simp

section \<open>The code\<close>

lemma shift7_decreases: "drop_bit 7 (n :: 'a::len word) \<noteq> 0 \<Longrightarrow> unat (drop_bit 7 n) < unat n"
proof -
  assume nz: "drop_bit 7 n \<noteq> 0"
  then have "n \<noteq> 0" by auto
  then have "0 < unat n" by (simp add: unat_gt_0)
  then show ?thesis by (simp add: unat_drop_bit_eq drop_bit_nat_def)
qed

function write_var_uint :: "'w outstream \<Rightarrow> 'a::len word \<Rightarrow> 'w \<Rightarrow> 'w result" where
  "write_var_uint ops n w =
     rbind (o_put ops (ucast ((n AND 0x7F) OR (if n > 0x7F then 0x80 else 0))) w) (\<lambda>w'.
       let n' = drop_bit 7 n in if n' \<noteq> 0 then write_var_uint ops n' w' else Inr w')"
  by pat_completeness auto
termination
  by (relation "measure (\<lambda>(ops, n, w). unat n)") (auto dest: shift7_decreases)

declare write_var_uint.simps [simp del]

text \<open>
  \<^verbatim>\<open>n |= (UInt(c&0x7f)) << offset\<close>: the operand is promoted to \<^verbatim>\<open>int\<close> when its type is narrower,
  and the shift is undefined when \<open>offset\<close> reaches the promoted width. Bits beyond the width are
  dropped, as C++20, the standard the build asks for, has it for signed types too; so are bits
  beyond \<^verbatim>\<open>UInt\<close>.
\<close>

definition shift_or :: "'a::len word \<Rightarrow> byte \<Rightarrow> nat \<Rightarrow> 'a word result" where
  "shift_or n v offset =
     (if max 32 LENGTH('a) \<le> offset then Inl (Undefined ShiftTooFar)
      else Inr (n OR push_bit offset (ucast v)))"

lemma shift_or_offset: "shift_or (n :: 'a::len word) v offset = Inr m \<Longrightarrow> offset < max 32 LENGTH('a)"
  by (auto simp: shift_or_def split: if_splits)

function read_var_uint_loop :: "'s instream \<Rightarrow> 'a::len word \<Rightarrow> nat \<Rightarrow> 's \<Rightarrow> ('a word \<times> 's) result" where
  "read_var_uint_loop ops n offset s =
     rbind (s_get ops s) (\<lambda>(c, s').
       case c of
         None \<Rightarrow> Inl EarlyEof
       | Some b \<Rightarrow>
           rbind (shift_or n (b AND 0x7F) offset) (\<lambda>n'.
             if b AND 0x80 \<noteq> 0 then read_var_uint_loop ops n' (offset + 7) s' else Inr (n', s')))"
  by pat_completeness auto
termination
  by (relation "measure (\<lambda>(ops, n, offset, s). max 32 (size n) + 7 - offset)")
    (auto dest!: shift_or_offset simp: word_size)

declare read_var_uint_loop.simps [simp del]

definition read_var_uint :: "'s instream \<Rightarrow> 's \<Rightarrow> ('a::len word \<times> 's) result" where
  "read_var_uint ops s = read_var_uint_loop ops 0 0 s"

text \<open>
  \<^verbatim>\<open>var_uint<bool>\<close>: both the conversion of the digit and the one \<^verbatim>\<open>|=\<close> makes test for zero, and
  the shift is one of an \<^verbatim>\<open>int\<close>. A \<^verbatim>\<open>bool\<close> is a byte that is 0 or 1.
\<close>

function read_var_bool_loop :: "'s instream \<Rightarrow> byte \<Rightarrow> nat \<Rightarrow> 's \<Rightarrow> (byte \<times> 's) result" where
  "read_var_bool_loop ops n offset s =
     rbind (s_get ops s) (\<lambda>(c, s').
       case c of
         None \<Rightarrow> Inl EarlyEof
       | Some b \<Rightarrow>
           if 32 \<le> offset then Inl (Undefined ShiftTooFar)
           else let n' = (if n \<noteq> 0 \<or> b AND 0x7F \<noteq> 0 then 1 else 0)
                in if b AND 0x80 \<noteq> 0 then read_var_bool_loop ops n' (offset + 7) s' else Inr (n', s'))"
  by pat_completeness auto
termination
  by (relation "measure (\<lambda>(ops, n, offset, s). 39 - offset)") auto

declare read_var_bool_loop.simps [simp del]

definition read_var_bool :: "'s instream \<Rightarrow> 's \<Rightarrow> (byte \<times> 's) result" where
  "read_var_bool ops s = read_var_bool_loop ops 0 0 s"

text \<open>\<^verbatim>\<open>static_size\<close> recurses at compile time, \<^verbatim>\<open>aot_size\<close> loops; both count in \<^verbatim>\<open>std::size_t\<close>.\<close>

function static_size_vuint :: "'a::len word \<Rightarrow> 64 word" where
  "static_size_vuint v = (if drop_bit 7 v \<noteq> 0 then static_size_vuint (drop_bit 7 v) + 1 else 1)"
  by pat_completeness auto
termination
  by (relation "measure unat") (auto dest: shift7_decreases)

function aot_size_vuint_loop :: "'a::len word \<Rightarrow> 64 word \<Rightarrow> 64 word" where
  "aot_size_vuint_loop x sz =
     (let sz' = sz + 1; x' = drop_bit 7 x
      in if x' \<noteq> 0 then aot_size_vuint_loop x' sz' else sz')"
  by pat_completeness auto
termination
  by (relation "measure (\<lambda>(x, sz). unat x)") (auto dest: shift7_decreases)

declare static_size_vuint.simps [simp del] aot_size_vuint_loop.simps [simp del]

definition aot_size_vuint :: "'a::len word \<Rightarrow> 64 word" where
  "aot_size_vuint v = aot_size_vuint_loop v 0"

text \<open>
  \<^verbatim>\<open>static_vuint_serialization<x, ch...>\<close> builds the characters of a constant at compile time;
  \<^verbatim>\<open>string_constant<v...>\<close> writes them, through a packed integer when there are two to eight.
\<close>

function static_vuint_serialization :: "64 word \<Rightarrow> byte list \<Rightarrow> byte list" where
  "static_vuint_serialization x ch =
     (if drop_bit 7 x \<noteq> 0
      then static_vuint_serialization (drop_bit 7 x) (ch @ [ucast ((x AND 0x7F) OR 0x80)])
      else ch @ [ucast x])"
  by pat_completeness auto
termination
  by (relation "measure (\<lambda>(x, ch). unat x)") (auto dest: shift7_decreases)

declare static_vuint_serialization.simps [simp del]

definition pack_acc :: "64 word \<Rightarrow> 64 word \<Rightarrow> 64 word" where
  "pack_acc low high = push_bit 8 high OR low"

fun put_all :: "'w outstream \<Rightarrow> byte list \<Rightarrow> 'w \<Rightarrow> 'w result" where
  "put_all ops [] w = Inr w"
| "put_all ops (b # bs) w = rbind (o_put ops b w) (put_all ops bs)"

definition string_constant_write :: "'w outstream \<Rightarrow> byte list \<Rightarrow> 'w \<Rightarrow> 'w result" where
  "string_constant_write ops v w =
     (if length v > 8 \<or> length v = 1 then put_all ops v w
      else (case static_foldr pack_acc (map ucast v) of
              None \<Rightarrow> Inl (Undefined OutOfBounds)
            | Some pack \<Rightarrow> o_write ops (take (length v) (mem_bytes pack)) (word_of_nat (length v)) w))"

section \<open>Characters of the encoding\<close>

lemma mask7: "(0x7F :: 'a::len word) = mask 7"
  by (simp add: mask_eq_exp_minus_1)

lemma ucast_take7: "(ucast (n AND 0x7F) :: byte) = word_of_nat (unat (n :: 'a::len word) mod 128)"
proof (rule word_unat_eq_iff [THEN iffD2])
  have "unat (ucast (n AND 0x7F) :: byte) = take_bit 8 (take_bit 7 (unat n))"
    by (simp add: mask7 and_mask_bintr [symmetric] unsigned_ucast_eq unsigned_take_bit_eq take_bit_eq_mask [symmetric])
  also have "\<dots> = unat n mod 128" by (simp add: take_bit_eq_mod)
  finally show "unat (ucast (n AND 0x7F) :: byte) = unat (word_of_nat (unat n mod 128) :: byte)"
    by (simp add: unat_of_nat)
qed

lemma bit_80: "bit (0x80 :: 'a::len word) k \<longleftrightarrow> 7 < LENGTH('a) \<and> k = 7"
proof -
  have "(0x80 :: 'a word) = 2 ^ 7" by simp
  then show ?thesis by (simp only: bit_exp_iff) auto
qed

lemma ucast_or80:
  assumes "8 \<le> LENGTH('a::len)"
  shows "(ucast ((n :: 'a word) OR 0x80) :: byte) = ucast n OR 0x80"
  using assms by (auto simp: bit_eq_iff bit_or_iff bit_80 bit_ucast_iff)

lemma or80_plus: "x < 128 \<Longrightarrow> (word_of_nat x :: byte) OR 0x80 = word_of_nat (x + 128)"
proof -
  assume x: "x < 128"
  have "(word_of_nat x :: byte) + 0x80 = word_of_nat x OR 0x80"
  proof (rule disjunctive_add)
    fix k
    have "\<not> bit (word_of_nat x :: byte) 7"
      using x bit_top_iff [of "word_of_nat x :: byte"] by (simp add: unat_byte_of_nat)
    then show "\<not> bit (word_of_nat x :: byte) k \<or> \<not> bit (0x80 :: byte) k"
      by (simp only: bit_80) auto
  qed
  then show ?thesis by simp
qed

lemma unat_7F: "8 \<le> LENGTH('a::len) \<Longrightarrow> unat (0x7F :: 'a word) = 127"
proof -
  assume "8 \<le> LENGTH('a)"
  then have "(2::nat) ^ 8 \<le> 2 ^ LENGTH('a)" by (rule power_increasing) simp
  then have "127 mod (2::nat) ^ LENGTH('a) = 127" by (intro mod_less) simp
  moreover have "(0x7F :: 'a word) = word_of_nat 127" by simp
  ultimately show ?thesis by (simp only: unat_of_nat)
qed

lemma var_uint_char:
  assumes "8 \<le> LENGTH('a::len)"
  shows "(ucast ((n AND 0x7F) OR (if n > (0x7F :: 'a word) then 0x80 else 0)) :: byte) =
    (if unat n < 128 then word_of_nat (unat n) else word_of_nat (unat n mod 128 + 128))"
proof -
  have "n > 0x7F \<longleftrightarrow> \<not> unat n < 128"
    using unat_7F [OF assms] by (auto simp: word_less_nat_alt)
  then show ?thesis
    by (simp add: ucast_or80 [OF assms] ucast_take7 or80_plus)
qed

lemma unat_drop7: "unat (drop_bit 7 (n :: 'a::len word)) = unat n div 128"
  by (simp add: unat_drop_bit_eq drop_bit_nat_def)

lemma drop7_zero: "drop_bit 7 (n :: 'a::len word) = 0 \<longleftrightarrow> unat n < 128"
  by (simp add: unat_eq_zero [symmetric] unat_drop7 div_eq_0_iff del: unat_eq_0)

section \<open>The writer emits the format\<close>

context output_stream begin

lemma emits_put: "emits ok out cap (o_put ops b) [b]"
  by (auto simp: emits_def dest: put_ok)

lemma emits_write_var_uint:
  assumes len: "8 \<le> LENGTH('a::len)"
  shows "emits ok out cap (write_var_uint ops (n :: 'a word)) (vuint_bytes (unat n))"
proof (induction "unat n" arbitrary: n rule: less_induct)
  case less
  show ?case
  proof (cases "unat n < 128")
    case True
    then have "write_var_uint ops n = o_put ops (word_of_nat (unat n))"
      by (simp add: write_var_uint.simps [of ops n, abs_def] var_uint_char [OF len] drop7_zero)
    with True show ?thesis by (simp only: vuint_bytes_small emits_put)
  next
    case False
    then have "unat (drop_bit 7 n) < unat n" by (simp add: unat_drop7)
    from less [OF this] have IH: "emits ok out cap (write_var_uint ops (drop_bit 7 n))
        (vuint_bytes (unat n div 128))"
      by (simp add: unat_drop7)
    from False have "write_var_uint ops n = (\<lambda>w. rbind (o_put ops (word_of_nat (unat n mod 128 + 128)) w)
        (write_var_uint ops (drop_bit 7 n)))"
      by (simp add: write_var_uint.simps [of ops n, abs_def] var_uint_char [OF len] drop7_zero)
    with False show ?thesis
      using emits_append [OF emits_put IH] by (simp add: vuint_bytes_large)
  qed
qed

lemma emits_put_all: "emits ok out cap (put_all ops bs) bs"
proof (induction bs)
  case Nil
  show ?case by (simp add: emits_def)
next
  case (Cons b bs)
  have "emits ok out cap (\<lambda>w. rbind (o_put ops b w) (put_all ops bs)) ([b] @ bs)"
    by (rule emits_append [OF emits_put Cons])
  then show ?case by (simp add: put_all.simps(2) [abs_def])
qed

end

section \<open>The reader takes the format\<close>

lemma or80_bit: "(b :: byte) AND 0x80 \<noteq> 0 \<longleftrightarrow> 128 \<le> unat b"
proof -
  have "b AND 0x80 \<noteq> 0 \<longleftrightarrow> bit b 7"
    by (subst bit_eq_iff) (simp add: bit_and_iff bit_80 del: bit_numeral_word_iff)
  then show ?thesis using bit_top_iff [of b] by simp
qed

lemma and7F_byte: "(b :: byte) AND 0x7F = word_of_nat (unat b mod 128)"
  using ucast_take7 [of b] by simp

lemma unat_and7F: "unat ((b :: byte) AND 0x7F) = unat b mod 128"
  unfolding and7F_byte by (simp add: unat_byte_of_nat)

text \<open>
  The accumulated value stays below \<open>2 ^ offset\<close>, so or-ing the next digit in adds it.
\<close>

lemma shift_or_plus:
  assumes a: "unat (n :: 'a::len word) < 2 ^ offset"
    and t: "unat n + unat v * 2 ^ offset < 2 ^ LENGTH('a)" and o: "offset < LENGTH('a)"
  shows "shift_or n v offset = Inr (n + word_of_nat (unat v) * 2 ^ offset)"
proof -
  have "shift_or n v offset = Inr (n OR push_bit offset (ucast v))"
    using o by (simp add: shift_or_def)
  also have "n OR push_bit offset (ucast v) = n + push_bit offset (ucast v)"
  proof (rule disjunctive_add [symmetric])
    fix k
    have "\<not> bit (unat n) k" if "offset \<le> k"
    proof -
      have "unat n < 2 ^ k" by (rule less_le_trans [OF a power_increasing [OF that]]) simp
      then show ?thesis by (simp add: bit_iff_odd)
    qed
    then show "\<not> bit n k \<or> \<not> bit (push_bit offset (ucast v)) k"
      by (cases "offset \<le> k") (auto simp: bit_simps bit_unsigned_iff)
  qed
  also have "push_bit offset (ucast v) = word_of_nat (unat v) * (2 ^ offset :: 'a word)"
    by (simp add: push_bit_eq_mult)
  finally show ?thesis .
qed

text \<open>One digit that is not the last: the accumulator and the rest stay in step.\<close>

lemma continued_digit:
  fixes n :: "'a::len word"
  assumes a: "unat n < 2 ^ offset" and t: "unat n + x * 2 ^ offset < 2 ^ LENGTH('a)"
    and o: "offset < LENGTH('a)" and x: "128 \<le> x"
  defines "b \<equiv> word_of_nat (x mod 128 + 128) :: byte"
  obtains n' where "shift_or n (b AND 0x7F) offset = Inr n'" and "b AND 0x80 \<noteq> 0"
    and "unat n' < 2 ^ (offset + 7)" and "unat n' + x div 128 * 2 ^ (offset + 7) < 2 ^ LENGTH('a)"
    and "offset + 7 < LENGTH('a)"
    and "n' + word_of_nat (x div 128) * 2 ^ (offset + 7) = n + word_of_nat x * 2 ^ offset"
proof -
  have lt: "x mod 128 + 128 < 256" using mod_less_divisor [of 128 x] by linarith
  then have u: "unat b = x mod 128 + 128" unfolding b_def by (simp only: unat_byte_of_nat mod_less)
  have v: "unat (b AND 0x7F) = x mod 128" by (simp only: unat_and7F u) simp
  have "a * p + c * (p * 128) = (a + 128 * c) * p" for a c p :: nat
    by (simp add: algebra_simps)
  from this [of "x mod 128" "2 ^ offset" "x div 128"]
  have tot: "unat n + x mod 128 * 2 ^ offset + x div 128 * 2 ^ (offset + 7) = unat n + x * 2 ^ offset"
    by (simp add: power_add)
  have t1: "unat n + unat (b AND 0x7F) * 2 ^ offset < 2 ^ LENGTH('a)"
    using tot t unfolding v by linarith
  let ?n' = "n + word_of_nat (x mod 128) * 2 ^ offset"
  have so: "shift_or n (b AND 0x7F) offset = Inr ?n'"
    using shift_or_plus [OF a t1 o] by (simp only: v)
  have n': "?n' = word_of_nat (unat n + x mod 128 * 2 ^ offset)" by simp
  have un': "unat ?n' = unat n + x mod 128 * 2 ^ offset"
    unfolding n' unat_of_nat using t1 v by (intro mod_less) simp
  have "unat n + x mod 128 * 2 ^ offset < (1 + x mod 128) * 2 ^ offset"
    using a by (simp add: algebra_simps)
  also have "\<dots> \<le> 128 * 2 ^ offset"
    by (intro mult_right_mono) (use mod_less_divisor [of 128 x] in linarith, simp)
  finally have p1: "unat ?n' < 2 ^ (offset + 7)" unfolding un' by (simp add: power_add)
  have p2: "unat ?n' + x div 128 * 2 ^ (offset + 7) < 2 ^ LENGTH('a)"
    unfolding un' using tot t by linarith
  have "2 ^ (offset + 7) \<le> x div 128 * 2 ^ (offset + 7)" using x by simp
  then have "(2::nat) ^ (offset + 7) < 2 ^ LENGTH('a)" using p2 by linarith
  then have p3: "offset + 7 < LENGTH('a)" by (rule power_less_imp_less_exp [rotated]) simp
  have "(word_of_nat (unat n + x mod 128 * 2 ^ offset + x div 128 * 2 ^ (offset + 7)) :: 'a word) =
    word_of_nat (unat n + x * 2 ^ offset)" by (simp only: tot)
  then have eq: "?n' + word_of_nat (x div 128) * 2 ^ (offset + 7) = n + word_of_nat x * 2 ^ offset"
    by simp
  have "b AND 0x80 \<noteq> 0" by (simp only: or80_bit u)
  from so this p1 p2 p3 eq show thesis by (rule that)
qed

lemma last_digit:
  fixes n :: "'a::len word"
  assumes a: "unat n < 2 ^ offset" and t: "unat n + x * 2 ^ offset < 2 ^ LENGTH('a)"
    and o: "offset < LENGTH('a)" and x: "x < 128"
  shows "shift_or n ((word_of_nat x :: byte) AND 0x7F) offset = Inr (n + word_of_nat x * 2 ^ offset)"
    and "(word_of_nat x :: byte) AND 0x80 = 0"
proof -
  have u: "unat (word_of_nat x :: byte) = x" using x by (simp add: unat_byte_of_nat)
  have v: "unat ((word_of_nat x :: byte) AND 0x7F) = x" using x by (simp add: unat_and7F u)
  show "shift_or n ((word_of_nat x :: byte) AND 0x7F) offset = Inr (n + word_of_nat x * 2 ^ offset)"
    using shift_or_plus [OF a, of "word_of_nat x AND 0x7F"] t o by (simp only: v)
  show "(word_of_nat x :: byte) AND 0x80 = 0"
    using or80_bit [of "word_of_nat x"] x unfolding u by simp
qed

context input_stream begin

lemma read_loop_last:
  assumes "unat (n :: 'a::len word) < 2 ^ offset" and "unat n + x * 2 ^ offset < 2 ^ LENGTH('a)"
    and "offset < LENGTH('a)" and "x < 128" and "s_get ops s = Inr (Some (word_of_nat x), s1)"
  shows "read_var_uint_loop ops n offset s = Inr (n + word_of_nat x * 2 ^ offset, s1)"
  using last_digit [OF assms(1-4)] assms(5)
  by (simp add: read_var_uint_loop.simps [of ops n] del: word_of_nat_eq_0_iff)

lemma parses_read_loop:
  assumes "unat (n :: 'a::len word) < 2 ^ offset" and "unat n + x * 2 ^ offset < 2 ^ LENGTH('a)"
    and "offset < LENGTH('a)"
  shows "parses ok rem (read_var_uint_loop ops n offset) (n + word_of_nat x * 2 ^ offset) (vuint_bytes x)"
  using assms
proof (induction x arbitrary: n offset rule: less_induct)
  case (less x)
  show ?case unfolding parses_def
  proof (intro allI impI, elim conjE)
    fix s rest
    assume s: "ok s" "rem s = vuint_bytes x @ rest"
    show "\<exists>s'. read_var_uint_loop ops n offset s = Inr (n + word_of_nat x * 2 ^ offset, s') \<and> ok s' \<and> rem s' = rest"
    proof (cases "x < 128")
      case True
      with s obtain s1 where "s_get ops s = Inr (Some (word_of_nat x), s1)" "ok s1" "rem s1 = rest"
        using get_cons [OF s(1), of "word_of_nat x" rest] by (auto simp: vuint_bytes_small)
      with read_loop_last [OF less.prems True] show ?thesis by blast
    next
      case False
      then have x: "128 \<le> x" "x div 128 < x" by auto
      let ?b = "word_of_nat (x mod 128 + 128) :: byte"
      obtain s1 where s1: "s_get ops s = Inr (Some ?b, s1)" "ok s1" "rem s1 = vuint_bytes (x div 128) @ rest"
        using get_cons [OF s(1), of ?b "vuint_bytes (x div 128) @ rest"] s(2) False
        by (auto simp: vuint_bytes_large)
      obtain n' where n': "shift_or n (?b AND 0x7F) offset = Inr n'" "?b AND 0x80 \<noteq> 0"
        "unat n' < 2 ^ (offset + 7)" "unat n' + x div 128 * 2 ^ (offset + 7) < 2 ^ LENGTH('a)"
        "offset + 7 < LENGTH('a)"
        "n' + word_of_nat (x div 128) * 2 ^ (offset + 7) = n + word_of_nat x * 2 ^ offset"
        by (rule continued_digit [OF less.prems x(1)])
      from parsesD [OF less.IH [OF x(2) n'(3-5)] s1(2,3)]
      show ?thesis using s1(1) n'(1,2,6)
        by (auto simp: read_var_uint_loop.simps [of ops n offset] simp del: of_nat_add)
    qed
  qed
qed

lemma parses_read_var_uint:
  "x < 2 ^ LENGTH('a::len) \<Longrightarrow>
   parses ok rem (read_var_uint ops) (word_of_nat x :: 'a word) (vuint_bytes x)"
  using parses_read_loop [of "0 :: 'a word" 0 x] by (simp add: read_var_uint_def [abs_def])

lemma parses_read_var_bool:
  assumes "b = 0 \<or> b = 1"
  shows "parses ok rem (read_var_bool ops) b (vuint_bytes (unat b))"
  unfolding parses_def
proof (intro allI impI, elim conjE)
  fix s rest
  assume s: "ok s" "rem s = vuint_bytes (unat b) @ rest"
  then have "rem s = b # rest" using assms by (auto simp: vuint_bytes_small)
  from get_cons [OF s(1) this] show "\<exists>s'. read_var_bool ops s = Inr (b, s') \<and> ok s' \<and> rem s' = rest"
    using assms by (auto simp: read_var_bool_def read_var_bool_loop.simps)
qed

end

section \<open>A truncated encoding is an early end of file\<close>

context ending_stream begin

lemma read_loop_end:
  assumes "ok s \<and> rem s = [] \<or> past s"
  shows "\<exists>e \<in> eof_errors. read_var_uint_loop ops n offset s = Inl e"
  using get_end [OF assms] early_eof by (auto simp: read_var_uint_loop.simps [of ops n offset])

lemma starves_read_loop:
  assumes "unat (n :: 'a::len word) < 2 ^ offset" and "unat n + x * 2 ^ offset < 2 ^ LENGTH('a)"
    and "offset < LENGTH('a)"
  shows "starves ok rem past eof_errors (read_var_uint_loop ops n offset) (vuint_bytes x)"
  using assms
proof (induction x arbitrary: n offset rule: less_induct)
  case (less x)
  show ?case unfolding starves_def
  proof (intro allI impI)
    fix s k
    assume s: "ok s \<and> rem s = take k (vuint_bytes x) \<and> k < length (vuint_bytes x) \<or> past s"
    show "\<exists>e \<in> eof_errors. read_var_uint_loop ops n offset s = Inl e"
    proof (cases "past s \<or> k = 0")
      case True
      with s show ?thesis by (intro read_loop_end) auto
    next
      case False
      with s obtain j where j: "k = Suc j" "ok s" "rem s = take k (vuint_bytes x)" "k < length (vuint_bytes x)"
        by (cases k) auto
      have x: "128 \<le> x"
      proof (rule ccontr)
        assume "\<not> 128 \<le> x"
        with j show False by (simp add: vuint_bytes_small)
      qed
      then have x2: "x div 128 < x" by auto
      let ?b = "word_of_nat (x mod 128 + 128) :: byte"
      have rem: "rem s = ?b # take j (vuint_bytes (x div 128))" and jl: "j < length (vuint_bytes (x div 128))"
        using j x by (simp_all add: vuint_bytes_large)
      obtain s1 where s1: "s_get ops s = Inr (Some ?b, s1)" "ok s1" "rem s1 = take j (vuint_bytes (x div 128))"
        using get_cons [OF j(2) rem] by auto
      obtain n' where n': "shift_or n (?b AND 0x7F) offset = Inr n'" "?b AND 0x80 \<noteq> 0"
        "unat n' < 2 ^ (offset + 7)" "unat n' + x div 128 * 2 ^ (offset + 7) < 2 ^ LENGTH('a)"
        "offset + 7 < LENGTH('a)"
        by (rule continued_digit [OF less.prems x])
      from less.IH [OF x2 n'(3-5)] s1 jl
      have "\<exists>e \<in> eof_errors. read_var_uint_loop ops n' (offset + 7) s1 = Inl e"
        unfolding starves_def by blast
      then show ?thesis using s1(1) n'(1,2)
        by (auto simp: read_var_uint_loop.simps [of ops n offset])
    qed
  qed
qed

lemma starves_read_var_uint:
  "x < 2 ^ LENGTH('a::len) \<Longrightarrow>
   starves ok rem past eof_errors (read_var_uint ops :: 's \<Rightarrow> ('a word \<times> 's) result) (vuint_bytes x)"
  using starves_read_loop [of "0 :: 'a word" 0 x] by (simp add: read_var_uint_def [abs_def])

lemma read_var_bool_end:
  assumes "ok s \<and> rem s = [] \<or> past s"
  shows "\<exists>e \<in> eof_errors. read_var_bool ops s = Inl e"
  using get_end [OF assms] early_eof by (auto simp: read_var_bool_def read_var_bool_loop.simps)

lemma starves_read_var_bool:
  assumes "b = 0 \<or> b = 1"
  shows "starves ok rem past eof_errors (read_var_bool ops) (vuint_bytes (unat b))"
proof -
  have "length (vuint_bytes (unat b)) = 1" using assms by (auto simp: vuint_bytes_small)
  then show ?thesis unfolding starves_def using read_var_bool_end by auto
qed

end

section \<open>Sizes and constant serializations\<close>

lemma static_size_vuint_eq: "static_size_vuint n = word_of_nat (length (vuint_bytes (unat n)))"
proof (induction n rule: static_size_vuint.induct)
  case (1 v)
  show ?case
  proof (cases "unat v < 128")
    case True
    then show ?thesis by (simp add: static_size_vuint.simps [of v] drop7_zero vuint_bytes_small)
  next
    case False
    then show ?thesis using 1
      by (simp add: static_size_vuint.simps [of v] drop7_zero unat_drop7 vuint_bytes_large)
  qed
qed

lemma aot_size_vuint_loop_eq:
  "aot_size_vuint_loop x sz = sz + word_of_nat (length (vuint_bytes (unat x)))"
proof (induction x sz rule: aot_size_vuint_loop.induct)
  case (1 x sz)
  show ?case
  proof (cases "unat x < 128")
    case True
    then show ?thesis by (simp add: aot_size_vuint_loop.simps [of x] drop7_zero vuint_bytes_small)
  next
    case False
    then show ?thesis using 1
      by (simp add: aot_size_vuint_loop.simps [of x] drop7_zero unat_drop7 vuint_bytes_large)
  qed
qed

lemma aot_size_vuint_eq: "aot_size_vuint n = word_of_nat (length (vuint_bytes (unat n)))"
  by (simp add: aot_size_vuint_def aot_size_vuint_loop_eq)

lemma ucast_or_80_64: "(ucast ((x AND 0x7F) OR 0x80 :: 64 word) :: byte) = word_of_nat (unat x mod 128 + 128)"
  by (simp add: ucast_or80 ucast_take7 or80_plus)

lemma static_vuint_serialization_eq:
  "static_vuint_serialization x ch = ch @ vuint_bytes (unat x)"
proof (induction x ch rule: static_vuint_serialization.induct)
  case (1 x ch)
  show ?case
  proof (cases "unat x < 128")
    case True
    then show ?thesis
      by (simp add: static_vuint_serialization.simps [of x] drop7_zero vuint_bytes_small)
  next
    case False
    then show ?thesis using 1 ucast_or_80_64 [of x]
      by (simp add: static_vuint_serialization.simps [of x] drop7_zero unat_drop7 vuint_bytes_large)
  qed
qed

text \<open>The packed integer of \<^verbatim>\<open>string_constant\<close> has the characters as its low bytes in memory.\<close>

lemma pack_acc_plus: "pack_acc (ucast (b :: byte)) high = ucast b + 256 * high"
proof -
  have "push_bit 8 high OR ucast b = push_bit 8 high + (ucast b :: 64 word)"
  proof (rule disjunctive_add [symmetric])
    fix k
    show "\<not> bit (push_bit 8 high) k \<or> \<not> bit (ucast b :: 64 word) k"
      by (cases "k < 8") (auto simp: bit_simps dest: bit_imp_le_length)
  qed
  then show ?thesis by (simp add: pack_acc_def push_bit_eq_mult algebra_simps)
qed

lemma foldr_acc: "v \<noteq> [] \<Longrightarrow> static_foldr pack_acc (map ucast (v :: byte list)) = Some (word_of_nat (le_val v))"
proof (induction v rule: induct_list012)
  case (3 x y zs)
  then show ?case by (simp add: pack_acc_plus)
qed simp_all

lemma take_le_bytes: "n \<le> m \<Longrightarrow> take n (le_bytes m x) = le_bytes n x"
proof (induction n arbitrary: m x)
  case (Suc n)
  then show ?case by (cases m) auto
qed simp

lemma pack_bytes:
  assumes "length v \<le> 8"
  shows "take (length v) (mem_bytes (word_of_nat (le_val v) :: 64 word)) = v"
proof -
  have "(256::nat) ^ length v \<le> 256 ^ 8" using assms by (intro power_increasing) auto
  then have "le_val v < 2 ^ 64" using le_val_lt [of v] by simp
  then have "unat (word_of_nat (le_val v) :: 64 word) = le_val v" by (simp add: unat_of_nat)
  then show ?thesis using assms by (simp add: mem_bytes_def take_le_bytes)
qed

lemma sint_of_nat_small:
  assumes "n < 2 ^ 63"
  shows "sint (word_of_nat n :: 64 word) = int n" and "unat (word_of_nat n :: 64 word) = n"
proof -
  have "n mod 2 ^ 64 = n" using assms by (intro mod_less) simp
  then show u: "unat (word_of_nat n :: 64 word) = n" by (simp add: unat_of_nat)
  show "sint (word_of_nat n :: 64 word) = int n"
    using sint_small [of "word_of_nat n :: 64 word"] assms unfolding u by simp
qed

context output_stream begin

lemma emits_write:
  assumes "unat k = length bs" and "length bs < 2 ^ 63"
  shows "emits ok out cap (o_write ops bs k) bs"
proof -
  have "k = word_of_nat (length bs)" unfolding assms(1) [symmetric] by simp
  then have "0 \<le> sint k" using sint_of_nat_small [OF assms(2)] by simp
  then show ?thesis using write_ok [of _ bs _ k] assms(1) by (auto simp: emits_def)
qed

lemma emits_string_constant:
  assumes "v \<noteq> []"
  shows "emits ok out cap (string_constant_write ops v) v"
proof (cases "length v > 8 \<or> length v = 1")
  case True
  then show ?thesis
    using emits_put_all [of v] by (simp add: string_constant_write_def [abs_def])
next
  case False
  then have l: "length v \<le> 8" by simp
  have "emits ok out cap (o_write ops v (word_of_nat (length v))) v"
    by (rule emits_write) (use l in \<open>simp_all add: sint_of_nat_small\<close>)
  then show ?thesis
    using False foldr_acc [OF assms] pack_bytes [OF l]
    by (simp add: string_constant_write_def [abs_def])
qed

end

end
