(* ===== verification/Primitives.thy ===== *)
theory Primitives
  imports VarUint
begin

text \<open>
  Arithmetic types, enums and \<^verbatim>\<open>uninitialized_byte\<close> (\<^verbatim>\<open>impl/pbss-primitives.hh\<close>,
  \<^verbatim>\<open>pbss-enum.hh\<close>, \<^verbatim>\<open>pbss-uninitialized-byte.hh\<close>). A value is its bit pattern at its width;
  signed, unsigned and floating types of one size are serialized alike, and \<^verbatim>\<open>bool\<close> is kept
  apart because reading one converts any non-zero byte to \<^verbatim>\<open>true\<close>.
\<close>

section \<open>Types and values\<close>

datatype prim_ty = Bool1 | Num1 | Num2 | Num4 | Num8 | Num16

datatype prim = P1 "8 word" | P2 "16 word" | P4 "32 word" | P8 "64 word" | P16 "128 word"

fun size_of :: "prim_ty \<Rightarrow> nat" where
  "size_of Bool1 = 1" | "size_of Num1 = 1" | "size_of Num2 = 2" | "size_of Num4 = 4"
| "size_of Num8 = 8" | "size_of Num16 = 16"

fun prim_bytes :: "prim \<Rightarrow> byte list" where
  "prim_bytes (P1 x) = mem_bytes x" | "prim_bytes (P2 x) = mem_bytes x"
| "prim_bytes (P4 x) = mem_bytes x" | "prim_bytes (P8 x) = mem_bytes x"
| "prim_bytes (P16 x) = mem_bytes x"

fun prim_of :: "prim_ty \<Rightarrow> byte list \<Rightarrow> prim" where
  "prim_of Bool1 bs = P1 (of_mem bs)" | "prim_of Num1 bs = P1 (of_mem bs)"
| "prim_of Num2 bs = P2 (of_mem bs)" | "prim_of Num4 bs = P4 (of_mem bs)"
| "prim_of Num8 bs = P8 (of_mem bs)" | "prim_of Num16 bs = P16 (of_mem bs)"

fun prim_has_type :: "prim \<Rightarrow> prim_ty \<Rightarrow> bool" where
  "prim_has_type (P1 x) Bool1 = (x = 0 \<or> x = 1)" | "prim_has_type (P1 x) Num1 = True"
| "prim_has_type (P2 x) Num2 = True" | "prim_has_type (P4 x) Num4 = True"
| "prim_has_type (P8 x) Num8 = True" | "prim_has_type (P16 x) Num16 = True"
| "prim_has_type _ _ = False"

section \<open>The code\<close>

text \<open>One byte goes through \<^verbatim>\<open>put\<close>, more bytes through \<^verbatim>\<open>write\<close>.\<close>

definition write_prim :: "'w outstream \<Rightarrow> prim_ty \<Rightarrow> prim \<Rightarrow> 'w \<Rightarrow> 'w result" where
  "write_prim ops t v w =
     (if size_of t = 1 then o_put ops (hd (prim_bytes v)) w
      else o_write ops (prim_bytes v) (word_of_nat (size_of t)) w)"

text \<open>
  \<^verbatim>\<open>static_cast<T>(v)\<close> of the character for one-byte types; a conversion to \<^verbatim>\<open>bool\<close> tests
  for zero.
\<close>

fun static_cast_char :: "prim_ty \<Rightarrow> byte \<Rightarrow> prim" where
  "static_cast_char Bool1 v = P1 (if v = 0 then 0 else 1)"
| "static_cast_char t v = P1 v"

text \<open>
  The many-byte read fills a local variable; where the stream delivers fewer bytes without
  reporting the end, the variable is read uninitialized.
\<close>

definition read_prim :: "'s instream \<Rightarrow> prim_ty \<Rightarrow> 's \<Rightarrow> (prim \<times> 's) result" where
  "read_prim ops t s =
     (if size_of t = 1 then
        rbind (s_get ops s) (\<lambda>(v, s').
          case v of None \<Rightarrow> Inl EarlyEof | Some b \<Rightarrow> Inr (static_cast_char t b, s'))
      else
        rbind (s_read ops (word_of_nat (size_of t)) s) (\<lambda>(bs, s').
          if s_eof ops s' then Inl EarlyEof
          else if length bs \<noteq> size_of t then Inl (Undefined ReadIndeterminate)
          else Inr (prim_of t bs, s')))"

text \<open>Enums go through their underlying type, \<^verbatim>\<open>uninitialized_byte\<close> through \<^verbatim>\<open>char\<close>.\<close>

definition serialize_enum :: "'w outstream \<Rightarrow> prim_ty \<Rightarrow> prim \<Rightarrow> 'w \<Rightarrow> 'w result" where
  "serialize_enum ops utype value w = write_prim ops utype value w"

definition parse_enum :: "'s instream \<Rightarrow> prim_ty \<Rightarrow> 's \<Rightarrow> (prim \<times> 's) result" where
  "parse_enum ops utype s = read_prim ops utype s"

definition serialize_byte :: "'w outstream \<Rightarrow> byte \<Rightarrow> 'w \<Rightarrow> 'w result" where
  "serialize_byte ops b w = write_prim ops Num1 (P1 b) w"

definition parse_byte :: "'s instream \<Rightarrow> 's \<Rightarrow> (byte \<times> 's) result" where
  "parse_byte ops s = rbind (read_prim ops Num1 s) (\<lambda>(p, s'). Inr (hd (prim_bytes p), s'))"

section \<open>Representation lemmas\<close>

lemma length_prim_bytes [simp]: "prim_has_type v t \<Longrightarrow> length (prim_bytes v) = size_of t"
  by (cases v; cases t) simp_all

lemma prim_of_bytes: "prim_has_type v t \<Longrightarrow> prim_of t (prim_bytes v) = v"
  by (cases v; cases t) (simp_all del: mem_bytes_byte add: of_mem_mem_bytes)

lemma size_of_bounds: "0 < size_of t" "size_of t \<le> 16"
  by (cases t; simp)+

lemma static_cast_char_has_type:
  "size_of t = 1 \<Longrightarrow> prim_has_type (static_cast_char t b) t"
  by (cases t) simp_all

lemma prim_of_has_type:
  "size_of t \<noteq> 1 \<Longrightarrow> prim_has_type (prim_of t bs) t"
  by (cases t) simp_all

lemma static_cast_char_bytes:
  assumes "prim_has_type v t" and "size_of t = 1"
  shows "prim_bytes v = [hd (prim_bytes v)]" and "static_cast_char t (hd (prim_bytes v)) = v"
  using assms by (cases v; cases t; auto)+

section \<open>Writing and reading\<close>

context output_stream begin

lemma emits_write_prim:
  assumes "prim_has_type v t"
  shows "emits ok out cap (write_prim ops t v) (prim_bytes v)"
proof (cases "size_of t = 1")
  case True
  then show ?thesis
    using static_cast_char_bytes(1) [OF assms] emits_put [of "hd (prim_bytes v)"]
    by (simp add: write_prim_def [abs_def])
next
  case False
  have "emits ok out cap (o_write ops (prim_bytes v) (word_of_nat (size_of t))) (prim_bytes v)"
    using size_of_bounds [of t] assms by (intro emits_write) (simp_all add: sint_of_nat_small)
  with False show ?thesis by (simp add: write_prim_def [abs_def])
qed

end

context input_stream begin

lemma parses_get:
  assumes "\<And>s'. f b s' = Inr (v, s')"
  shows "parses ok rem (\<lambda>s. rbind (s_get ops s) (\<lambda>(c, s'). case c of None \<Rightarrow> Inl EarlyEof | Some b \<Rightarrow> f b s')) v [b]"
  using get_cons assms by (fastforce simp: parses_def)

lemma read_exact:
  assumes "ok s" and "rem s = bs @ rest" and "length bs < 2 ^ 63"
  shows "\<exists>s'. s_read ops (word_of_nat (length bs)) s = Inr (bs, s') \<and> \<not> s_eof ops s' \<and> ok s' \<and> rem s' = rest"
  using read_enough [OF assms(1), of "word_of_nat (length bs)"] assms
  by (simp add: sint_of_nat_small)

lemma parses_read_prim:
  assumes "prim_has_type v t"
  shows "parses ok rem (read_prim ops t) v (prim_bytes v)"
proof (cases "size_of t = 1")
  case True
  note b = static_cast_char_bytes [OF assms True]
  have "parses ok rem (read_prim ops t) v [hd (prim_bytes v)]"
    using True b(2) by (simp add: read_prim_def [abs_def] parses_get)
  then show ?thesis by (simp only: b(1) [symmetric])
next
  case False
  have l: "length (prim_bytes v) = size_of t" using assms by simp
  show ?thesis unfolding parses_def
  proof (intro allI impI, elim conjE)
    fix s rest
    assume "ok s" "rem s = prim_bytes v @ rest"
    from read_exact [OF this] size_of_bounds [of t] l
    obtain s' where "s_read ops (word_of_nat (size_of t)) s = Inr (prim_bytes v, s')"
      "\<not> s_eof ops s'" "ok s'" "rem s' = rest" by auto
    with False l show "\<exists>s'. read_prim ops t s = Inr (v, s') \<and> ok s' \<and> rem s' = rest"
      by (simp add: read_prim_def prim_of_bytes [OF assms])
  qed
qed

end

context ending_stream begin

lemma starves_read_prim:
  assumes "length bs = size_of t"
  shows "starves ok rem past eof_errors (read_prim ops t) bs"
  unfolding starves_def
proof (intro allI impI)
  fix s k
  assume h: "ok s \<and> rem s = take k bs \<and> k < length bs \<or> past s"
  show "\<exists>e\<in>eof_errors. read_prim ops t s = Inl e"
  proof (cases "size_of t = 1")
    case True
    with h assms have "ok s \<and> rem s = [] \<or> past s" by auto
    from get_end [OF this] True show ?thesis
      using early_eof by (auto simp: read_prim_def)
  next
    case False
    let ?n = "word_of_nat (size_of t) :: 64 word"
    have n: "sint ?n = int (size_of t)" "unat ?n = size_of t"
      using size_of_bounds [of t] by (simp_all add: sint_of_nat_small)
    with h assms have "ok s \<and> length (rem s) < unat ?n \<or> past s" by auto
    from read_end [OF this] n have
      "(\<exists>e \<in> eof_errors. s_read ops ?n s = Inl e) \<or>
       (\<exists>bs s'. s_read ops ?n s = Inr (bs, s') \<and> s_eof ops s' \<and> past s')"
      by simp
    with False show ?thesis using early_eof by (auto simp: read_prim_def)
  qed
qed

end

end
