(* ===== verification/Sequences.thy ===== *)
theory Sequences
  imports Primitives
begin

text \<open>
  Homogeneous sequences (\<^verbatim>\<open>impl/pbss-serialize-iterable.hh\<close>, \<^verbatim>\<open>pbss-parse-container.hh\<close>) and
  heterogeneous static-length sequences (\<^verbatim>\<open>pbss-std-tuple.hh\<close>, \<^verbatim>\<open>pbss-tuple.hh\<close>). The element
  type is a template parameter of the code; here it enters as the element's writer, reader
  and sizes, as functions.
\<close>

section \<open>Writing containers\<close>

text \<open>
  \<^verbatim>\<open>write_elems\<close> has two overloads: element by element, and one \<^verbatim>\<open>write\<close> of the container's
  memory (\<open>sz\<close> is \<^verbatim>\<open>sizeof(value_type)\<close>, \<open>mem\<close> an element's bytes in memory).
\<close>

fun write_elems_each :: "('v \<Rightarrow> 'w \<Rightarrow> 'w result) \<Rightarrow> 'v list \<Rightarrow> 'w \<Rightarrow> 'w result" where
  "write_elems_each ser [] w = Inr w"
| "write_elems_each ser (v # coll) w = rbind (ser v w) (write_elems_each ser coll)"

definition write_elems_copy ::
  "config \<Rightarrow> 'w outstream \<Rightarrow> nat \<Rightarrow> ('v \<Rightarrow> byte list) \<Rightarrow> 'v list \<Rightarrow> 'w \<Rightarrow> 'w result" where
  "write_elems_copy cfg ops sz mem coll w =
     rbind (to_signed cfg (word_of_nat sz * word_of_nat (length coll) :: 64 word))
       (\<lambda>count. o_write ops (concat (map mem coll)) count w)"

definition serialize_iterable ::
  "config \<Rightarrow> 'w outstream \<Rightarrow> bool \<Rightarrow> nat \<Rightarrow> ('v \<Rightarrow> byte list) \<Rightarrow> ('v \<Rightarrow> 'w \<Rightarrow> 'w result) \<Rightarrow>
   'v list \<Rightarrow> 'w \<Rightarrow> 'w result" where
  "serialize_iterable cfg ops can_copy sz mem ser coll w =
     rbind (write_var_uint ops (word_of_nat (length coll) :: 64 word) w) (\<lambda>w'.
       if can_copy then write_elems_copy cfg ops sz mem coll w'
       else write_elems_each ser coll w')"

text \<open>\<^verbatim>\<open>aot_size\<close>: a product when the element has a fixed size, otherwise a sum over the elements.\<close>

definition aot_size_fixed_elems :: "64 word \<Rightarrow> 'v list \<Rightarrow> 64 word" where
  "aot_size_fixed_elems fs coll =
     aot_size_vuint (word_of_nat (length coll) :: 64 word) + word_of_nat (length coll) * fs"

definition aot_size_each_elem :: "('v \<Rightarrow> 64 word) \<Rightarrow> 'v list \<Rightarrow> 64 word" where
  "aot_size_each_elem aot coll =
     foldl (\<lambda>s x. s + aot x) (aot_size_vuint (word_of_nat (length coll) :: 64 word)) coll"

section \<open>Reading containers\<close>

text \<open>
  What the standard container offers: \<open>SeqVec m\<close> has \<^verbatim>\<open>push_back\<close>, \<^verbatim>\<open>reserve\<close>, \<^verbatim>\<open>resize\<close> and \<^verbatim>\<open>data\<close>
  and holds at most \<open>m\<close> elements (vector, basic_string); \<open>SeqList\<close> has \<^verbatim>\<open>push_back\<close> only
  (list, deque). \<^verbatim>\<open>reserve\<close> and \<^verbatim>\<open>resize\<close> beyond the maximal size throw \<^verbatim>\<open>length_error\<close>.
\<close>

datatype seq_kind = SeqVec nat | SeqList

fun reserve_if_applicable :: "seq_kind \<Rightarrow> nat \<Rightarrow> unit result" where
  "reserve_if_applicable (SeqVec m) sz = (if sz > m then Inl LengthError else Inr ())"
| "reserve_if_applicable SeqList sz = Inr ()"

fun resize_if_applicable :: "seq_kind \<Rightarrow> nat \<Rightarrow> unit result" where
  "resize_if_applicable (SeqVec m) sz = (if sz > m then Inl LengthError else Inr ())"
| "resize_if_applicable SeqList sz = Inr ()"

fun push_back_loop :: "('s \<Rightarrow> ('v \<times> 's) result) \<Rightarrow> nat \<Rightarrow> 'v list \<Rightarrow> 's \<Rightarrow> ('v list \<times> 's) result" where
  "push_back_loop P 0 coll s = Inr (coll, s)"
| "push_back_loop P (Suc n) coll s = rbind (P s) (\<lambda>(v, s'). push_back_loop P n (coll @ [v]) s')"

definition parse_elems_each ::
  "seq_kind \<Rightarrow> ('s \<Rightarrow> ('v \<times> 's) result) \<Rightarrow> 64 word \<Rightarrow> 's \<Rightarrow> ('v list \<times> 's) result" where
  "parse_elems_each kind P sz s =
     rbind (reserve_if_applicable kind (unat sz)) (\<lambda>_. push_back_loop P (unat sz) [] s)"

text \<open>
  The bulk read. \<open>elem\<close> reads one element from \<open>sz\<close> bytes of memory; elements the stream did
  not deliver keep the zeros \<^verbatim>\<open>resize\<close> left.
\<close>

fun chunks :: "nat \<Rightarrow> nat \<Rightarrow> 'a list \<Rightarrow> 'a list list" where
  "chunks sz 0 bs = []"
| "chunks sz (Suc n) bs = take sz bs # chunks sz n (drop sz bs)"

definition parse_elems_read ::
  "config \<Rightarrow> 's instream \<Rightarrow> seq_kind \<Rightarrow> nat \<Rightarrow> (byte list \<Rightarrow> 'v) \<Rightarrow> 64 word \<Rightarrow> 's \<Rightarrow>
   ('v list \<times> 's) result" where
  "parse_elems_read cfg ops kind sz elem n s =
     rbind (resize_if_applicable kind (unat n)) (\<lambda>_.
     rbind (to_signed cfg (word_of_nat sz * n)) (\<lambda>count.
     rbind (s_read ops count s) (\<lambda>(bs, s').
       if s_eof ops s' then Inl EarlyEof
       else let m = take (sz * unat n) (bs @ replicate (sz * unat n - length bs) 0)
            in Inr (map elem (chunks sz (unat n) m), s'))))"

definition parse_sequential ::
  "config \<Rightarrow> 's instream \<Rightarrow> seq_kind \<Rightarrow> bool \<Rightarrow> nat \<Rightarrow> (byte list \<Rightarrow> 'v) \<Rightarrow>
   ('s \<Rightarrow> ('v \<times> 's) result) \<Rightarrow> 's \<Rightarrow> ('v list \<times> 's) result" where
  "parse_sequential cfg ops kind can_read sz elem P s =
     rbind (read_var_uint ops s) (\<lambda>(n :: 64 word, s').
       if can_read then parse_elems_read cfg ops kind sz elem n s'
       else parse_elems_each kind P n s')"

text \<open>
  Containers that keep their own order use \<^verbatim>\<open>maybe_insert\<close>: \<open>OrdUnique\<close> is \<^verbatim>\<open>set\<close>/\<^verbatim>\<open>map\<close> and \<open>OrdMulti\<close>
  \<^verbatim>\<open>multiset\<close>/\<^verbatim>\<open>multimap\<close> with their comparison, an in-order list; \<open>ArrayN init\<close> is \<^verbatim>\<open>std::array\<close>,
  whose \<^verbatim>\<open>c[i] = x\<close> is not checked, with the elements a default-initialized one has: what their
  constructors make, or indeterminate values. \<open>Hashed m ins\<close> is an unordered container of the
  library: \<open>ins\<close> gives its elements in the order of iteration after an insertion, and it
  reserves room for \<open>m\<close> elements at most.
\<close>

datatype 'v ord_kind =
  OrdUnique "'v \<Rightarrow> 'v \<Rightarrow> bool" | OrdMulti "'v \<Rightarrow> 'v \<Rightarrow> bool" | ArrayN "'v list" | Hashed nat "'v \<Rightarrow> 'v list \<Rightarrow> 'v list"

fun insert_unique :: "('v \<Rightarrow> 'v \<Rightarrow> bool) \<Rightarrow> 'v \<Rightarrow> 'v list \<Rightarrow> 'v list" where
  "insert_unique cmp x [] = [x]"
| "insert_unique cmp x (y # ys) =
     (if cmp y x then y # insert_unique cmp x ys
      else if cmp x y then x # y # ys else y # ys)"

fun insert_multi :: "('v \<Rightarrow> 'v \<Rightarrow> bool) \<Rightarrow> 'v \<Rightarrow> 'v list \<Rightarrow> 'v list" where
  "insert_multi cmp x [] = [x]"
| "insert_multi cmp x (y # ys) = (if cmp x y then x # y # ys else y # insert_multi cmp x ys)"

fun maybe_insert :: "'v ord_kind \<Rightarrow> nat \<Rightarrow> 'v list \<Rightarrow> 'v \<Rightarrow> 'v list result" where
  "maybe_insert (OrdUnique cmp) i c x = Inr (insert_unique cmp x c)"
| "maybe_insert (OrdMulti cmp) i c x = Inr (insert_multi cmp x c)"
| "maybe_insert (ArrayN init) i c x =
     (if i < length c then Inr (c[i := x]) else Inl (Undefined ArrayOverflow))"
| "maybe_insert (Hashed m ins) i c x = Inr (ins x c)"

fun insert_loop ::
  "'v ord_kind \<Rightarrow> ('s \<Rightarrow> ('v \<times> 's) result) \<Rightarrow> nat \<Rightarrow> nat \<Rightarrow> 'v list \<Rightarrow> 's \<Rightarrow> ('v list \<times> 's) result" where
  "insert_loop kind P i 0 coll s = Inr (coll, s)"
| "insert_loop kind P i (Suc n) coll s =
     rbind (P s) (\<lambda>(v, s').
       rbind (maybe_insert kind i coll v) (\<lambda>coll'. insert_loop kind P (Suc i) n coll' s'))"

text \<open>A default-initialized container, and \<^verbatim>\<open>reserve_if_applicable\<close>: of these only the unordered ones have \<^verbatim>\<open>reserve\<close>.\<close>

fun default_container :: "'v ord_kind \<Rightarrow> 'v list" where
  "default_container (ArrayN init) = init"
| "default_container _ = []"

fun reserve_unordered :: "'v ord_kind \<Rightarrow> nat \<Rightarrow> unit result" where
  "reserve_unordered (Hashed m ins) sz = (if sz > m then Inl LengthError else Inr ())"
| "reserve_unordered _ sz = Inr ()"

definition parse_ignore_order ::
  "'s instream \<Rightarrow> 'v ord_kind \<Rightarrow> ('s \<Rightarrow> ('v \<times> 's) result) \<Rightarrow> 's \<Rightarrow> ('v list \<times> 's) result" where
  "parse_ignore_order ops kind P s =
     rbind (read_var_uint ops s) (\<lambda>(n :: 64 word, s').
     rbind (reserve_unordered kind (unat n)) (\<lambda>_.
       insert_loop kind P 0 (unat n) (default_container kind) s'))"

section \<open>std::tuple and std::pair\<close>

text \<open>The template recursions over the index, with the member types' writers and readers.\<close>

fun write_tuple :: "('v \<Rightarrow> 'w \<Rightarrow> 'w result) list \<Rightarrow> 'v list \<Rightarrow> 'w \<Rightarrow> 'w result" where
  "write_tuple (ser # sers) (v # vs) w = rbind (ser v w) (write_tuple sers vs)"
| "write_tuple _ _ w = Inr w"

fun read_tuple_continue :: "('s \<Rightarrow> ('v \<times> 's) result) list \<Rightarrow> 'v list \<Rightarrow> 's \<Rightarrow> ('v list \<times> 's) result" where
  "read_tuple_continue [] values s = Inr (values, s)"
| "read_tuple_continue (P # Ps) values s =
     rbind (P s) (\<lambda>(v, s'). read_tuple_continue Ps (values @ [v]) s')"

section \<open>Structs as tuples\<close>

fun serialize_tuple :: "('v \<Rightarrow> 'w \<Rightarrow> 'w result) list \<Rightarrow> 'v list \<Rightarrow> 'w \<Rightarrow> 'w result" where
  "serialize_tuple (ser # sers) (v # vs) w = rbind (ser v w) (serialize_tuple sers vs)"
| "serialize_tuple _ _ w = Inr w"

text \<open>The object starts value-initialized; each tagged member is assigned in turn.\<close>

fun parse_tuple :: "('s \<Rightarrow> ('v \<times> 's) result) list \<Rightarrow> nat \<Rightarrow> 'v list \<Rightarrow> 's \<Rightarrow> ('v list \<times> 's) result" where
  "parse_tuple [] i obj s = Inr (obj, s)"
| "parse_tuple (P # Ps) i obj s = rbind (P s) (\<lambda>(v, s'). parse_tuple Ps (Suc i) (obj[i := v]) s')"

text \<open>
  The sizes of tuples: the sum over the members where every member has one (\<^verbatim>\<open>None\<close> is a
  substitution failure).
\<close>

fun all_some :: "'a option list \<Rightarrow> 'a list option" where
  "all_some [] = Some []"
| "all_some (None # xs) = None"
| "all_some (Some x # xs) = map_option (Cons x) (all_some xs)"

definition tuple_fixed_size :: "64 word option list \<Rightarrow> 64 word option" where
  "tuple_fixed_size fs = map_option sumall (all_some fs)"

definition tuple_aot_size :: "('v \<Rightarrow> 64 word) list \<Rightarrow> 'v list \<Rightarrow> 64 word" where
  "tuple_aot_size aots vs = sumall (map (\<lambda>(aot, v). aot v) (zip aots vs))"

end
