(* ===== verification/SequenceFacts.thy ===== *)
theory SequenceFacts
  imports Sequences
begin

text \<open>
  What the sequence templates do, given what the element's writer and reader do: the bytes
  they emit, the values they read back, how they end on a truncated input, and their sizes.
\<close>

section \<open>Writers\<close>

lemma emits_fun_cong: "emits ok out cap W bs \<Longrightarrow> (\<And>w. W' w = W w) \<Longrightarrow> emits ok out cap W' bs"
  by (simp add: emits_def)

lemma emits_write_elems_each:
  assumes "\<And>v. v \<in> set coll \<Longrightarrow> emits ok out cap (ser v) (enc v)"
  shows "emits ok out cap (write_elems_each ser coll) (concat (map enc coll))"
  using assms
proof (induction coll)
  case (Cons v coll)
  have "emits ok out cap (\<lambda>w. rbind (ser v w) (write_elems_each ser coll)) (enc v @ concat (map enc coll))"
    by (intro emits_append Cons) (use Cons.prems in auto)
  then show ?case by (simp add: write_elems_each.simps(2) [abs_def])
qed (simp add: emits_def)

lemma emits_write_tuple:
  assumes "list_all2 (\<lambda>ser (v, b). emits ok out cap (ser v) b) sers (zip vs bss)"
    and "length bss = length vs"
  shows "emits ok out cap (write_tuple sers vs) (concat bss)"
  using assms
proof (induction sers arbitrary: vs bss)
  case Nil
  then have "vs = []" "bss = []" by auto
  then show ?case by (simp add: emits_def)
next
  case (Cons ser sers)
  then obtain v vs' b bss' where vs: "vs = v # vs'" "bss = b # bss'"
    by (cases vs; cases bss) auto
  have "emits ok out cap (\<lambda>w. rbind (ser v w) (write_tuple sers vs')) (b @ concat bss')"
    by (intro emits_append Cons.IH) (use Cons.prems vs in auto)
  with vs show ?case by (simp add: write_tuple.simps(1) [abs_def])
qed

lemma serialize_tuple_write_tuple: "serialize_tuple sers vs = write_tuple sers vs"
proof (induction sers arbitrary: vs)
  case (Cons ser sers)
  show ?case
  proof (rule ext)
    fix w
    show "serialize_tuple (ser # sers) vs w = write_tuple (ser # sers) vs w"
      by (cases vs) (simp_all only: serialize_tuple.simps write_tuple.simps Cons)
  qed
qed (simp add: fun_eq_iff)

context output_stream begin

lemma emits_write_elems_copy:
  assumes "\<And>v. v \<in> set coll \<Longrightarrow> length (mem v) = sz" and "sz * length coll < 2 ^ 63"
  shows "emits ok out cap (write_elems_copy cfg ops sz mem coll) (concat (map mem coll))"
proof -
  have l: "length (concat (map mem coll)) = sz * length coll"
    using assms(1) by (induction coll) (auto simp: algebra_simps)
  have k: "word_of_nat sz * word_of_nat (length coll) = (word_of_nat (sz * length coll) :: 64 word)"
    by simp
  have u: "unat (word_of_nat (sz * length coll) :: 64 word) = sz * length coll"
    using assms(2) by (rule sint_of_nat_small)
  then have "to_signed cfg (word_of_nat (sz * length coll) :: 64 word) = Inr (word_of_nat (sz * length coll))"
    by (intro to_signed_small) (simp only: u, use assms(2) in simp)
  moreover have "emits ok out cap (o_write ops (concat (map mem coll)) (word_of_nat (sz * length coll)))
      (concat (map mem coll))"
    using assms(2) l u by (intro emits_write) simp_all
  ultimately show ?thesis
    by (simp only: write_elems_copy_def [abs_def] k rbind_simps)
qed

lemma emits_serialize_iterable:
  assumes "\<And>v. v \<in> set coll \<Longrightarrow> emits ok out cap (ser v) (enc v)"
    and "length coll < 2 ^ 64"
    and "can_copy \<Longrightarrow> sz * length coll < 2 ^ 63 \<and> (\<forall>v \<in> set coll. enc v = mem v \<and> length (mem v) = sz)"
  shows "emits ok out cap (serialize_iterable cfg ops can_copy sz mem ser coll)
    (vuint_bytes (length coll) @ concat (map enc coll))"
proof -
  have "unat (word_of_nat (length coll) :: 64 word) = length coll"
    unfolding unat_of_nat using assms(2) by (intro mod_less) simp
  then have header: "emits ok out cap (write_var_uint ops (word_of_nat (length coll) :: 64 word))
      (vuint_bytes (length coll))"
    using emits_write_var_uint [of "word_of_nat (length coll) :: 64 word"] by simp
  have "emits ok out cap (\<lambda>w'. if can_copy then write_elems_copy cfg ops sz mem coll w'
      else write_elems_each ser coll w') (concat (map enc coll))"
  proof (cases can_copy)
    case True
    then have eq: "map enc coll = map mem coll" and mem: "\<And>v. v \<in> set coll \<Longrightarrow> length (mem v) = sz"
      and "sz * length coll < 2 ^ 63" using assms(3) by auto
    then show ?thesis using True emits_write_elems_copy [of coll mem sz cfg] by (simp only: eq) simp
  next
    case False
    then show ?thesis using emits_write_elems_each [of coll, OF assms(1)] by simp
  qed
  from emits_append [OF header this] show ?thesis
    by (simp add: serialize_iterable_def [abs_def])
qed

end

section \<open>Readers\<close>

lemma parses_push_back_loop:
  assumes "\<And>v. v \<in> set vs \<Longrightarrow> parses ok rem P v (enc v)"
  shows "parses ok rem (push_back_loop P (length vs) coll) (coll @ vs) (concat (map enc vs))"
  using assms
proof (induction vs arbitrary: coll)
  case Nil
  show ?case by (simp add: parses_def)
next
  case (Cons v vs)
  have "parses ok rem (\<lambda>s. rbind (P s) (\<lambda>(x, s'). push_back_loop P (length vs) (coll @ [x]) s'))
      ((coll @ [v]) @ vs) (enc v @ concat (map enc vs))"
    by (rule parses_bind [where v = v])
      (use Cons.IH [of "coll @ [v]"] Cons.prems in auto)
  then show ?case by (simp add: push_back_loop.simps(2) [abs_def])
qed

lemma starves_push_back_loop:
  assumes "\<And>v. v \<in> set vs \<Longrightarrow> parses ok rem P v (enc v)"
    and "\<And>v. v \<in> set vs \<Longrightarrow> starves ok rem past E P (enc v)" and "vs \<noteq> []"
  shows "starves ok rem past E (push_back_loop P (length vs) coll) (concat (map enc vs))"
  using assms
proof (induction vs arbitrary: coll)
  case (Cons v vs)
  show ?case
  proof (cases "vs = []")
    case True
    have "starves ok rem past E P (enc v)" using Cons.prems by simp
    then show ?thesis using True by (fastforce simp: starves_def)
  next
    case False
    have "starves ok rem past E (\<lambda>s. rbind (P s) (\<lambda>(x, s'). push_back_loop P (length vs) (coll @ [x]) s'))
        (enc v @ concat (map enc vs))"
      by (rule starves_bind [where v = v])
        (use Cons.IH [of "coll @ [v]"] Cons.prems False in auto)
    then show ?thesis by (simp add: push_back_loop.simps(2) [abs_def])
  qed
qed simp

lemma chunks_concat:
  "(\<And>x. x \<in> set xss \<Longrightarrow> length x = sz) \<Longrightarrow> chunks sz (length xss) (concat xss @ ys) = xss"
  by (induction xss) simp_all

lemma parses_read_tuple:
  assumes "list_all2 (\<lambda>P (v, b). parses ok rem P v b) Ps (zip vs bss)" and "length bss = length vs"
  shows "parses ok rem (read_tuple_continue Ps acc) (acc @ vs) (concat bss)"
  using assms
proof (induction Ps arbitrary: vs bss acc)
  case Nil
  then have "vs = []" "bss = []" by auto
  then show ?case by (simp add: parses_def)
next
  case (Cons P Ps)
  then obtain v vs' b bss' where vs: "vs = v # vs'" "bss = b # bss'"
    by (cases vs; cases bss) auto
  have "parses ok rem (\<lambda>s. rbind (P s) (\<lambda>(x, s'). read_tuple_continue Ps (acc @ [x]) s'))
      ((acc @ [v]) @ vs') (b @ concat bss')"
    by (rule parses_bind [where v = v])
      (use Cons.IH [of vs' bss' "acc @ [v]"] Cons.prems vs in auto)
  with vs show ?case by (simp add: read_tuple_continue.simps(2) [abs_def])
qed

lemma starves_read_tuple:
  assumes "list_all2 (\<lambda>P (v, b). parses ok rem P v b \<and> starves ok rem past E P b) Ps (zip vs bss)"
    and "length bss = length vs" and "vs \<noteq> []"
  shows "starves ok rem past E (read_tuple_continue Ps acc) (concat bss)"
  using assms
proof (induction Ps arbitrary: vs bss acc)
  case (Cons P Ps)
  then obtain v vs' b bss' where vs: "vs = v # vs'" "bss = b # bss'"
    by (cases vs; cases bss) auto
  have Pv: "parses ok rem P v b" "starves ok rem past E P b" using Cons.prems vs by auto
  show ?case
  proof (cases "vs' = []")
    case True
    then have "Ps = []" "bss' = []" using Cons.prems vs by auto
    with Pv(2) vs show ?thesis by (fastforce simp: starves_def)
  next
    case False
    have "starves ok rem past E (\<lambda>s. rbind (P s) (\<lambda>(x, s'). read_tuple_continue Ps (acc @ [x]) s'))
        (b @ concat bss')"
      by (rule starves_bind [where v = v])
        (use Pv Cons.IH [of vs' bss' "acc @ [v]"] Cons.prems vs False in auto)
    with vs show ?thesis by (simp add: read_tuple_continue.simps(2) [abs_def])
  qed
qed simp

text \<open>\<^verbatim>\<open>parse_tuple\<close> fills the members in order, so it ends with what the tuple reader collects.\<close>

lemma parse_tuple_read_tuple:
  assumes "length obj = length Ps"
  shows "parse_tuple Ps (length acc) (acc @ obj) s = read_tuple_continue Ps acc s"
  using assms
proof (induction Ps arbitrary: acc obj s)
  case (Cons P Ps)
  then obtain x obj' where o: "obj = x # obj'" by (cases obj) auto
  have eq: "parse_tuple Ps (Suc (length acc)) ((acc @ obj)[length acc := v]) s' =
      read_tuple_continue Ps (acc @ [v]) s'" for v s'
    using Cons.IH [of obj' "acc @ [v]" s'] Cons.prems o by simp
  show ?case unfolding parse_tuple.simps read_tuple_continue.simps eq ..
qed simp

lemma parse_tuple_eq:
  "length obj = length Ps \<Longrightarrow> parse_tuple Ps 0 obj = read_tuple_continue Ps []"
  using parse_tuple_read_tuple [of obj Ps "[]"] by auto

section \<open>Insertion in order\<close>

text \<open>
  What the iteration order of an ordered container guarantees; inserting the elements in
  that order appends each. The elements of an unordered container are in an order that
  inserting them anew reproduces.
\<close>

fun ord_sorted :: "'v ord_kind \<Rightarrow> 'v list \<Rightarrow> bool" where
  "ord_sorted (OrdUnique cmp) vs = sorted_wrt (\<lambda>x y. cmp x y \<and> \<not> cmp y x) vs"
| "ord_sorted (OrdMulti cmp) vs = sorted_wrt (\<lambda>x y. \<not> cmp y x) vs"
| "ord_sorted (ArrayN init) vs = (length vs = length init)"
| "ord_sorted (Hashed m ins) vs = (length vs \<le> m \<and> fold ins vs [] = vs)"

lemma insert_unique_append: "\<forall>y \<in> set ys. cmp y x \<Longrightarrow> insert_unique cmp x ys = ys @ [x]"
  by (induction ys) simp_all

lemma insert_multi_append: "\<forall>y \<in> set ys. \<not> cmp x y \<Longrightarrow> insert_multi cmp x ys = ys @ [x]"
  by (induction ys) simp_all

definition partial_container :: "'v ord_kind \<Rightarrow> 'v list \<Rightarrow> 'v list" where
  "partial_container kind vs = (case kind of ArrayN init \<Rightarrow> vs @ drop (length vs) init | Hashed m ins \<Rightarrow> fold ins vs [] | _ \<Rightarrow> vs)"

lemma maybe_insert_next:
  assumes "ord_sorted kind (us @ v # vs)"
  shows "maybe_insert kind (length us) (partial_container kind us) v = Inr (partial_container kind (us @ [v]))"
proof (cases kind)
  case (ArrayN init)
  then have "drop (length us) init = init ! length us # drop (Suc (length us)) init"
    using assms by (simp add: Cons_nth_drop_Suc)
  with ArrayN assms show ?thesis by (simp add: partial_container_def)
qed (use assms in \<open>auto simp: partial_container_def sorted_wrt_append insert_unique_append insert_multi_append\<close>)

lemma partial_container_start: "partial_container kind [] = default_container kind"
  by (cases kind) (simp_all add: partial_container_def)

lemma partial_container_full: "ord_sorted kind vs \<Longrightarrow> partial_container kind vs = vs"
  by (cases kind) (simp_all add: partial_container_def)

lemma ord_sorted_reserve: "ord_sorted kind vs \<Longrightarrow> reserve_unordered kind (length vs) = Inr ()"
  by (cases kind) simp_all

lemma parses_insert_loop:
  assumes "ord_sorted kind (us @ vs)" and "\<And>v. v \<in> set vs \<Longrightarrow> parses ok rem P v (enc v)"
  shows "parses ok rem (insert_loop kind P (length us) (length vs) (partial_container kind us))
    (us @ vs) (concat (map enc vs))"
  using assms
proof (induction vs arbitrary: us)
  case Nil
  then show ?case by (simp add: parses_def partial_container_full)
next
  case (Cons v vs)
  have "parses ok rem (\<lambda>s. rbind (P s) (\<lambda>(x, s').
      rbind (maybe_insert kind (length us) (partial_container kind us) x)
        (\<lambda>coll'. insert_loop kind P (Suc (length us)) (length vs) coll' s')))
      (us @ v # vs) (enc v @ concat (map enc vs))"
    by (rule parses_bind [where v = v])
      (use Cons.IH [of "us @ [v]"] Cons.prems maybe_insert_next [OF Cons.prems(1)] in auto)
  then show ?case by (simp add: insert_loop.simps(2) [abs_def])
qed

lemma starves_insert_loop:
  assumes "ord_sorted kind (us @ vs)" and "\<And>v. v \<in> set vs \<Longrightarrow> parses ok rem P v (enc v)"
    and "\<And>v. v \<in> set vs \<Longrightarrow> starves ok rem past E P (enc v)" and "vs \<noteq> []"
  shows "starves ok rem past E (insert_loop kind P (length us) (length vs) (partial_container kind us))
    (concat (map enc vs))"
  using assms
proof (induction vs arbitrary: us)
  case (Cons v vs)
  have v: "parses ok rem P v (enc v)" "starves ok rem past E P (enc v)" using Cons.prems by auto
  note ins = maybe_insert_next [OF Cons.prems(1)]
  show ?case
  proof (cases "vs = []")
    case True
    with v(2) show ?thesis by (fastforce simp: starves_def)
  next
    case False
    have "starves ok rem past E (\<lambda>s. rbind (P s) (\<lambda>(x, s').
        rbind (maybe_insert kind (length us) (partial_container kind us) x)
          (\<lambda>coll'. insert_loop kind P (Suc (length us)) (length vs) coll' s')))
        (enc v @ concat (map enc vs))"
      by (rule starves_bind [OF v]) (use Cons.IH [of "us @ [v]"] Cons.prems ins False in auto)
    then show ?thesis by (simp add: insert_loop.simps(2) [abs_def])
  qed
qed simp

section \<open>Whole containers\<close>

fun fits :: "seq_kind \<Rightarrow> nat \<Rightarrow> bool" where
  "fits (SeqVec m) n = (n \<le> m)"
| "fits SeqList n = True"

lemma fits_reserve: "fits kind n \<Longrightarrow> reserve_if_applicable kind n = Inr ()"
  by (cases kind) simp_all

lemma fits_resize: "fits kind n \<Longrightarrow> resize_if_applicable kind n = Inr ()"
  by (cases kind) simp_all

lemma unat_of_length: "n < 2 ^ 64 \<Longrightarrow> unat (word_of_nat n :: 64 word) = n"
  unfolding unat_of_nat by (intro mod_less) simp

lemma concat_length_const:
  "(\<And>v. v \<in> set vs \<Longrightarrow> length (enc v) = sz) \<Longrightarrow> length (concat (map enc vs)) = sz * length vs"
  by (induction vs) (auto simp: algebra_simps)

text \<open>The bulk read's count, as the code computes it in \<^verbatim>\<open>size_t\<close>.\<close>

lemma bulk_count:
  assumes "sz * n < 2 ^ 63"
  shows "to_signed cfg (word_of_nat sz * word_of_nat n :: 64 word) = Inr (word_of_nat (sz * n))"
    and "sint (word_of_nat (sz * n) :: 64 word) = int (sz * n)"
    and "unat (word_of_nat (sz * n) :: 64 word) = sz * n"
proof -
  show s: "sint (word_of_nat (sz * n) :: 64 word) = int (sz * n)"
    and u: "unat (word_of_nat (sz * n) :: 64 word) = sz * n"
    using assms by (rule sint_of_nat_small)+
  have "word_of_nat sz * word_of_nat n = (word_of_nat (sz * n) :: 64 word)" by simp
  then show "to_signed cfg (word_of_nat sz * word_of_nat n :: 64 word) = Inr (word_of_nat (sz * n))"
    using assms u to_signed_small [of "word_of_nat (sz * n) :: 64 word" cfg] by simp
qed

context input_stream begin

lemma parses_elems_read:
  assumes "fits kind (length vs)" and "sz * length vs < 2 ^ 63" and "length vs < 2 ^ 64"
    and e: "\<And>v. v \<in> set vs \<Longrightarrow> elem (enc v) = v \<and> length (enc v) = sz"
  shows "parses ok rem (parse_elems_read cfg ops kind sz elem (word_of_nat (length vs))) vs (concat (map enc vs))"
  unfolding parses_def
proof (intro allI impI, elim conjE)
  fix s rest
  assume s: "ok s" "rem s = concat (map enc vs) @ rest"
  have l: "length (concat (map enc vs)) = sz * length vs" using e by (intro concat_length_const) auto
  from read_exact [OF s] l assms(2) obtain s' where
    s': "s_read ops (word_of_nat (sz * length vs)) s = Inr (concat (map enc vs), s')"
      "\<not> s_eof ops s'" "ok s'" "rem s' = rest" by auto
  have "chunks sz (length vs) (concat (map enc vs)) = map enc vs"
    using chunks_concat [of "map enc vs" sz "[]"] e by auto
  moreover have "map (\<lambda>v. elem (enc v)) vs = vs" using e by (simp add: map_idI)
  ultimately show "\<exists>s'. parse_elems_read cfg ops kind sz elem (word_of_nat (length vs)) s = Inr (vs, s') \<and>
      ok s' \<and> rem s' = rest"
    using s' l assms(1,3)
    by (simp add: parse_elems_read_def fits_resize unat_of_length bulk_count(1) [OF assms(2)] comp_def
        del: of_nat_mult)
qed

lemma parses_elems_each:
  assumes "fits kind (length vs)" and "length vs < 2 ^ 64"
    and "\<And>v. v \<in> set vs \<Longrightarrow> parses ok rem P v (enc v)"
  shows "parses ok rem (parse_elems_each kind P (word_of_nat (length vs))) vs (concat (map enc vs))"
  using parses_push_back_loop [of vs ok rem P enc "[]"] assms
  by (simp add: parse_elems_each_def [abs_def] fits_reserve unat_of_length)

lemma parses_sequential:
  assumes "fits kind (length vs)" and "length vs < 2 ^ 64"
    and "\<And>v. v \<in> set vs \<Longrightarrow> parses ok rem P v (enc v)"
    and "can_read \<Longrightarrow> sz * length vs < 2 ^ 63 \<and> (\<forall>v \<in> set vs. elem (enc v) = v \<and> length (enc v) = sz)"
  shows "parses ok rem (parse_sequential cfg ops kind can_read sz elem P) vs
    (vuint_bytes (length vs) @ concat (map enc vs))"
  unfolding parse_sequential_def
  by (rule parses_bind [OF parses_read_var_uint [of "length vs"]])
    (cases can_read; use assms parses_elems_read [of kind vs sz elem enc cfg]
      parses_elems_each [of kind vs P enc] in simp)+

lemma parses_ignore_order:
  assumes "ord_sorted kind vs" and "length vs < 2 ^ 64"
    and "\<And>v. v \<in> set vs \<Longrightarrow> parses ok rem P v (enc v)"
  shows "parses ok rem (parse_ignore_order ops kind P) vs (vuint_bytes (length vs) @ concat (map enc vs))"
  unfolding parse_ignore_order_def
  by (rule parses_bind [OF parses_read_var_uint [of "length vs"]])
    (use assms parses_insert_loop [of kind "[]" vs ok rem P enc] ord_sorted_reserve [OF assms(1)] in
      \<open>auto simp: unat_of_length partial_container_start\<close>)

end

context ending_stream begin

lemma starves_elems_read:
  assumes "fits kind (length vs)" and "sz * length vs < 2 ^ 63" and "length vs < 2 ^ 64"
    and "length (concat (map enc vs)) = sz * length vs"
  shows "starves ok rem past eof_errors (parse_elems_read cfg ops kind sz elem (word_of_nat (length vs)))
    (concat (map enc vs))"
  unfolding starves_def
proof (intro allI impI)
  fix s k
  let ?n = "word_of_nat (sz * length vs) :: 64 word"
  note n = bulk_count(2,3) [OF assms(2)]
  assume "ok s \<and> rem s = take k (concat (map enc vs)) \<and> k < length (concat (map enc vs)) \<or> past s"
  then have "ok s \<and> length (rem s) < unat ?n \<or> past s" using assms(4) n by auto
  from read_end [OF this] n have
    "(\<exists>e \<in> eof_errors. s_read ops ?n s = Inl e) \<or>
     (\<exists>bs s'. s_read ops ?n s = Inr (bs, s') \<and> s_eof ops s' \<and> past s')" by simp
  then show "\<exists>e\<in>eof_errors. parse_elems_read cfg ops kind sz elem (word_of_nat (length vs)) s = Inl e"
    using early_eof assms(1,3)
    by (auto simp: parse_elems_read_def fits_resize unat_of_length bulk_count(1) [OF assms(2)]
        simp del: of_nat_mult)
qed

lemma starves_append_empty:
  assumes "parses ok rem P v a" and "starves ok rem past E P a"
  shows "starves ok rem past E (\<lambda>s. rbind (P s) (\<lambda>(x, s'). Q x s')) a"
  unfolding starves_def
proof (intro allI impI)
  fix s k
  assume "ok s \<and> rem s = take k a \<and> k < length a \<or> past s"
  then obtain e where "e \<in> E" "P s = Inl e" using assms(2) unfolding starves_def by blast
  then show "\<exists>e\<in>E. rbind (P s) (\<lambda>(x, s'). Q x s') = Inl e" by auto
qed

lemma starves_after_size:
  assumes "n < 2 ^ 64" and "body \<noteq> [] \<Longrightarrow> starves ok rem past eof_errors (Q (word_of_nat n)) body"
  shows "starves ok rem past eof_errors (\<lambda>s. rbind (read_var_uint ops s) (\<lambda>(n :: 64 word, s'). Q n s'))
    (vuint_bytes n @ body)"
proof (cases "body = []")
  case True
  then show ?thesis
    using starves_append_empty [OF parses_read_var_uint starves_read_var_uint, of n Q] assms(1) by simp
next
  case False
  then show ?thesis
    by (intro starves_bind [OF parses_read_var_uint starves_read_var_uint]) (use assms in simp_all)
qed

lemma starves_sequential:
  assumes "fits kind (length vs)" and "length vs < 2 ^ 64"
    and "\<And>v. v \<in> set vs \<Longrightarrow> parses ok rem P v (enc v)"
    and "\<And>v. v \<in> set vs \<Longrightarrow> starves ok rem past eof_errors P (enc v)"
    and "can_read \<Longrightarrow> sz * length vs < 2 ^ 63 \<and> (\<forall>v \<in> set vs. length (enc v) = sz)"
  shows "starves ok rem past eof_errors (parse_sequential cfg ops kind can_read sz elem P)
    (vuint_bytes (length vs) @ concat (map enc vs))"
  unfolding parse_sequential_def
proof (rule starves_after_size [OF assms(2)])
  assume "concat (map enc vs) \<noteq> []"
  then have ne: "vs \<noteq> []" by auto
  show "starves ok rem past eof_errors (\<lambda>s'. if can_read
      then parse_elems_read cfg ops kind sz elem (word_of_nat (length vs)) s'
      else parse_elems_each kind P (word_of_nat (length vs)) s') (concat (map enc vs))"
  proof (cases can_read)
    case True
    then have "length (concat (map enc vs)) = sz * length vs"
      using assms(5) by (intro concat_length_const) auto
    from starves_elems_read [OF assms(1) _ assms(2) this, of cfg elem] show ?thesis
      using True assms(5) by simp
  next
    case False
    then show ?thesis
      using starves_push_back_loop [of vs ok rem P enc, OF assms(3,4) ne] assms(1,2)
      by (simp add: parse_elems_each_def [abs_def] fits_reserve unat_of_length)
  qed
qed

lemma starves_ignore_order:
  assumes "ord_sorted kind vs" and "length vs < 2 ^ 64"
    and "\<And>v. v \<in> set vs \<Longrightarrow> parses ok rem P v (enc v)"
    and "\<And>v. v \<in> set vs \<Longrightarrow> starves ok rem past eof_errors P (enc v)"
  shows "starves ok rem past eof_errors (parse_ignore_order ops kind P)
    (vuint_bytes (length vs) @ concat (map enc vs))"
  unfolding parse_ignore_order_def
proof (rule starves_after_size [OF assms(2)])
  assume "concat (map enc vs) \<noteq> []"
  then have "vs \<noteq> []" by auto
  then show "starves ok rem past eof_errors (\<lambda>s'. rbind (reserve_unordered kind (unat (word_of_nat (length vs) :: 64 word)))
      (\<lambda>_. insert_loop kind P 0 (unat (word_of_nat (length vs) :: 64 word)) (default_container kind) s')) (concat (map enc vs))"
    using starves_insert_loop [of kind "[]" vs ok rem P enc past eof_errors] ord_sorted_reserve [OF assms(1)] assms
    by (simp add: unat_of_length partial_container_start)
qed

end

section \<open>Sizes\<close>

lemma aot_size_each_elem_eq:
  assumes "\<And>v. v \<in> set vs \<Longrightarrow> aot v = word_of_nat (length (enc v))" and "length vs < 2 ^ 64"
  shows "aot_size_each_elem aot vs = word_of_nat (length (vuint_bytes (length vs) @ concat (map enc vs)))"
proof -
  have "foldl (\<lambda>s x. s + aot x) z vs = z + word_of_nat (length (concat (map enc vs)))" for z
    using assms(1) by (induction vs arbitrary: z) (simp_all add: add.assoc)
  then show ?thesis
    by (simp add: aot_size_each_elem_def aot_size_vuint_eq unat_of_length [OF assms(2)])
qed

lemma aot_size_fixed_elems_eq:
  assumes "\<And>v. v \<in> set vs \<Longrightarrow> fs = word_of_nat (length (enc v))" and "length vs < 2 ^ 64"
  shows "aot_size_fixed_elems fs vs = word_of_nat (length (vuint_bytes (length vs) @ concat (map enc vs)))"
proof -
  have "word_of_nat (length vs) * fs = word_of_nat (length (concat (map enc vs)))"
    using assms(1) by (induction vs) (simp_all add: algebra_simps)
  then show ?thesis
    by (simp add: aot_size_fixed_elems_def aot_size_vuint_eq unat_of_length [OF assms(2)])
qed

lemma all_some_iff: "all_some xs = Some ys \<longleftrightarrow> xs = map Some ys"
  by (induction xs arbitrary: ys rule: all_some.induct) (auto simp: Cons_eq_map_conv)

lemma tuple_fixed_size_Some:
  assumes "tuple_fixed_size fs = Some n" and "length bss = length fs"
    and "\<And>i f. i < length fs \<Longrightarrow> fs ! i = Some f \<Longrightarrow> f = word_of_nat (length (bss ! i))"
  shows "n = word_of_nat (length (concat bss))"
proof -
  from assms(1) obtain ys where ys: "fs = map Some ys" "n = sum_list ys"
    by (auto simp: tuple_fixed_size_def all_some_iff sumall_sum_list)
  then have "ys = map (\<lambda>bs. word_of_nat (length bs)) bss"
    using assms(2,3) by (intro nth_equalityI) auto
  then show ?thesis by (simp add: ys length_concat sum_list_of_nat comp_def)
qed

lemma tuple_aot_size_eq:
  assumes "length aots = length vs" and "length bss = length vs"
    and "\<And>i. i < length vs \<Longrightarrow> (aots ! i) (vs ! i) = word_of_nat (length (bss ! i))"
  shows "tuple_aot_size aots vs = word_of_nat (length (concat bss))"
proof -
  have "map (\<lambda>(aot, v). aot v) (zip aots vs) = map (\<lambda>bs. word_of_nat (length bs)) bss"
    using assms by (intro nth_equalityI) auto
  then show ?thesis by (simp add: tuple_aot_size_def sumall_sum_list length_concat sum_list_of_nat comp_def)
qed

end
