(* ===== verification/TaggedStruct.thy ===== *)
theory TaggedStruct
  imports SequenceFacts
begin

text \<open>
  Structs as tagged sequences (\<^verbatim>\<open>impl/pbss-struct.hh\<close>). The list of
  \<^verbatim>\<open>serializable_member_tag<id, Struct, Member, member>\<close> is a list of member descriptors; an
  object is the list of its members' values, and \<^verbatim>\<open>obj.*member\<close> the element at the
  descriptor's position.
\<close>

section \<open>Member descriptors\<close>

record ('v, 'w) out_member =
  om_id :: byte
  om_fixed :: "64 word option"
  om_aot :: "'v \<Rightarrow> 64 word"
  om_ser :: "'v \<Rightarrow> 'w \<Rightarrow> 'w result"

record ('v, 's) in_member =
  im_id :: byte
  im_fixed :: "64 word option"
  im_parse :: "'s \<Rightarrow> ('v \<times> 's) result"

section \<open>Writing\<close>

definition write_field_header ::
  "'w outstream \<Rightarrow> byte \<Rightarrow> 64 word option \<Rightarrow> 64 word \<Rightarrow> 'w \<Rightarrow> 'w result" where
  "write_field_header ops tid fixed aot w =
     (case fixed of
        Some sz \<Rightarrow> string_constant_write ops (tid # static_vuint_serialization sz []) w
      | None \<Rightarrow> rbind (write_prim ops Num1 (P1 tid) w) (\<lambda>w'. write_var_uint ops aot w'))"

definition serialize_custom_struct_member ::
  "'w outstream \<Rightarrow> ('v, 'w) out_member \<Rightarrow> 'v \<Rightarrow> 'w \<Rightarrow> 'w result" where
  "serialize_custom_struct_member ops m v w =
     rbind (write_field_header ops (om_id m) (om_fixed m) (om_aot m v) w) (\<lambda>w'. om_ser m v w')"

fun serialize_custom_struct ::
  "'w outstream \<Rightarrow> ('v, 'w) out_member list \<Rightarrow> 'v list \<Rightarrow> 'w \<Rightarrow> 'w result" where
  "serialize_custom_struct ops (m # ms) (v # vs) w =
     rbind (serialize_custom_struct_member ops m v w) (serialize_custom_struct ops ms vs)"
| "serialize_custom_struct ops _ _ w = write_prim ops Num1 (P1 0) w"

section \<open>Reading\<close>

text \<open>
  The encoded size of a known member is not used: with a fixed size as many characters as
  the header has are dropped unseen, otherwise characters up to the last of the integer.
\<close>

fun skip_chars :: "'s instream \<Rightarrow> nat \<Rightarrow> 's \<Rightarrow> 's result" where
  "skip_chars ops 0 s = Inr s"
| "skip_chars ops (Suc n) s = rbind (s_get ops s) (\<lambda>(c, s'). skip_chars ops n s')"

fun skip_varuint_loop :: "nat \<Rightarrow> 's instream \<Rightarrow> 's \<Rightarrow> 's result" where
  "skip_varuint_loop 0 ops s = Inl OutOfFuel"
| "skip_varuint_loop (Suc k) ops s =
     rbind (s_get ops s) (\<lambda>(c, s').
       case c of
         None \<Rightarrow> Inl EarlyEof
       | Some b \<Rightarrow> if b AND 0x80 \<noteq> 0 then skip_varuint_loop k ops s' else Inr s')"

definition skip_varuint :: "config \<Rightarrow> 's instream \<Rightarrow> 64 word option \<Rightarrow> 's \<Rightarrow> 's result" where
  "skip_varuint cfg ops fixed s =
     (case fixed of
        Some sz \<Rightarrow> skip_chars ops (unat (static_size_vuint sz)) s
      | None \<Rightarrow> skip_varuint_loop (fuel cfg) ops s)"

definition parse_member_value ::
  "config \<Rightarrow> 's instream \<Rightarrow> ('v, 's) in_member \<Rightarrow> 's \<Rightarrow> ('v \<times> 's) result" where
  "parse_member_value cfg ops m s = rbind (skip_varuint cfg ops (im_fixed m) s) (im_parse m)"

text \<open>
  The recursion over the tags: \<open>i\<close> is the position of the first of the remaining tags in the
  object. With no tag left the member is unknown and its value is ignored.
\<close>

fun parse_custom_struct_member ::
  "config \<Rightarrow> 's instream \<Rightarrow> byte \<Rightarrow> ('v, 's) in_member list \<Rightarrow> nat \<Rightarrow> 'v list \<Rightarrow> 's \<Rightarrow>
   ('v list \<times> 's) result" where
  "parse_custom_struct_member cfg ops tid [] i obj s =
     rbind (read_var_uint ops s) (\<lambda>(len :: 64 word, s').
     rbind (to_signed cfg len) (\<lambda>count.
     rbind (s_ignore ops count s') (\<lambda>s''. Inr (obj, s''))))"
| "parse_custom_struct_member cfg ops tid (m # ms) i obj s =
     (if tid = im_id m
      then rbind (parse_member_value cfg ops m s) (\<lambda>(v, s'). Inr (obj[i := v], s'))
      else parse_custom_struct_member cfg ops tid ms (Suc i) obj s)"

definition parse_id :: "'s instream \<Rightarrow> 's \<Rightarrow> (byte \<times> 's) result" where
  "parse_id ops s = rbind (read_prim ops Num1 s) (\<lambda>(p, s'). Inr (hd (prim_bytes p), s'))"

fun parse_custom_struct ::
  "nat \<Rightarrow> config \<Rightarrow> 's instream \<Rightarrow> ('v, 's) in_member list \<Rightarrow> 'v list \<Rightarrow> 's \<Rightarrow> ('v list \<times> 's) result" where
  "parse_custom_struct 0 cfg ops ms obj s = Inl OutOfFuel"
| "parse_custom_struct (Suc k) cfg ops ms obj s =
     rbind (parse_id ops s) (\<lambda>(tid, s').
       if tid = 0 then Inr (obj, s')
       else rbind (parse_custom_struct_member cfg ops tid ms 0 obj s') (\<lambda>(obj', s'').
              parse_custom_struct k cfg ops ms obj' s''))"

text \<open>
  The optimistic pass expects the members in their declared order and returns the first id
  that is not the expected one; after the last member everything left is skipped.
\<close>

fun parse_custom_struct_optimistic ::
  "config \<Rightarrow> 's instream \<Rightarrow> ('v, 's) in_member list \<Rightarrow> nat \<Rightarrow> 'v list \<Rightarrow> 's \<Rightarrow>
   ((byte \<times> 'v list) \<times> 's) result" where
  "parse_custom_struct_optimistic cfg ops [] i obj s =
     rbind (parse_custom_struct (fuel cfg) cfg ops [] obj s) (\<lambda>(obj', s'). Inr ((0, obj'), s'))"
| "parse_custom_struct_optimistic cfg ops (m # ms) i obj s =
     rbind (parse_id ops s) (\<lambda>(tid, s').
       if tid = im_id m
       then rbind (parse_member_value cfg ops m s') (\<lambda>(v, s'').
              parse_custom_struct_optimistic cfg ops ms (Suc i) (obj[i := v]) s'')
       else Inr ((tid, obj), s'))"

definition parse_custom_struct_with_fallback ::
  "config \<Rightarrow> 's instream \<Rightarrow> ('v, 's) in_member list \<Rightarrow> 'v list \<Rightarrow> 's \<Rightarrow> ('v list \<times> 's) result" where
  "parse_custom_struct_with_fallback cfg ops ms obj s =
     rbind (parse_custom_struct_optimistic cfg ops ms 0 obj s) (\<lambda>((tid, obj'), s').
       if tid = 0 then Inr (obj', s')
       else rbind (parse_custom_struct_member cfg ops tid ms 0 obj' s') (\<lambda>(obj'', s'').
              parse_custom_struct (fuel cfg) cfg ops ms obj'' s''))"

definition parse_custom_struct_optimistic_for_large ::
  "config \<Rightarrow> 's instream \<Rightarrow> ('v, 's) in_member list \<Rightarrow> 'v list \<Rightarrow> 's \<Rightarrow> ('v list \<times> 's) result" where
  "parse_custom_struct_optimistic_for_large cfg ops ms obj s =
     (if length ms > threshold cfg then parse_custom_struct_with_fallback cfg ops ms obj s
      else parse_custom_struct (fuel cfg) cfg ops ms obj s)"

section \<open>Sizes\<close>

definition struct_member_fixed_size :: "64 word option \<Rightarrow> 64 word option" where
  "struct_member_fixed_size fixed = map_option (\<lambda>n. 1 + static_size_vuint n + n) fixed"

definition struct_fixed_size :: "64 word option list \<Rightarrow> 64 word option" where
  "struct_fixed_size fixeds =
     map_option (\<lambda>ns. sumall ns + 1) (all_some (map struct_member_fixed_size fixeds))"

definition struct_member_aot_size :: "('v \<Rightarrow> 64 word) \<Rightarrow> 'v \<Rightarrow> 64 word" where
  "struct_member_aot_size aot v = (let n = aot v in 1 + aot_size_vuint n + n)"

definition struct_aot_size :: "('v \<Rightarrow> 64 word) list \<Rightarrow> 'v list \<Rightarrow> 64 word" where
  "struct_aot_size aots vs = sumall (map (\<lambda>(aot, v). struct_member_aot_size aot v) (zip aots vs)) + 1"

end
