(* ===== verification/TaggedStructFacts.thy ===== *)
theory TaggedStructFacts
  imports TaggedStruct
begin

text \<open>
  Tagged structs meet the format: what the writer emits, and what the readers make of any
  sequence of fields a peer of another version may have written: members in any order,
  members missing, members this version does not know.
\<close>

section \<open>Draining a stream\<close>

text \<open>
  A skipping action need not throw at the end of the stream; it may leave the stream past
  its end instead, where the next read throws.
\<close>

definition drains ::
  "('s \<Rightarrow> bool) \<Rightarrow> ('s \<Rightarrow> byte list) \<Rightarrow> ('s \<Rightarrow> bool) \<Rightarrow> error set \<Rightarrow>
   ('s \<Rightarrow> ('v \<times> 's) result) \<Rightarrow> byte list \<Rightarrow> bool" where
  "drains ok rem past E P bs \<longleftrightarrow>
     (\<forall>s k. ok s \<and> rem s = take k bs \<and> k < length bs \<or> past s \<longrightarrow>
        (\<exists>e \<in> E. P s = Inl e) \<or> (\<exists>v s'. P s = Inr (v, s') \<and> past s'))"

definition skipping :: "('s \<Rightarrow> 's result) \<Rightarrow> 's \<Rightarrow> (unit \<times> 's) result" where
  "skipping P s = rbind (P s) (\<lambda>s'. Inr ((), s'))"

lemma starves_drains: "starves ok rem past E P bs \<Longrightarrow> drains ok rem past E P bs"
  by (auto simp: starves_def drains_def)

lemma starves_past: "starves ok rem past E P bs \<Longrightarrow> past s \<Longrightarrow> \<exists>e \<in> E. P s = Inl e"
  by (auto simp: starves_def)

lemma starves_Nil: "starves ok rem past E P [] \<longleftrightarrow> (\<forall>s. past s \<longrightarrow> (\<exists>e \<in> E. P s = Inl e))"
  by (auto simp: starves_def)

lemma starves_any: "starves ok rem past E P bs \<Longrightarrow> starves ok rem past E P []"
  by (auto simp: starves_def)

lemma drains_past:
  "drains ok rem past E P bs \<Longrightarrow> past s \<Longrightarrow>
   (\<exists>e \<in> E. P s = Inl e) \<or> (\<exists>v s'. P s = Inr (v, s') \<and> past s')"
  by (auto simp: drains_def)

lemma truncated_append:
  assumes "ok s \<and> rem s = take k (a @ b) \<and> k < length (a @ b) \<or> past s"
  obtains "ok s \<and> rem s = take k a \<and> k < length a \<or> past s"
    | "ok s" "rem s = a @ take (k - length a) b" "k - length a < length b"
  using assms by (cases "past s \<or> k < length a") auto

lemma drain_cases:
  assumes "drains ok rem past E P a" and "ok s \<and> rem s = take k a \<and> k < length a \<or> past s"
  obtains e where "e \<in> E" "P s = Inl e" | v s' where "P s = Inr (v, s')" "past s'"
  using assms unfolding drains_def by blast

lemma starves_bind_drain:
  assumes P: "parses ok rem P v a" and dP: "drains ok rem past E P a"
    and Q: "starves ok rem past E (Q v) b" and any: "\<And>x. starves ok rem past E (Q x) []"
  shows "starves ok rem past E (\<lambda>s. rbind (P s) (\<lambda>(x, s'). Q x s')) (a @ b)"
  unfolding starves_def
proof (intro allI impI)
  fix s k
  assume "ok s \<and> rem s = take k (a @ b) \<and> k < length (a @ b) \<or> past s"
  then show "\<exists>e\<in>E. rbind (P s) (\<lambda>(x, s'). Q x s') = Inl e"
  proof (cases rule: truncated_append)
    case 1
    from dP this show ?thesis
    proof (cases rule: drain_cases)
      case (2 x s')
      then show ?thesis using starves_past [OF any [of x], of s'] by simp
    qed auto
  next
    case 2
    then obtain s1 where "P s = Inr (v, s1)" "ok s1" "rem s1 = take (k - length a) b"
      using parsesD [OF P] by blast
    with 2 show ?thesis using Q by (auto simp: starves_def)
  qed
qed

lemma drains_bind_starves:
  assumes P: "parses ok rem P v a" and sP: "starves ok rem past E P a"
    and Q: "drains ok rem past E (Q v) b"
  shows "drains ok rem past E (\<lambda>s. rbind (P s) (\<lambda>(x, s'). Q x s')) (a @ b)"
  unfolding drains_def
proof (intro allI impI)
  fix s k
  let ?R = "rbind (P s) (\<lambda>(x, s'). Q x s')"
  assume "ok s \<and> rem s = take k (a @ b) \<and> k < length (a @ b) \<or> past s"
  then show "(\<exists>e\<in>E. ?R = Inl e) \<or> (\<exists>u s'. ?R = Inr (u, s') \<and> past s')"
  proof (cases rule: truncated_append)
    case 1
    then show ?thesis using sP unfolding starves_def by fastforce
  next
    case 2
    then obtain s1 where s1: "P s = Inr (v, s1)" "ok s1" "rem s1 = take (k - length a) b"
      using parsesD [OF P] by blast
    then have "(\<exists>e\<in>E. Q v s1 = Inl e) \<or> (\<exists>u s'. Q v s1 = Inr (u, s') \<and> past s')"
      using Q 2(3) unfolding drains_def by blast
    then show ?thesis using s1(1) by simp
  qed
qed

lemma rbind_assoc: "rbind (rbind m f) g = rbind m (\<lambda>x. rbind (f x) g)"
  by (cases m) simp_all

lemma skipping_bind: "rbind (P s) Q = rbind (skipping P s) (\<lambda>(u, s'). Q s')"
  by (simp add: skipping_def rbind_assoc)

section \<open>The format\<close>

text \<open>
  A field on the wire: a member this version knows, by its position, or one it does not, by
  its tag and its serialization.
\<close>

datatype 'v field = Known nat 'v | Unknown byte "byte list"

fun field_id :: "byte list \<Rightarrow> 'v field \<Rightarrow> byte" where
  "field_id ids (Known i v) = ids ! i"
| "field_id ids (Unknown t bs) = t"

fun field_value_bytes :: "(nat \<Rightarrow> 'v \<Rightarrow> byte list) \<Rightarrow> 'v field \<Rightarrow> byte list" where
  "field_value_bytes enc (Known i v) = enc i v"
| "field_value_bytes enc (Unknown t bs) = bs"

definition field_tail :: "(nat \<Rightarrow> 'v \<Rightarrow> byte list) \<Rightarrow> 'v field \<Rightarrow> byte list" where
  "field_tail enc f = vuint_bytes (length (field_value_bytes enc f)) @ field_value_bytes enc f"

definition field_bytes :: "byte list \<Rightarrow> (nat \<Rightarrow> 'v \<Rightarrow> byte list) \<Rightarrow> 'v field \<Rightarrow> byte list" where
  "field_bytes ids enc f = field_id ids f # field_tail enc f"

definition struct_bytes :: "byte list \<Rightarrow> (nat \<Rightarrow> 'v \<Rightarrow> byte list) \<Rightarrow> 'v field list \<Rightarrow> byte list" where
  "struct_bytes ids enc fs = concat (map (field_bytes ids enc) fs) @ [0]"

lemma struct_bytes_simps:
  "struct_bytes ids enc [] = [0]"
  "struct_bytes ids enc (f # fs) = [field_id ids f] @ field_tail enc f @ struct_bytes ids enc fs"
  by (simp_all add: struct_bytes_def field_bytes_def)

text \<open>What the fields mean for an object: assignments, in the order they come.\<close>

fun apply_field :: "'v field \<Rightarrow> 'v list \<Rightarrow> 'v list" where
  "apply_field (Known i v) obj = obj[i := v]"
| "apply_field (Unknown t bs) obj = obj"

definition apply_fields :: "'v field list \<Rightarrow> 'v list \<Rightarrow> 'v list" where
  "apply_fields fs obj = fold apply_field fs obj"

fun known_index :: "'v field \<Rightarrow> nat option" where
  "known_index (Known i v) = Some i"
| "known_index (Unknown t bs) = None"

fun canonical :: "nat \<Rightarrow> 'v list \<Rightarrow> 'v field list" where
  "canonical i [] = []"
| "canonical i (v # vs) = Known i v # canonical (Suc i) vs"

lemma apply_canonical:
  "length obj = length vs \<Longrightarrow> apply_fields (canonical (length pre) vs) (pre @ obj) = pre @ vs"
proof (induction vs arbitrary: pre obj)
  case (Cons v vs)
  then obtain x obj' where o: "obj = x # obj'" "length obj' = length vs" by (cases obj) auto
  have "apply_fields (canonical (Suc (length pre)) vs) ((pre @ [v]) @ obj') = (pre @ [v]) @ vs"
    using Cons.IH [OF o(2), of "pre @ [v]"] by simp
  then show ?case using o by (simp add: apply_fields_def list_update_append)
qed (simp add: apply_fields_def)

lemma length_canonical [simp]: "length (canonical i vs) = length vs"
  by (induction vs arbitrary: i) simp_all

lemma set_canonical: "f \<in> set (canonical i vs) \<longleftrightarrow> (\<exists>j < length vs. f = Known (i + j) (vs ! j))"
  by (induction vs arbitrary: i) (auto simp: less_Suc_eq_0_disj)

lemma length_vuint_bytes_le: "x < 128 ^ n \<Longrightarrow> 0 < n \<Longrightarrow> length (vuint_bytes x) \<le> n"
proof (induction n arbitrary: x)
  case (Suc n)
  show ?case
  proof (cases "x < 128")
    case False
    then have "0 < n" using Suc.prems by (cases n) auto
    moreover have "x div 128 < 128 ^ n" using Suc.prems by (simp add: less_mult_imp_div_less mult.commute)
    ultimately show ?thesis using False Suc.IH [of "x div 128"] by (simp add: vuint_bytes_large)
  qed (simp add: vuint_bytes_small)
qed simp

lemma length_vuint_64: "x < 2 ^ 64 \<Longrightarrow> length (vuint_bytes x) \<le> 10"
  by (rule length_vuint_bytes_le) simp_all

section \<open>Writing\<close>

context output_stream begin

lemma emits_field_header:
  assumes "unat aot = n" and "\<And>k. fixed = Some k \<Longrightarrow> unat k = n"
  shows "emits ok out cap (write_field_header ops tid fixed aot) (tid # vuint_bytes n)"
proof (cases fixed)
  case None
  have "emits ok out cap (\<lambda>w. rbind (write_prim ops Num1 (P1 tid) w) (\<lambda>w'. write_var_uint ops aot w'))
      ([tid] @ vuint_bytes n)"
    using emits_write_prim [of "P1 tid" Num1] emits_write_var_uint [of aot] assms(1)
    by (intro emits_append) simp_all
  then show ?thesis by (simp add: write_field_header_def [abs_def] None)
next
  case (Some k)
  then have "tid # static_vuint_serialization k [] = tid # vuint_bytes n"
    using assms(2) by (simp add: static_vuint_serialization_eq)
  then show ?thesis
    using emits_string_constant [of "tid # vuint_bytes n"] Some
    by (simp add: write_field_header_def [abs_def])
qed

definition good_out_member :: "('v, 'w) out_member \<Rightarrow> 'v \<Rightarrow> byte list \<Rightarrow> bool" where
  "good_out_member m v bs \<longleftrightarrow> emits ok out cap (om_ser m v) bs \<and> unat (om_aot m v) = length bs \<and>
     (\<forall>k. om_fixed m = Some k \<longrightarrow> unat k = length bs)"

lemma emits_custom_struct_member:
  assumes "good_out_member m v bs"
  shows "emits ok out cap (serialize_custom_struct_member ops m v) (om_id m # vuint_bytes (length bs) @ bs)"
proof -
  have "emits ok out cap (serialize_custom_struct_member ops m v) ((om_id m # vuint_bytes (length bs)) @ bs)"
    unfolding serialize_custom_struct_member_def [abs_def]
    using assms by (intro emits_append emits_field_header) (simp_all add: good_out_member_def)
  then show ?thesis by simp
qed

lemma emits_custom_struct:
  assumes "length ms = length vs" and "\<And>j. j < length vs \<Longrightarrow> good_out_member (ms ! j) (vs ! j) (enc (i + j) (vs ! j))"
    and "map om_id ms = drop i ids"
  shows "emits ok out cap (serialize_custom_struct ops ms vs) (struct_bytes ids enc (canonical i vs))"
  using assms
proof (induction ms arbitrary: vs i)
  case Nil
  have "emits ok out cap (write_prim ops Num1 (P1 0)) [0]"
    using emits_write_prim [of "P1 0" Num1] by simp
  then show ?case using Nil by (simp add: struct_bytes_simps emits_def)
next
  case (Cons m ms)
  then obtain v vs' where vs: "vs = v # vs'" "length ms = length vs'" by (cases vs) auto
  from Cons.prems(3) have ids: "om_id m = ids ! i" "map om_id ms = drop (Suc i) ids"
    by (cases "i < length ids"; simp add: Cons_nth_drop_Suc [symmetric])+
  have g: "good_out_member m v (enc i v)" using Cons.prems(2) [of 0] vs by simp
  have "emits ok out cap (serialize_custom_struct ops ms vs') (struct_bytes ids enc (canonical (Suc i) vs'))"
    using vs Cons.prems(2) [of "Suc j" for j] ids(2) by (intro Cons.IH) auto
  then have "emits ok out cap (\<lambda>w. rbind (serialize_custom_struct_member ops m v w)
      (serialize_custom_struct ops ms vs')) (field_bytes ids enc (Known i v) @ struct_bytes ids enc (canonical (Suc i) vs'))"
    using emits_custom_struct_member [OF g]
    by (intro emits_append) (simp_all add: field_bytes_def field_tail_def ids)
  then show ?case
    by (simp add: vs struct_bytes_def serialize_custom_struct.simps(1) [abs_def])
qed

end

section \<open>Reading\<close>

definition good_ids :: "byte list \<Rightarrow> bool" where
  "good_ids ids \<longleftrightarrow> distinct ids \<and> 0 \<notin> set ids"

text \<open>
  The optimistic pass with its fallback, when no member comes twice. \<open>i\<close> members have been
  matched; the fields still to come name members from \<open>i\<close> on only.
\<close>

definition fallback ::
  "config \<Rightarrow> 's instream \<Rightarrow> ('v, 's) in_member list \<Rightarrow> byte \<times> 'v list \<Rightarrow> 's \<Rightarrow> ('v list \<times> 's) result" where
  "fallback cfg ops ms r s' = (case r of (tid, obj') \<Rightarrow>
     if tid = 0 then Inr (obj', s')
     else rbind (parse_custom_struct_member cfg ops tid ms 0 obj' s') (\<lambda>(obj'', s'').
            parse_custom_struct (fuel cfg) cfg ops ms obj'' s''))"

lemma fallback_simp: "parse_custom_struct_with_fallback cfg ops ms obj s =
    rbind (parse_custom_struct_optimistic cfg ops ms 0 obj s) (\<lambda>(r, s'). fallback cfg ops ms r s')"
  by (simp add: parse_custom_struct_with_fallback_def fallback_def split_def)

lemma fallback_done:
  "rbind (rbind m (\<lambda>(obj', s'). Inr ((0, obj'), s'))) (\<lambda>(r, s'). fallback cfg ops ms r s') = m"
  by (cases m) (auto simp: fallback_def)

definition pending :: "nat \<Rightarrow> 'v field list \<Rightarrow> bool" where
  "pending i fs \<longleftrightarrow> distinct (List.map_filter known_index fs) \<and> (\<forall>j \<in> set (List.map_filter known_index fs). i \<le> j)"

lemma pending_next: "pending i (Known i v # fs) \<Longrightarrow> pending (Suc i) fs"
  by (auto simp: pending_def map_filter_simps nat_less_le Suc_le_eq)

lemma apply_unknown: "apply_fields (map (\<lambda>(t, bs). Unknown t bs) us) obj = obj"
  by (induction us) (auto simp: apply_fields_def)

lemma struct_bytes_unknown:
  "struct_bytes ids enc (map (\<lambda>(t, bs). Unknown t bs) us) = struct_bytes ids' enc' (map (\<lambda>(t, bs). Unknown t bs) us)"
  by (induction us) (auto simp: struct_bytes_simps field_tail_def)

context input_stream begin

definition good_field :: "('v, 's) in_member list \<Rightarrow> (nat \<Rightarrow> 'v \<Rightarrow> byte list) \<Rightarrow> 'v field \<Rightarrow> bool" where
  "good_field ms enc f \<longleftrightarrow>
     (case f of
        Known i v \<Rightarrow> i < length ms \<and> parses ok rem (im_parse (ms ! i)) v (enc i v) \<and>
          length (enc i v) < 2 ^ 63 \<and> (\<forall>k. im_fixed (ms ! i) = Some k \<longrightarrow> unat k = length (enc i v))
      | Unknown t bs \<Rightarrow> t \<notin> set (map im_id ms) \<and> t \<noteq> 0 \<and> length bs < 2 ^ 63)"

lemma parses_skip_chars: "parses ok rem (skipping (skip_chars ops (length bs))) () bs"
proof (induction bs)
  case Nil
  show ?case by (simp add: parses_def skipping_def)
next
  case (Cons b bs)
  show ?case unfolding parses_def
  proof (intro allI impI, elim conjE)
    fix s rest
    assume s: "ok s" "rem s = (b # bs) @ rest"
    then obtain s1 where s1: "s_get ops s = Inr (Some b, s1)" "ok s1" "rem s1 = bs @ rest"
      using get_cons [of s b "bs @ rest"] by auto
    with parsesD [OF Cons s1(2,3)]
    show "\<exists>s'. skipping (skip_chars ops (length (b # bs))) s = Inr ((), s') \<and> ok s' \<and> rem s' = rest"
      by (simp add: skipping_def rbind_assoc)
  qed
qed

lemma parses_skip_loop:
  "length (vuint_bytes x) \<le> k \<Longrightarrow> parses ok rem (skipping (skip_varuint_loop k ops)) () (vuint_bytes x)"
proof (induction k arbitrary: x)
  case (Suc k)
  show ?case unfolding parses_def
  proof (intro allI impI, elim conjE)
    fix s rest
    assume s: "ok s" "rem s = vuint_bytes x @ rest"
    show "\<exists>s'. skipping (skip_varuint_loop (Suc k) ops) s = Inr ((), s') \<and> ok s' \<and> rem s' = rest"
    proof (cases "x < 128")
      case True
      then have "(word_of_nat x :: byte) AND 0x80 = 0"
        using or80_bit [of "word_of_nat x"] by (simp add: unat_byte_of_nat del: word_of_nat_eq_0_iff)
      with True s get_cons [OF s(1), of "word_of_nat x" rest] show ?thesis
        by (auto simp: vuint_bytes_small skipping_def)
    next
      case False
      let ?b = "word_of_nat (x mod 128 + 128) :: byte"
      have "x mod 128 + 128 < 256" using mod_less_divisor [of 128 x] by linarith
      then have "?b AND 0x80 \<noteq> 0"
        by (simp only: or80_bit unat_byte_of_nat mod_less)
      moreover obtain s1 where s1: "s_get ops s = Inr (Some ?b, s1)" "ok s1" "rem s1 = vuint_bytes (x div 128) @ rest"
        using get_cons [OF s(1), of ?b "vuint_bytes (x div 128) @ rest"] s(2) False
        by (auto simp: vuint_bytes_large)
      moreover have "parses ok rem (skipping (skip_varuint_loop k ops)) () (vuint_bytes (x div 128))"
        using Suc False by (simp add: vuint_bytes_large)
      ultimately show ?thesis
        using parsesD [of ok rem "skipping (skip_varuint_loop k ops)" "()" _ s1 rest]
        by (auto simp: skipping_def)
    qed
  qed
qed simp

lemma parses_skip_varuint:
  assumes "\<forall>k. fixed = Some k \<longrightarrow> unat k = n" and "n < 2 ^ 64" and "10 \<le> fuel cfg"
  shows "parses ok rem (skipping (skip_varuint cfg ops fixed)) () (vuint_bytes n)"
proof (cases fixed)
  case None
  then show ?thesis
    using parses_skip_loop [of n "fuel cfg"] length_vuint_64 [OF assms(2)] assms(3)
    by (simp add: skip_varuint_def [abs_def] skipping_def [abs_def])
next
  case (Some k)
  have "unat (static_size_vuint k) = length (vuint_bytes n)"
    using assms(1) Some length_vuint_64 [OF assms(2)] by (simp add: static_size_vuint_eq unat_of_length)
  then show ?thesis
    using parses_skip_chars [of "vuint_bytes n"] Some
    by (simp add: skip_varuint_def [abs_def] skipping_def [abs_def])
qed

lemma parses_member_value:
  assumes "good_field ms enc (Known i v)" and "10 \<le> fuel cfg"
  shows "parses ok rem (parse_member_value cfg ops (ms ! i)) v (field_tail enc (Known i v))"
  unfolding parse_member_value_def [abs_def] skipping_bind field_tail_def field_value_bytes.simps
  by (rule parses_bind [where v = "()"]) (use assms in \<open>auto simp: good_field_def intro!: parses_skip_varuint\<close>)

lemma parses_unknown_member:
  assumes "length bs < 2 ^ 63"
  shows "parses ok rem (parse_custom_struct_member cfg ops tid [] i obj) obj (vuint_bytes (length bs) @ bs)"
proof -
  have s: "to_signed cfg (word_of_nat (length bs) :: 64 word) = Inr (word_of_nat (length bs))"
    using bulk_count(1) [of 1 "length bs" cfg] assms by simp
  have "parses ok rem (\<lambda>s. rbind (skipping (s_ignore ops (word_of_nat (length bs))) s) (\<lambda>(u, s'). Inr (obj, s'))) obj bs"
    using ignore_enough [of _ "word_of_nat (length bs)"] assms
    by (fastforce simp: parses_def skipping_def sint_of_nat_small)
  then have tail: "parses ok rem (\<lambda>s'. rbind (to_signed cfg (word_of_nat (length bs) :: 64 word))
      (\<lambda>count. rbind (s_ignore ops count s') (\<lambda>s''. Inr (obj, s'')))) obj bs"
    by (simp add: s skipping_bind [symmetric])
  show ?thesis unfolding parse_custom_struct_member.simps(1) [abs_def]
    by (rule parses_bind [where v = "word_of_nat (length bs)"], rule parses_read_var_uint)
      (use assms tail in simp_all)
qed

lemma parse_member_known:
  "i < length ms \<Longrightarrow> distinct (map im_id ms) \<Longrightarrow>
   parse_custom_struct_member cfg ops (im_id (ms ! i)) ms j obj s =
     rbind (parse_member_value cfg ops (ms ! i) s) (\<lambda>(v, s'). Inr (obj[j + i := v], s'))"
proof (induction ms arbitrary: i j)
  case (Cons m ms)
  show ?case
  proof (cases i)
    case (Suc i')
    then have "im_id (ms ! i') \<noteq> im_id m" using Cons.prems by (metis Suc_less_eq distinct.simps(2) image_eqI length_Cons list.set_map list.simps(9) nth_mem)
    then show ?thesis using Suc Cons by simp
  qed simp
qed simp

lemma parse_member_unknown:
  "tid \<notin> set (map im_id ms) \<Longrightarrow>
   parse_custom_struct_member cfg ops tid ms j obj = parse_custom_struct_member cfg ops tid [] 0 obj"
  by (induction ms arbitrary: j) (auto simp: fun_eq_iff)

lemma parses_member:
  assumes "good_field ms enc f" and "good_ids (map im_id ms)" and "10 \<le> fuel cfg"
  shows "parses ok rem (parse_custom_struct_member cfg ops (field_id (map im_id ms) f) ms 0 obj)
    (apply_field f obj) (field_tail enc f)"
proof (cases f)
  case (Known i v)
  then have i: "i < length ms" "distinct (map im_id ms)"
    using assms by (auto simp: good_field_def good_ids_def)
  show ?thesis
    using parses_map [OF parses_member_value [of ms enc i v cfg], of "\<lambda>v. obj[i := v]"] assms i
    by (simp add: Known parse_member_known [OF i, abs_def])
next
  case (Unknown t bs)
  then show ?thesis
    using assms parses_unknown_member [of bs cfg t 0 obj] parse_member_unknown [of t ms cfg 0 obj]
    by (simp add: good_field_def field_tail_def)
qed

lemma parses_id: "parses ok rem (parse_id ops) tid [tid]"
  using parses_map [OF parses_read_prim [of "P1 tid" Num1], of "\<lambda>p. hd (prim_bytes p)"]
  by (simp add: parse_id_def [abs_def])

lemma good_field_id:
  "good_field ms enc f \<Longrightarrow> good_ids (map im_id ms) \<Longrightarrow> field_id (map im_id ms) f \<noteq> 0"
  by (cases f) (auto simp: good_field_def good_ids_def image_iff dest: nth_mem)

lemma parses_custom_struct:
  assumes "\<And>f. f \<in> set fs \<Longrightarrow> good_field ms enc f" and "good_ids (map im_id ms)"
    and "10 \<le> fuel cfg" and "length fs < k"
  shows "parses ok rem (parse_custom_struct k cfg ops ms obj) (apply_fields fs obj)
    (struct_bytes (map im_id ms) enc fs)"
  using assms(1,4)
proof (induction k arbitrary: fs obj)
  case (Suc k)
  let ?Q = "\<lambda>tid s'. if tid = 0 then Inr (obj, s')
       else rbind (parse_custom_struct_member cfg ops tid ms 0 obj s') (\<lambda>(obj', s'').
              parse_custom_struct k cfg ops ms obj' s'')"
  show ?case
  proof (cases fs)
    case Nil
    have "parses ok rem (\<lambda>s. rbind (parse_id ops s) (\<lambda>(x, s'). ?Q x s')) obj ([0] @ [])"
      by (rule parses_bind [OF parses_id]) (simp add: parses_return)
    then show ?thesis by (simp add: Nil struct_bytes_simps apply_fields_def)
  next
    case (Cons f fs')
    let ?t = "field_id (map im_id ms) f"
    have f: "good_field ms enc f" using Suc.prems Cons by simp
    have "parses ok rem (parse_custom_struct k cfg ops ms (apply_field f obj))
        (apply_fields fs' (apply_field f obj)) (struct_bytes (map im_id ms) enc fs')"
      using Suc.prems Cons by (intro Suc.IH) auto
    then have "parses ok rem (?Q ?t) (apply_fields fs' (apply_field f obj))
        (field_tail enc f @ struct_bytes (map im_id ms) enc fs')"
      using parses_bind [OF parses_member [OF f assms(2,3)]] good_field_id [OF f assms(2)] by simp
    then have "parses ok rem (\<lambda>s. rbind (parse_id ops s) (\<lambda>(x, s'). ?Q x s'))
        (apply_fields fs' (apply_field f obj)) ([?t] @ field_tail enc f @ struct_bytes (map im_id ms) enc fs')"
      by (rule parses_bind [OF parses_id])
    then show ?thesis by (simp add: Cons struct_bytes_simps apply_fields_def)
  qed
qed simp

lemma pending_end:
  assumes "pending (length ms) fs" and "\<And>f. f \<in> set fs \<Longrightarrow> good_field ms enc f"
  shows "\<exists>us. fs = map (\<lambda>(t, bs). Unknown t bs) us"
  using assms
proof (induction fs)
  case (Cons f fs)
  have "\<exists>t bs. f = Unknown t bs"
  proof (cases f)
    case (Known i v)
    then have "i < length ms" using Cons.prems(2) [of f] by (simp add: good_field_def)
    then show ?thesis using Cons.prems(1) Known by (simp add: pending_def map_filter_simps)
  qed simp
  moreover from this have "pending (length ms) fs" using Cons.prems(1) by (auto simp: pending_def map_filter_simps)
  ultimately show ?case using Cons by (metis (no_types, lifting) case_prod_conv list.set_intros(2) list.simps(9))
qed simp

lemma matching_field:
  assumes "good_field ms enc f" and "good_ids (map im_id ms)" and "i < length ms"
    and "field_id (map im_id ms) f = im_id (ms ! i)"
  shows "\<exists>v. f = Known i v"
proof (cases f)
  case (Known j v)
  then have "j < length ms" "im_id (ms ! j) = im_id (ms ! i)"
    using assms by (simp_all add: good_field_def)
  then have "j = i" using assms(2,3) by (simp add: good_ids_def distinct_conv_nth) (metis)
  then show ?thesis using Known by simp
next
  case (Unknown t bs)
  then show ?thesis using assms by (auto simp: good_field_def image_iff)
qed

lemma parses_optimistic:
  assumes "drop i ms = suf" and "i \<le> length ms" and "pending i fs"
    and "\<And>f. f \<in> set fs \<Longrightarrow> good_field ms enc f" and ids: "good_ids (map im_id ms)"
    and fl: "10 \<le> fuel cfg" and "length fs < fuel cfg"
  shows "parses ok rem (\<lambda>s. rbind (parse_custom_struct_optimistic cfg ops suf i obj s)
      (\<lambda>(r, s'). fallback cfg ops ms r s')) (apply_fields fs obj) (struct_bytes (map im_id ms) enc fs)"
  using assms(1-4,7)
proof (induction suf arbitrary: i fs obj)
  case Nil
  then obtain us where us: "fs = map (\<lambda>(t, bs). Unknown t bs) us"
    using pending_end [of ms fs enc] by auto
  have g: "t \<noteq> 0 \<and> length bs < 2 ^ 63" if "(t, bs) \<in> set us" for t bs
    using Nil.prems(4) [of "Unknown t bs"] that us by (force simp: good_field_def)
  have "parses ok rem (parse_custom_struct (fuel cfg) cfg ops ([] :: ('a, 's) in_member list) obj)
      (apply_fields fs obj) (struct_bytes (map im_id ([] :: ('a, 's) in_member list)) enc fs)"
    by (rule parses_custom_struct) (use Nil.prems(5) us fl g in \<open>auto simp: good_field_def good_ids_def\<close>)
  then have "parses ok rem (parse_custom_struct (fuel cfg) cfg ops [] obj) obj (struct_bytes (map im_id ms) enc fs)"
    using struct_bytes_unknown [of "[]" enc us "map im_id ms" enc] by (simp add: us apply_unknown)
  then show ?case
    by (simp add: us apply_unknown fallback_done)
next
  case (Cons m suf)
  have i: "i < length ms" "ms ! i = m" "drop (Suc i) ms = suf"
    using Cons.prems(1) by (cases "i < length ms"; simp add: Cons_nth_drop_Suc [symmetric])+
  let ?Q = "\<lambda>tid s'. rbind (if tid = im_id m
       then rbind (parse_member_value cfg ops m s') (\<lambda>(v, s'').
              parse_custom_struct_optimistic cfg ops suf (Suc i) (obj[i := v]) s'')
       else Inr ((tid, obj), s')) (\<lambda>(r, s'). fallback cfg ops ms r s')"
  have mid: "im_id m \<noteq> 0" using ids i by (auto simp: good_ids_def image_iff)
  have step: "parses ok rem (\<lambda>s. rbind (parse_id ops s) (\<lambda>(x, s'). ?Q x s')) u ([t] @ b)"
    if "parses ok rem (?Q t) u b" for u t b
    by (rule parses_bind [where v = t]) (rule parses_id, rule that)
  have "parses ok rem (\<lambda>s. rbind (parse_id ops s) (\<lambda>(x, s'). ?Q x s')) (apply_fields fs obj)
      (struct_bytes (map im_id ms) enc fs)"
  proof (cases fs)
    case Nil
    have "parses ok rem (?Q 0) obj []" using mid by (simp add: fallback_def parses_return)
    from step [OF this] show ?thesis by (simp add: Nil struct_bytes_simps apply_fields_def)
  next
    case fs: (Cons f fs')
    let ?t = "field_id (map im_id ms) f"
    have f: "good_field ms enc f" and rest: "\<And>g. g \<in> set fs' \<Longrightarrow> good_field ms enc g"
      using Cons.prems fs by auto
    have "parses ok rem (?Q ?t) (apply_fields fs' (apply_field f obj))
        (field_tail enc f @ struct_bytes (map im_id ms) enc fs')"
    proof (cases "?t = im_id m")
      case True
      then obtain v where v: "f = Known i v" using matching_field [OF f ids i(1)] i(2) by blast
      have "parses ok rem (\<lambda>s. rbind (parse_custom_struct_optimistic cfg ops suf (Suc i) (obj[i := v]) s)
          (\<lambda>(r, s'). fallback cfg ops ms r s')) (apply_fields fs' (obj[i := v])) (struct_bytes (map im_id ms) enc fs')"
        using Cons.prems fs i v by (intro Cons.IH) (auto intro: pending_next)
      from parses_bind [where Q = "\<lambda>v s. rbind (parse_custom_struct_optimistic cfg ops suf (Suc i) (obj[i := v]) s)
          (\<lambda>(r, s'). fallback cfg ops ms r s')", OF parses_member_value [OF f [unfolded v] fl] this]
      show ?thesis using True v i(2) by (simp add: rbind_assoc split_def)
    next
      case False
      have tail: "parses ok rem (\<lambda>s. parse_custom_struct (fuel cfg) cfg ops ms (apply_field f obj) s)
          (apply_fields fs' (apply_field f obj)) (struct_bytes (map im_id ms) enc fs')"
        using Cons.prems fs rest ids fl by (intro parses_custom_struct) auto
      have "parses ok rem (\<lambda>s'. rbind (parse_custom_struct_member cfg ops ?t ms 0 obj s')
          (\<lambda>(obj'', s''). parse_custom_struct (fuel cfg) cfg ops ms obj'' s''))
          (apply_fields fs' (apply_field f obj)) (field_tail enc f @ struct_bytes (map im_id ms) enc fs')"
        by (rule parses_bind [where v = "apply_field f obj"]) (rule parses_member [OF f ids fl], rule tail)
      then show ?thesis using False good_field_id [OF f ids] by (simp add: fallback_def)
    qed
    from step [OF this] show ?thesis by (simp add: fs struct_bytes_simps apply_fields_def)
  qed
  then show ?case by (simp add: rbind_assoc split_def)
qed

lemma parses_optimistic_for_large:
  assumes "pending 0 fs" and "\<And>f. f \<in> set fs \<Longrightarrow> good_field ms enc f"
    and "good_ids (map im_id ms)" and "10 \<le> fuel cfg" and "length fs < fuel cfg"
  shows "parses ok rem (parse_custom_struct_optimistic_for_large cfg ops ms obj) (apply_fields fs obj)
    (struct_bytes (map im_id ms) enc fs)"
proof (cases "length ms > threshold cfg")
  case True
  then show ?thesis
    using parses_optimistic [of 0 ms ms fs enc cfg obj] assms
    by (simp add: parse_custom_struct_optimistic_for_large_def [abs_def] fallback_simp)
next
  case False
  then show ?thesis
    using parses_custom_struct [OF assms(2-5)]
    by (simp add: parse_custom_struct_optimistic_for_large_def [abs_def])
qed

end

section \<open>Truncated structs\<close>

context ending_stream begin

abbreviation "drained P bs \<equiv> drains ok rem past eof_errors P bs"
abbreviation "starved P bs \<equiv> starves ok rem past eof_errors P bs"

lemma starved_read_loop_end: "past s \<Longrightarrow> \<exists>e \<in> eof_errors. skip_varuint_loop (Suc k) ops s = Inl e"
  using get_end [of s] early_eof by auto

lemma drained_skip_chars: "drained (skipping (skip_chars ops (length bs))) bs"
proof (induction bs)
  case Nil
  show ?case by (auto simp: drains_def skipping_def)
next
  case (Cons b bs)
  show ?case unfolding drains_def
  proof (intro allI impI)
    fix s k
    let ?R = "skipping (skip_chars ops (length (b # bs))) s"
    assume h: "ok s \<and> rem s = take k (b # bs) \<and> k < length (b # bs) \<or> past s"
    show "(\<exists>e\<in>eof_errors. ?R = Inl e) \<or> (\<exists>v s'. ?R = Inr (v, s') \<and> past s')"
    proof (cases "past s \<or> k = 0")
      case True
      with h have "ok s \<and> rem s = [] \<or> past s" by auto
      then consider e where "e \<in> eof_errors" "s_get ops s = Inl e" | s' where "s_get ops s = Inr (None, s')" "past s'"
        using get_end by blast
      then show ?thesis
      proof cases
        case (2 s')
        with drains_past [OF Cons 2(2)] show ?thesis by (simp add: skipping_def)
      qed (auto simp: skipping_def)
    next
      case False
      with h obtain j where "k = Suc j" "ok s" "rem s = b # take j bs" "j < length bs" by (cases k) auto
      with get_cons [of s b "take j bs"] Cons show ?thesis
        by (fastforce simp: drains_def skipping_def rbind_assoc)
    qed
  qed
qed

lemma starved_skip_loop:
  "length (vuint_bytes x) \<le> k \<Longrightarrow> starved (skipping (skip_varuint_loop k ops)) (vuint_bytes x)"
proof (induction k arbitrary: x)
  case (Suc k)
  show ?case unfolding starves_def
  proof (intro allI impI)
    fix s n
    assume h: "ok s \<and> rem s = take n (vuint_bytes x) \<and> n < length (vuint_bytes x) \<or> past s"
    show "\<exists>e\<in>eof_errors. skipping (skip_varuint_loop (Suc k) ops) s = Inl e"
    proof (cases "past s \<or> n = 0")
      case True
      with h have "ok s \<and> rem s = [] \<or> past s" by auto
      from get_end [OF this] early_eof show ?thesis by (auto simp: skipping_def)
    next
      case False
      with h obtain j where j: "n = Suc j" "ok s" "rem s = take n (vuint_bytes x)" "n < length (vuint_bytes x)"
        by (cases n) auto
      have x: "128 \<le> x"
      proof (rule ccontr)
        assume "\<not> 128 \<le> x"
        with j show False by (simp add: vuint_bytes_small)
      qed
      let ?b = "word_of_nat (x mod 128 + 128) :: byte"
      have "x mod 128 + 128 < 256" using mod_less_divisor [of 128 x] by linarith
      then have b: "?b AND 0x80 \<noteq> 0" by (simp only: or80_bit unat_byte_of_nat mod_less)
      have "rem s = ?b # take j (vuint_bytes (x div 128))" "j < length (vuint_bytes (x div 128))"
        using j x by (simp_all add: vuint_bytes_large)
      moreover have "starved (skipping (skip_varuint_loop k ops)) (vuint_bytes (x div 128))"
        using Suc x by (simp add: vuint_bytes_large)
      ultimately show ?thesis using get_cons [OF j(2), of ?b "take j (vuint_bytes (x div 128))"] b
        by (fastforce simp: starves_def skipping_def)
    qed
  qed
qed simp

lemma drained_skip_varuint:
  assumes "\<forall>k. fixed = Some k \<longrightarrow> unat k = n" and "n < 2 ^ 64" and "10 \<le> fuel cfg"
  shows "drained (skipping (skip_varuint cfg ops fixed)) (vuint_bytes n)"
proof (cases fixed)
  case None
  then show ?thesis
    using starves_drains [OF starved_skip_loop [of n "fuel cfg"]] length_vuint_64 [OF assms(2)] assms(3)
    by (simp add: skip_varuint_def [abs_def] skipping_def [abs_def])
next
  case (Some k)
  have "unat (static_size_vuint k) = length (vuint_bytes n)"
    using assms(1) Some length_vuint_64 [OF assms(2)] by (simp add: static_size_vuint_eq unat_of_length)
  then show ?thesis
    using drained_skip_chars [of "vuint_bytes n"] Some
    by (simp add: skip_varuint_def [abs_def] skipping_def [abs_def])
qed

text \<open>A field is complete when a truncated serialization of its value is noticed.\<close>

definition ending_field :: "('v, 's) in_member list \<Rightarrow> (nat \<Rightarrow> 'v \<Rightarrow> byte list) \<Rightarrow> 'v field \<Rightarrow> bool" where
  "ending_field ms enc f \<longleftrightarrow> good_field ms enc f \<and>
     (\<forall>i v. f = Known i v \<longrightarrow> starved (im_parse (ms ! i)) (enc i v))"

lemma starved_member_value:
  assumes "ending_field ms enc (Known i v)" and "10 \<le> fuel cfg"
  shows "starved (parse_member_value cfg ops (ms ! i)) (field_tail enc (Known i v))"
  unfolding parse_member_value_def [abs_def] skipping_bind field_tail_def field_value_bytes.simps
  by (rule starves_bind_drain [where v = "()"])
    (use assms in \<open>auto simp: ending_field_def good_field_def intro!: parses_skip_varuint drained_skip_varuint
      intro: starves_any\<close>)

lemma drained_unknown_member:
  assumes "length bs < 2 ^ 63"
  shows "drained (parse_custom_struct_member cfg ops tid [] i obj) (vuint_bytes (length bs) @ bs)"
proof -
  let ?n = "word_of_nat (length bs) :: 64 word"
  have s: "to_signed cfg ?n = Inr ?n"
    using bulk_count(1) [of 1 "length bs" cfg] assms by simp
  let ?Q = "\<lambda>n :: 64 word. \<lambda>s'. rbind (to_signed cfg n) (\<lambda>count. rbind (s_ignore ops count s') (\<lambda>s''. Inr (obj, s'')))"
  have "drained (?Q ?n) bs" unfolding drains_def
  proof (intro allI impI)
    fix s' k
    assume "ok s' \<and> rem s' = take k bs \<and> k < length bs \<or> past s'"
    then have "ok s' \<and> length (rem s') < unat ?n \<or> past s'"
      using assms by (auto simp: sint_of_nat_small)
    then have "(\<exists>e \<in> eof_errors. s_ignore ops ?n s' = Inl e) \<or> (\<exists>s''. s_ignore ops ?n s' = Inr s'' \<and> past s'')"
      by (rule ignore_end) (use sint_of_nat_small(1) [OF assms] in simp)
    then show "(\<exists>e\<in>eof_errors. ?Q ?n s' = Inl e) \<or> (\<exists>v s''. ?Q ?n s' = Inr (v, s'') \<and> past s'')"
      by (auto simp: s)
  qed
  then show ?thesis
    unfolding parse_custom_struct_member.simps(1) [abs_def]
    by (intro drains_bind_starves [where Q = ?Q and v = ?n] parses_read_var_uint starves_read_var_uint)
      (use assms in simp_all)
qed

lemma drained_member:
  assumes "ending_field ms enc f" and "good_ids (map im_id ms)" and "10 \<le> fuel cfg"
  shows "drained (parse_custom_struct_member cfg ops (field_id (map im_id ms) f) ms 0 obj) (field_tail enc f)"
proof (cases f)
  case (Known i v)
  then have i: "i < length ms" "distinct (map im_id ms)"
    using assms by (auto simp: ending_field_def good_field_def good_ids_def)
  show ?thesis
    using starves_drains [OF starves_map [OF starved_member_value [of ms enc i v cfg], of "\<lambda>v. obj[i := v]"]] assms i
    by (simp add: Known parse_member_known [OF i, abs_def])
next
  case (Unknown t bs)
  then show ?thesis
    using assms drained_unknown_member [of bs cfg t 0 obj] parse_member_unknown [of t ms cfg 0 obj]
    by (simp add: ending_field_def good_field_def field_tail_def)
qed

lemma starved_id: "starved (parse_id ops) [tid]"
  using starves_map [OF starves_read_prim [of "[tid]" Num1]] by (simp add: parse_id_def [abs_def])

lemma starved_custom_struct_past: "starved (parse_custom_struct (Suc k) cfg ops ms obj) []"
  unfolding starves_Nil
proof (intro allI impI)
  fix s assume "past s"
  with starves_past [OF starved_id] obtain e where "e \<in> eof_errors" "parse_id ops s = Inl e" by blast
  then show "\<exists>e\<in>eof_errors. parse_custom_struct (Suc k) cfg ops ms obj s = Inl e" by auto
qed

lemma starved_custom_struct:
  assumes "\<And>f. f \<in> set fs \<Longrightarrow> ending_field ms enc f" and "good_ids (map im_id ms)"
    and "10 \<le> fuel cfg" and "length fs < k"
  shows "starved (parse_custom_struct k cfg ops ms obj) (struct_bytes (map im_id ms) enc fs)"
  using assms(1,4)
proof (induction k arbitrary: fs obj)
  case (Suc k)
  let ?Q = "\<lambda>tid s'. if tid = 0 then Inr (obj, s')
       else rbind (parse_custom_struct_member cfg ops tid ms 0 obj s') (\<lambda>(obj', s'').
              parse_custom_struct k cfg ops ms obj' s'')"
  show ?case
  proof (cases fs)
    case Nil
    show ?thesis unfolding Nil struct_bytes_simps parse_custom_struct.simps(2) [abs_def]
      by (rule starves_append_empty [OF parses_id starved_id])
  next
    case (Cons f fs')
    let ?t = "field_id (map im_id ms) f"
    have f: "ending_field ms enc f" using Suc.prems Cons by simp
    then have gf: "good_field ms enc f" by (simp add: ending_field_def)
    obtain k' where k: "k = Suc k'" using Suc.prems Cons by (cases k) auto
    have "starved (parse_custom_struct k cfg ops ms (apply_field f obj)) (struct_bytes (map im_id ms) enc fs')"
      using Suc.prems Cons by (intro Suc.IH) auto
    then have "starved (?Q ?t) (field_tail enc f @ struct_bytes (map im_id ms) enc fs')"
      using starves_bind_drain [OF parses_member [OF gf assms(2,3)] drained_member [OF f assms(2,3)],
          of "\<lambda>obj'. parse_custom_struct k cfg ops ms obj'"]
        good_field_id [OF gf assms(2)] starved_custom_struct_past [of k' cfg ms]
      by (simp add: k del: parse_custom_struct.simps)
    then have "starved (\<lambda>s. rbind (parse_id ops s) (\<lambda>(x, s'). ?Q x s'))
        ([?t] @ field_tail enc f @ struct_bytes (map im_id ms) enc fs')"
      by (rule starves_bind [where Q = ?Q, OF parses_id starved_id])
    then show ?thesis by (simp add: Cons struct_bytes_simps)
  qed
qed simp

lemma starved_optimistic:
  assumes "drop i ms = suf" and "i \<le> length ms" and "pending i fs"
    and "\<And>f. f \<in> set fs \<Longrightarrow> ending_field ms enc f" and ids: "good_ids (map im_id ms)"
    and fl: "10 \<le> fuel cfg" and "length fs < fuel cfg"
  shows "starved (\<lambda>s. rbind (parse_custom_struct_optimistic cfg ops suf i obj s)
      (\<lambda>(r, s'). fallback cfg ops ms r s')) (struct_bytes (map im_id ms) enc fs)"
  using assms(1-4,7)
proof (induction suf arbitrary: i fs obj)
  case Nil
  have gd: "good_field ms enc f" if "f \<in> set fs" for f
    using Nil.prems(4) [OF that] by (simp add: ending_field_def)
  obtain us where us: "fs = map (\<lambda>(t, bs). Unknown t bs) us"
    using pending_end [of ms fs enc] gd Nil.prems by auto
  have g: "t \<noteq> 0 \<and> length bs < 2 ^ 63" if "(t, bs) \<in> set us" for t bs
    using gd [of "Unknown t bs"] that us by (force simp: good_field_def)
  have "starved (parse_custom_struct (fuel cfg) cfg ops ([] :: ('a, 's) in_member list) obj)
      (struct_bytes (map im_id ([] :: ('a, 's) in_member list)) enc fs)"
    by (rule starved_custom_struct)
      (use Nil.prems(5) us fl g in \<open>auto simp: ending_field_def good_field_def good_ids_def\<close>)
  then have "starved (parse_custom_struct (fuel cfg) cfg ops [] obj) (struct_bytes (map im_id ms) enc fs)"
    using struct_bytes_unknown [of "[]" enc us "map im_id ms" enc] by (simp add: us)
  then show ?case by (simp add: fallback_done)
next
  case (Cons m suf)
  have i: "i < length ms" "ms ! i = m" "drop (Suc i) ms = suf"
    using Cons.prems(1) by (cases "i < length ms"; simp add: Cons_nth_drop_Suc [symmetric])+
  let ?Q = "\<lambda>tid s'. rbind (if tid = im_id m
       then rbind (parse_member_value cfg ops m s') (\<lambda>(v, s'').
              parse_custom_struct_optimistic cfg ops suf (Suc i) (obj[i := v]) s'')
       else Inr ((tid, obj), s')) (\<lambda>(r, s'). fallback cfg ops ms r s')"
  have "starved (\<lambda>s. rbind (parse_id ops s) (\<lambda>(x, s'). ?Q x s')) (struct_bytes (map im_id ms) enc fs)"
  proof (cases fs)
    case Nil
    show ?thesis unfolding Nil struct_bytes_simps
      by (rule starves_append_empty [OF parses_id starved_id])
  next
    case fs: (Cons f fs')
    let ?t = "field_id (map im_id ms) f"
    have f: "ending_field ms enc f" and rest: "\<And>g. g \<in> set fs' \<Longrightarrow> ending_field ms enc g"
      using Cons.prems fs by auto
    then have gf: "good_field ms enc f" by (simp add: ending_field_def)
    have "starved (?Q ?t) (field_tail enc f @ struct_bytes (map im_id ms) enc fs')"
    proof (cases "?t = im_id m")
      case True
      then obtain v where v: "f = Known i v" using matching_field [OF gf ids i(1)] i(2) by blast
      have "starved (\<lambda>s. rbind (parse_custom_struct_optimistic cfg ops suf (Suc i) (obj[i := v]) s)
          (\<lambda>(r, s'). fallback cfg ops ms r s')) (struct_bytes (map im_id ms) enc fs')"
        using Cons.prems fs i v by (intro Cons.IH) (auto intro: pending_next)
      from starves_bind [where Q = "\<lambda>v s. rbind (parse_custom_struct_optimistic cfg ops suf (Suc i) (obj[i := v]) s)
          (\<lambda>(r, s'). fallback cfg ops ms r s')", OF parses_member_value [OF gf [unfolded v] fl]
          starved_member_value [OF f [unfolded v] fl] this]
      show ?thesis using True v i(2) by (simp add: rbind_assoc split_def)
    next
      case False
      obtain k' where k: "fuel cfg = Suc k'" using fl by (cases "fuel cfg") auto
      have "starved (\<lambda>s. parse_custom_struct (fuel cfg) cfg ops ms (apply_field f obj) s)
          (struct_bytes (map im_id ms) enc fs')"
        using Cons.prems fs rest ids fl by (intro starved_custom_struct) auto
      then have "starved (\<lambda>s'. rbind (parse_custom_struct_member cfg ops ?t ms 0 obj s')
          (\<lambda>(obj'', s''). parse_custom_struct (fuel cfg) cfg ops ms obj'' s''))
          (field_tail enc f @ struct_bytes (map im_id ms) enc fs')"
        using starves_bind_drain [OF parses_member [OF gf ids fl] drained_member [OF f ids fl],
            of "\<lambda>obj'. parse_custom_struct (fuel cfg) cfg ops ms obj'"]
          starved_custom_struct_past [of k' cfg ms] by (simp add: k del: parse_custom_struct.simps)
      then show ?thesis using False good_field_id [OF gf ids] by (simp add: fallback_def)
    qed
    then have "starved (\<lambda>s. rbind (parse_id ops s) (\<lambda>(x, s'). ?Q x s'))
        ([?t] @ field_tail enc f @ struct_bytes (map im_id ms) enc fs')"
      by (rule starves_bind [where Q = ?Q, OF parses_id starved_id])
    then show ?thesis by (simp add: fs struct_bytes_simps)
  qed
  then show ?case by (simp add: rbind_assoc split_def)
qed

lemma starved_optimistic_for_large:
  assumes "pending 0 fs" and "\<And>f. f \<in> set fs \<Longrightarrow> ending_field ms enc f"
    and "good_ids (map im_id ms)" and "10 \<le> fuel cfg" and "length fs < fuel cfg"
  shows "starved (parse_custom_struct_optimistic_for_large cfg ops ms obj) (struct_bytes (map im_id ms) enc fs)"
proof (cases "length ms > threshold cfg")
  case True
  then show ?thesis
    using starved_optimistic [of 0 ms ms fs enc cfg obj] assms
    by (simp add: parse_custom_struct_optimistic_for_large_def [abs_def] fallback_simp)
next
  case False
  then show ?thesis
    using starved_custom_struct [OF assms(2-5)]
    by (simp add: parse_custom_struct_optimistic_for_large_def [abs_def])
qed

end

section \<open>Sizes\<close>

definition members_bytes :: "byte list \<Rightarrow> byte list list \<Rightarrow> byte list" where
  "members_bytes ids bss = concat (map (\<lambda>(tid, bs). tid # vuint_bytes (length bs) @ bs) (zip ids bss)) @ [0]"

lemma struct_bytes_canonical:
  assumes "length ids = i + length vs"
  shows "struct_bytes ids enc (canonical i vs) =
    members_bytes (drop i ids) (map (\<lambda>j. enc (i + j) (vs ! j)) [0..<length vs])"
  using assms
proof (induction vs arbitrary: i)
  case (Cons v vs)
  have "drop i ids = ids ! i # drop (Suc i) ids"
    using Cons.prems by (simp add: Cons_nth_drop_Suc)
  moreover have "map (\<lambda>j. enc (i + j) ((v # vs) ! j)) [0..<length (v # vs)] =
      enc i v # map (\<lambda>j. enc (Suc i + j) (vs ! j)) [0..<length vs]"
    by (simp add: upt_conv_Cons map_Suc_upt [symmetric] del: upt_Suc)
  ultimately show ?case using Cons
    by (simp add: struct_bytes_simps members_bytes_def field_tail_def del: upt_Suc)
qed (simp add: struct_bytes_simps members_bytes_def)

lemma struct_fixed_size_Some:
  assumes "struct_fixed_size fixeds = Some n" and "length bss = length fixeds" and "length ids = length bss"
    and "\<And>i f. i < length fixeds \<Longrightarrow> fixeds ! i = Some f \<Longrightarrow> unat f = length (bss ! i)"
  shows "n = word_of_nat (length (members_bytes ids bss))"
proof -
  from assms(1) obtain ns where ns: "map struct_member_fixed_size fixeds = map Some ns" "n = sum_list ns + 1"
    by (auto simp: struct_fixed_size_def all_some_iff sumall_sum_list)
  have "ns = map (\<lambda>(tid, bs). word_of_nat (length (tid # vuint_bytes (length bs) @ bs))) (zip ids bss)"
  proof (rule nth_equalityI)
    show "length ns = length (map (\<lambda>(tid, bs). word_of_nat (length (tid # vuint_bytes (length bs) @ bs))) (zip ids bss))"
      using ns(1) assms(2,3) by (metis length_map length_zip min.idem)
    fix i assume i: "i < length ns"
    then have i': "i < length fixeds" using ns(1) by (metis length_map)
    then have "struct_member_fixed_size (fixeds ! i) = Some (ns ! i)"
      using ns(1) i by (metis nth_map)
    then obtain f where f: "fixeds ! i = Some f" "ns ! i = 1 + static_size_vuint f + f"
      by (auto simp: struct_member_fixed_size_def)
    have "f = word_of_nat (length (bss ! i))" using assms(4) [OF i' f(1), symmetric] by simp
    then show "ns ! i = map (\<lambda>(tid, bs). word_of_nat (length (tid # vuint_bytes (length bs) @ bs))) (zip ids bss) ! i"
      using f(2) assms(2,3) i' assms(4) [OF i' f(1)] by (simp add: static_size_vuint_eq)
  qed
  then show ?thesis
    by (simp add: ns members_bytes_def length_concat sum_list_of_nat comp_def split_def)
qed

lemma struct_aot_size_eq:
  assumes "length aots = length vs" and "length bss = length vs" and "length ids = length vs"
    and "\<And>i. i < length vs \<Longrightarrow> unat ((aots ! i) (vs ! i)) = length (bss ! i)"
  shows "struct_aot_size aots vs = word_of_nat (length (members_bytes ids bss))"
proof -
  have "map (\<lambda>(aot, v). struct_member_aot_size aot v) (zip aots vs) =
      map (\<lambda>(tid, bs). word_of_nat (length (tid # vuint_bytes (length bs) @ bs))) (zip ids bss)"
  proof (rule nth_equalityI)
    fix i assume "i < length (map (\<lambda>(aot, v). struct_member_aot_size aot v) (zip aots vs))"
    then have i: "i < length vs" by simp
    have n: "(aots ! i) (vs ! i) = word_of_nat (length (bss ! i))"
      using assms(4) [OF i, symmetric] by simp
    have "unat (word_of_nat (length (bss ! i)) :: 64 word) = length (bss ! i)"
      using assms(4) [OF i] by (simp only: n)
    with i n assms(1-3) show "map (\<lambda>(aot, v). struct_member_aot_size aot v) (zip aots vs) ! i =
      map (\<lambda>(tid, bs). word_of_nat (length (tid # vuint_bytes (length bs) @ bs))) (zip ids bss) ! i"
      by (simp add: struct_member_aot_size_def aot_size_vuint_eq Let_def)
  qed (use assms in simp)
  then show ?thesis
    by (simp add: struct_aot_size_def sumall_sum_list members_bytes_def length_concat sum_list_of_nat comp_def split_def)
qed

end
