(* ===== verification/Pbss.thy ===== *)
theory Pbss
  imports TaggedStructFacts
begin

text \<open>
  The serializer as one function over types. C++ selects an overload of \<^verbatim>\<open>serialize\<close>, \<^verbatim>\<open>parse\<close>,
  \<^verbatim>\<open>fixed_size\<close> and \<^verbatim>\<open>aot_size\<close> from the static type; here the static type is a value of \<open>ty\<close> and
  each equation is one overload, over the component's definitions. \<open>encode\<close> is the format of
  \<^verbatim>\<open>doc/serialization.md\<close>.
\<close>

section \<open>Types and values\<close>

text \<open>
  \<open>TSeq\<close> and \<open>TOrd\<close> are the standard containers, \<open>TTuple\<close> is \<^verbatim>\<open>std::pair\<close> and \<^verbatim>\<open>std::tuple\<close>,
  \<open>TMembers\<close> a struct with \<^verbatim>\<open>PBSS_TUPLE_MEMBERS\<close> and \<open>TTagged\<close> one with \<^verbatim>\<open>PBSS_TAGGED_STRUCT\<close>; the
  two carry the values their members have in a fresh object. \<open>Indet\<close> is an indeterminate
  value, such as an element of an array that has not been assigned.
\<close>

datatype val = VPrim prim | VSeq "val list" | VRec "val list" | Indet

datatype ty =
    TPrim prim_ty
  | TEnum prim_ty
  | TByte
  | TVar prim_ty
  | TSeq seq_kind ty
  | TOrd "val ord_kind" ty
  | TTuple "ty list"
  | TMembers "ty list" "val list"
  | TTagged "byte list" "ty list" "val list"

fun the_prim :: "val \<Rightarrow> prim result" where
  "the_prim (VPrim x) = Inr x"
| "the_prim _ = Inl (Undefined ReadIndeterminate)"

fun the_seq :: "val \<Rightarrow> val list result" where
  "the_seq (VSeq vs) = Inr vs"
| "the_seq _ = Inl (Undefined ReadIndeterminate)"

fun the_rec :: "val \<Rightarrow> val list result" where
  "the_rec (VRec vs) = Inr vs"
| "the_rec _ = Inl (Undefined ReadIndeterminate)"

text \<open>Memory layout and contiguity decide between bulk and element-wise transfer.\<close>

fun is_memory_layout :: "ty \<Rightarrow> bool" where
  "is_memory_layout (TPrim p) = True"
| "is_memory_layout TByte = True"
| "is_memory_layout _ = False"

text \<open>\<^verbatim>\<open>vector<bool>\<close> has no \<^verbatim>\<open>data()\<close>.\<close>

fun is_bool :: "ty \<Rightarrow> bool" where
  "is_bool (TPrim Bool1) = True"
| "is_bool _ = False"

fun contiguous_seq :: "seq_kind \<Rightarrow> ty \<Rightarrow> bool" where
  "contiguous_seq (SeqVec m) t = (\<not> is_bool t)"
| "contiguous_seq SeqList t = False"

fun contiguous_ord :: "'v ord_kind \<Rightarrow> bool" where
  "contiguous_ord (ArrayN init) = True"
| "contiguous_ord _ = False"

fun mem_size :: "ty \<Rightarrow> nat" where
  "mem_size (TPrim p) = size_of p"
| "mem_size TByte = 1"
| "mem_size _ = 0"

text \<open>The bytes of an indeterminate value are unspecified; the model takes zeros.\<close>

definition mem_of :: "ty \<Rightarrow> val \<Rightarrow> byte list" where
  "mem_of t v = (case v of VPrim x \<Rightarrow> prim_bytes x | _ \<Rightarrow> replicate (mem_size t) 0)"

fun elem_of_mem :: "ty \<Rightarrow> byte list \<Rightarrow> val" where
  "elem_of_mem (TPrim p) bs = VPrim (prim_of p bs)"
| "elem_of_mem _ bs = VPrim (P1 (of_mem bs))"

fun value_init :: "ty \<Rightarrow> val" where
  "value_init (TPrim p) = VPrim (prim_of p (replicate (size_of p) 0))"
| "value_init (TEnum p) = VPrim (prim_of p (replicate (size_of p) 0))"
| "value_init TByte = Indet"
| "value_init (TVar p) = VPrim (prim_of p (replicate (size_of p) 0))"
| "value_init (TSeq kind t) = VSeq []"
| "value_init (TOrd kind t) = VSeq (map (\<lambda>_. value_init t) (default_container kind))"
| "value_init (TTuple ts) = VRec (map value_init ts)"
| "value_init (TMembers ts init) = VRec init"
| "value_init (TTagged ids ts init) = VRec init"

section \<open>Variable-length integers of every width\<close>

fun write_var_prim :: "'w outstream \<Rightarrow> prim \<Rightarrow> 'w \<Rightarrow> 'w result" where
  "write_var_prim ops (P1 n) w = write_var_uint ops n w"
| "write_var_prim ops (P2 n) w = write_var_uint ops n w"
| "write_var_prim ops (P4 n) w = write_var_uint ops n w"
| "write_var_prim ops (P8 n) w = write_var_uint ops n w"
| "write_var_prim ops (P16 n) w = write_var_uint ops n w"

fun read_var_prim :: "'s instream \<Rightarrow> prim_ty \<Rightarrow> 's \<Rightarrow> (prim \<times> 's) result" where
  "read_var_prim ops Num2 s = rbind (read_var_uint ops s) (\<lambda>(n, s'). Inr (P2 n, s'))"
| "read_var_prim ops Num4 s = rbind (read_var_uint ops s) (\<lambda>(n, s'). Inr (P4 n, s'))"
| "read_var_prim ops Num8 s = rbind (read_var_uint ops s) (\<lambda>(n, s'). Inr (P8 n, s'))"
| "read_var_prim ops Num16 s = rbind (read_var_uint ops s) (\<lambda>(n, s'). Inr (P16 n, s'))"
| "read_var_prim ops Num1 s = rbind (read_var_uint ops s) (\<lambda>(n, s'). Inr (P1 n, s'))"
| "read_var_prim ops Bool1 s = rbind (read_var_bool ops s) (\<lambda>(n, s'). Inr (P1 n, s'))"

fun aot_var_prim :: "prim \<Rightarrow> 64 word" where
  "aot_var_prim (P1 n) = aot_size_vuint n"
| "aot_var_prim (P2 n) = aot_size_vuint n"
| "aot_var_prim (P4 n) = aot_size_vuint n"
| "aot_var_prim (P8 n) = aot_size_vuint n"
| "aot_var_prim (P16 n) = aot_size_vuint n"

fun prim_nat :: "prim \<Rightarrow> nat" where
  "prim_nat (P1 n) = unat n" | "prim_nat (P2 n) = unat n" | "prim_nat (P4 n) = unat n"
| "prim_nat (P8 n) = unat n" | "prim_nat (P16 n) = unat n"

section \<open>Sizes\<close>

fun fixed_size :: "ty \<Rightarrow> 64 word option" where
  "fixed_size (TPrim p) = Some (word_of_nat (size_of p))"
| "fixed_size (TEnum p) = Some (word_of_nat (size_of p))"
| "fixed_size TByte = Some 1"
| "fixed_size (TVar p) = None"
| "fixed_size (TSeq kind t) = None"
| "fixed_size (TOrd kind t) = None"
| "fixed_size (TTuple ts) = tuple_fixed_size (map fixed_size ts)"
| "fixed_size (TMembers ts init) = tuple_fixed_size (map fixed_size ts)"
| "fixed_size (TTagged ids ts init) = struct_fixed_size (map fixed_size ts)"

definition or_fixed :: "64 word option \<Rightarrow> 64 word \<Rightarrow> 64 word" where
  "or_fixed fixed n = (case fixed of Some k \<Rightarrow> k | None \<Rightarrow> n)"

definition aot_size_iterable :: "64 word option \<Rightarrow> (val \<Rightarrow> 64 word) \<Rightarrow> val list \<Rightarrow> 64 word" where
  "aot_size_iterable fixed aot vs =
     (case fixed of Some fs \<Rightarrow> aot_size_fixed_elems fs vs | None \<Rightarrow> aot_size_each_elem aot vs)"

definition elems_of :: "val \<Rightarrow> val list" where
  "elems_of v = (case v of VSeq vs \<Rightarrow> vs | VRec vs \<Rightarrow> vs | _ \<Rightarrow> [])"

fun aot_size :: "ty \<Rightarrow> val \<Rightarrow> 64 word" where
  "aot_size (TPrim p) = (\<lambda>v. word_of_nat (size_of p))"
| "aot_size (TEnum p) = (\<lambda>v. word_of_nat (size_of p))"
| "aot_size TByte = (\<lambda>v. 1)"
| "aot_size (TVar p) = (\<lambda>v. case v of VPrim x \<Rightarrow> aot_var_prim x | _ \<Rightarrow> 0)"
| "aot_size (TSeq kind t) = (\<lambda>v. aot_size_iterable (fixed_size t) (aot_size t) (elems_of v))"
| "aot_size (TOrd kind t) = (\<lambda>v. aot_size_iterable (fixed_size t) (aot_size t) (elems_of v))"
| "aot_size (TTuple ts) = (\<lambda>v. or_fixed (fixed_size (TTuple ts)) (tuple_aot_size (map aot_size ts) (elems_of v)))"
| "aot_size (TMembers ts init) = (\<lambda>v. or_fixed (fixed_size (TMembers ts init)) (tuple_aot_size (map aot_size ts) (elems_of v)))"
| "aot_size (TTagged ids ts init) = (\<lambda>v. or_fixed (fixed_size (TTagged ids ts init)) (struct_aot_size (map aot_size ts) (elems_of v)))"

section \<open>serialize\<close>

definition out_members ::
  "byte list \<Rightarrow> 64 word option list \<Rightarrow> ('v \<Rightarrow> 64 word) list \<Rightarrow> ('v \<Rightarrow> 'w \<Rightarrow> 'w result) list \<Rightarrow>
   ('v, 'w) out_member list" where
  "out_members ids fixeds aots sers =
     map (\<lambda>(i, f, a, s). \<lparr>om_id = i, om_fixed = f, om_aot = a, om_ser = s\<rparr>) (zip ids (zip fixeds (zip aots sers)))"

fun serialize :: "config \<Rightarrow> 'w outstream \<Rightarrow> ty \<Rightarrow> val \<Rightarrow> 'w \<Rightarrow> 'w result" where
  "serialize cfg ops (TPrim p) = (\<lambda>v w. rbind (the_prim v) (\<lambda>x. write_prim ops p x w))"
| "serialize cfg ops (TEnum p) = (\<lambda>v w. rbind (the_prim v) (\<lambda>x. serialize_enum ops p x w))"
| "serialize cfg ops TByte = (\<lambda>v w. rbind (the_prim v) (\<lambda>x. serialize_byte ops (hd (prim_bytes x)) w))"
| "serialize cfg ops (TVar p) = (\<lambda>v w. rbind (the_prim v) (\<lambda>x. write_var_prim ops x w))"
| "serialize cfg ops (TSeq kind t) = (\<lambda>v w. rbind (the_seq v) (\<lambda>vs.
     serialize_iterable cfg ops (is_memory_layout t \<and> contiguous_seq kind t) (mem_size t) (mem_of t)
       (serialize cfg ops t) vs w))"
| "serialize cfg ops (TOrd kind t) = (\<lambda>v w. rbind (the_seq v) (\<lambda>vs.
     serialize_iterable cfg ops (is_memory_layout t \<and> contiguous_ord kind) (mem_size t) (mem_of t)
       (serialize cfg ops t) vs w))"
| "serialize cfg ops (TTuple ts) = (\<lambda>v w. rbind (the_rec v) (\<lambda>vs.
     write_tuple (map (serialize cfg ops) ts) vs w))"
| "serialize cfg ops (TMembers ts init) = (\<lambda>v w. rbind (the_rec v) (\<lambda>vs.
     serialize_tuple (map (serialize cfg ops) ts) vs w))"
| "serialize cfg ops (TTagged ids ts init) = (\<lambda>v w. rbind (the_rec v) (\<lambda>vs.
     serialize_custom_struct ops
       (out_members ids (map fixed_size ts) (map aot_size ts) (map (serialize cfg ops) ts)) vs w))"

section \<open>parse\<close>

definition in_members ::
  "byte list \<Rightarrow> 64 word option list \<Rightarrow> ('s \<Rightarrow> ('v \<times> 's) result) list \<Rightarrow> ('v, 's) in_member list" where
  "in_members ids fixeds Ps =
     map (\<lambda>(i, f, P). \<lparr>im_id = i, im_fixed = f, im_parse = P\<rparr>) (zip ids (zip fixeds Ps))"

definition then_val :: "('a \<Rightarrow> val) \<Rightarrow> ('a \<times> 's) result \<Rightarrow> (val \<times> 's) result" where
  "then_val f r = rbind r (\<lambda>(x, s'). Inr (f x, s'))"

fun parse :: "config \<Rightarrow> 's instream \<Rightarrow> ty \<Rightarrow> 's \<Rightarrow> (val \<times> 's) result" where
  "parse cfg ops (TPrim p) = (\<lambda>s. then_val VPrim (read_prim ops p s))"
| "parse cfg ops (TEnum p) = (\<lambda>s. then_val VPrim (parse_enum ops p s))"
| "parse cfg ops TByte = (\<lambda>s. then_val (\<lambda>b. VPrim (P1 b)) (parse_byte ops s))"
| "parse cfg ops (TVar p) = (\<lambda>s. then_val VPrim (read_var_prim ops p s))"
| "parse cfg ops (TSeq kind t) = (\<lambda>s. then_val VSeq
     (parse_sequential cfg ops kind (contiguous_seq kind t \<and> is_memory_layout t) (mem_size t) (elem_of_mem t)
       (parse cfg ops t) s))"
| "parse cfg ops (TOrd kind t) = (\<lambda>s. then_val VSeq
     (parse_ignore_order ops kind (parse cfg ops t) s))"
| "parse cfg ops (TTuple ts) = (\<lambda>s. then_val VRec (read_tuple_continue (map (parse cfg ops) ts) [] s))"
| "parse cfg ops (TMembers ts init) = (\<lambda>s. then_val VRec (parse_tuple (map (parse cfg ops) ts) 0 init s))"
| "parse cfg ops (TTagged ids ts init) = (\<lambda>s. then_val VRec
     (parse_custom_struct_optimistic_for_large cfg ops
       (in_members ids (map fixed_size ts) (map (parse cfg ops) ts)) init s))"

section \<open>The format\<close>

definition apply_each :: "('a \<Rightarrow> 'b) list \<Rightarrow> 'a list \<Rightarrow> 'b list" where
  "apply_each fs vs = map (\<lambda>(f, v). f v) (zip fs vs)"

definition prim_val_bytes :: "val \<Rightarrow> byte list" where
  "prim_val_bytes v = (case v of VPrim x \<Rightarrow> prim_bytes x | _ \<Rightarrow> [])"

fun encode :: "ty \<Rightarrow> val \<Rightarrow> byte list" where
  "encode (TPrim p) = prim_val_bytes"
| "encode (TEnum p) = prim_val_bytes"
| "encode TByte = prim_val_bytes"
| "encode (TVar p) = (\<lambda>v. case v of VPrim x \<Rightarrow> vuint_bytes (prim_nat x) | _ \<Rightarrow> [])"
| "encode (TSeq kind t) = (\<lambda>v. vuint_bytes (length (elems_of v)) @ concat (map (encode t) (elems_of v)))"
| "encode (TOrd kind t) = (\<lambda>v. vuint_bytes (length (elems_of v)) @ concat (map (encode t) (elems_of v)))"
| "encode (TTuple ts) = (\<lambda>v. concat (apply_each (map encode ts) (elems_of v)))"
| "encode (TMembers ts init) = (\<lambda>v. concat (apply_each (map encode ts) (elems_of v)))"
| "encode (TTagged ids ts init) = (\<lambda>v. members_bytes ids (apply_each (map encode ts) (elems_of v)))"

text \<open>
  The types the templates accept and their values. The size functions have no overload for a
  struct or tuple with no member.
\<close>

fun wf_ty :: "ty \<Rightarrow> bool" where
  "wf_ty (TSeq kind t) = wf_ty t"
| "wf_ty (TOrd kind t) = wf_ty t"
| "wf_ty (TTuple ts) = (ts \<noteq> [] \<and> list_all wf_ty ts)"
| "wf_ty (TMembers ts init) = (ts \<noteq> [] \<and> length init = length ts \<and> list_all wf_ty ts)"
| "wf_ty (TTagged ids ts init) =
     (ts \<noteq> [] \<and> length init = length ts \<and> length ids = length ts \<and> good_ids ids \<and> list_all wf_ty ts)"
| "wf_ty _ = True"

fun has_type :: "ty \<Rightarrow> val \<Rightarrow> bool" where
  "has_type (TPrim p) = (\<lambda>v. case v of VPrim x \<Rightarrow> prim_has_type x p | _ \<Rightarrow> False)"
| "has_type (TEnum p) = (\<lambda>v. case v of VPrim x \<Rightarrow> prim_has_type x p | _ \<Rightarrow> False)"
| "has_type TByte = (\<lambda>v. case v of VPrim x \<Rightarrow> prim_has_type x Num1 | _ \<Rightarrow> False)"
| "has_type (TVar p) = (\<lambda>v. case v of VPrim x \<Rightarrow> prim_has_type x p | _ \<Rightarrow> False)"
| "has_type (TSeq kind t) = (\<lambda>v. case v of VSeq vs \<Rightarrow> fits kind (length vs) \<and> list_all (has_type t) vs | _ \<Rightarrow> False)"
| "has_type (TOrd kind t) = (\<lambda>v. case v of VSeq vs \<Rightarrow> ord_sorted kind vs \<and> list_all (has_type t) vs | _ \<Rightarrow> False)"
| "has_type (TTuple ts) = (\<lambda>v. case v of VRec vs \<Rightarrow>
     length vs = length ts \<and> list_all (\<lambda>b. b) (apply_each (map has_type ts) vs) | _ \<Rightarrow> False)"
| "has_type (TMembers ts init) = (\<lambda>v. case v of VRec vs \<Rightarrow>
     length vs = length ts \<and> list_all (\<lambda>b. b) (apply_each (map has_type ts) vs) | _ \<Rightarrow> False)"
| "has_type (TTagged ids ts init) = (\<lambda>v. case v of VRec vs \<Rightarrow>
     length vs = length ts \<and> list_all (\<lambda>b. b) (apply_each (map has_type ts) vs) | _ \<Rightarrow> False)"

section \<open>Whole objects in memory\<close>

definition serialize_to_string :: "config \<Rightarrow> ty \<Rightarrow> val \<Rightarrow> byte list result" where
  "serialize_to_string cfg t v =
     (let str = replicate (unat (aot_size t v)) 0
      in rbind (serialize cfg (crw_ops cfg) t v (char_range_writer_new str)) (\<lambda>w. Inr (w_mem w)))"

definition parse_from_string :: "config \<Rightarrow> ty \<Rightarrow> byte list \<Rightarrow> val result" where
  "parse_from_string cfg t str =
     rbind (parse cfg (crr_ops cfg) t (char_range_reader_new str)) (\<lambda>(v, r). Inr v)"

text \<open>
  A \<^verbatim>\<open>buffer\<close> is a vector of uninitialized bytes; \<open>junk\<close> is what they happen to hold.
\<close>

definition serialize_to_buffer :: "config \<Rightarrow> (nat \<Rightarrow> byte) \<Rightarrow> ty \<Rightarrow> val \<Rightarrow> byte list result" where
  "serialize_to_buffer cfg junk t v =
     (let buf = map junk [0..<unat (aot_size t v)]
      in rbind (serialize cfg (crw_ops cfg) t v (char_range_writer_new buf)) (\<lambda>w. Inr (w_mem w)))"

definition parse_from_buffer :: "config \<Rightarrow> ty \<Rightarrow> byte list \<Rightarrow> val result" where
  "parse_from_buffer cfg t buf =
     rbind (parse cfg (crr_ops cfg) t (char_range_reader_new buf)) (\<lambda>(v, r). Inr v)"

section \<open>parse_iterator and parse_all\<close>

text \<open>
  The iterator holds its stream or, at the end, nothing, and the last value parsed.
\<close>

record parse_iter =
  pi_live :: bool
  pi_value :: val

definition parse_iter_incr :: "config \<Rightarrow> 's instream \<Rightarrow> ty \<Rightarrow> parse_iter \<Rightarrow> 's \<Rightarrow> (parse_iter \<times> 's) result" where
  "parse_iter_incr cfg ops t it s =
     (if \<not> pi_live it then Inl (Undefined OutOfBounds)
      else rbind (peek_for_eof ops s) (\<lambda>(e, s').
        if e then Inr (it\<lparr>pi_live := False\<rparr>, s')
        else rbind (parse cfg ops t s') (\<lambda>(v, s''). Inr (it\<lparr>pi_value := v\<rparr>, s''))))"

definition parse_iter_begin :: "config \<Rightarrow> 's instream \<Rightarrow> ty \<Rightarrow> 's \<Rightarrow> (parse_iter \<times> 's) result" where
  "parse_iter_begin cfg ops t s =
     parse_iter_incr cfg ops t \<lparr>pi_live = True, pi_value = value_init t\<rparr> s"

text \<open>What a range-based \<^verbatim>\<open>for\<close> over \<^verbatim>\<open>parse_all(s)\<close> sees.\<close>

fun parse_iter_collect ::
  "nat \<Rightarrow> config \<Rightarrow> 's instream \<Rightarrow> ty \<Rightarrow> parse_iter \<Rightarrow> 's \<Rightarrow> (val list \<times> 's) result" where
  "parse_iter_collect 0 cfg ops t it s = Inl OutOfFuel"
| "parse_iter_collect (Suc k) cfg ops t it s =
     (if \<not> pi_live it then Inr ([], s)
      else rbind (parse_iter_incr cfg ops t it s) (\<lambda>(it', s').
        rbind (parse_iter_collect k cfg ops t it' s') (\<lambda>(vs, s''). Inr (pi_value it # vs, s''))))"

definition parse_all :: "config \<Rightarrow> 's instream \<Rightarrow> ty \<Rightarrow> 's \<Rightarrow> (val list \<times> 's) result" where
  "parse_all cfg ops t s =
     rbind (parse_iter_begin cfg ops t s) (\<lambda>(it, s'). parse_iter_collect (fuel cfg) cfg ops t it s')"

end
