(* ===== verification/PbssFacts.thy ===== *)
theory PbssFacts
  imports Pbss
begin

text \<open>
  The serializer against its format: the sizes are exact, the writer emits the format, the
  reader inverts it, and a truncated object is an early end of file. Every theorem is an
  induction over the types that hands each case to the component's lemma.
\<close>

section \<open>Records\<close>

lemma length_apply_each [simp]: "length (apply_each fs vs) = min (length fs) (length vs)"
  by (simp add: apply_each_def)

lemma nth_apply_each: "i < length fs \<Longrightarrow> i < length vs \<Longrightarrow> apply_each fs vs ! i = (fs ! i) (vs ! i)"
  by (simp add: apply_each_def)

lemma all_apply_each:
  "length vs = length ts \<Longrightarrow>
   list_all (\<lambda>b. b) (apply_each (map f ts) vs) \<longleftrightarrow> (\<forall>i < length ts. f (ts ! i) (vs ! i))"
  by (auto simp: list_all_length nth_apply_each)

definition rec_type :: "ty list \<Rightarrow> val list \<Rightarrow> bool" where
  "rec_type ts vs \<longleftrightarrow> length vs = length ts \<and> (\<forall>i < length ts. has_type (ts ! i) (vs ! i))"

lemma has_type_rec:
  "has_type (TTuple ts) v \<longleftrightarrow> (\<exists>vs. v = VRec vs \<and> rec_type ts vs)"
  "has_type (TMembers ts init) v \<longleftrightarrow> (\<exists>vs. v = VRec vs \<and> rec_type ts vs)"
  "has_type (TTagged ids ts init) v \<longleftrightarrow> (\<exists>vs. v = VRec vs \<and> rec_type ts vs)"
  by (cases v; auto simp: all_apply_each rec_type_def)+

lemma has_type_seq:
  "has_type (TSeq kind t) v \<longleftrightarrow> (\<exists>vs. v = VSeq vs \<and> fits kind (length vs) \<and> (\<forall>x \<in> set vs. has_type t x))"
  "has_type (TOrd okind t) v \<longleftrightarrow> (\<exists>vs. v = VSeq vs \<and> ord_sorted okind vs \<and> (\<forall>x \<in> set vs. has_type t x))"
  by (cases v; simp add: list_all_iff)+

lemma has_type_prim:
  "has_type (TPrim p) v \<longleftrightarrow> (\<exists>x. v = VPrim x \<and> prim_has_type x p)"
  "has_type (TEnum p) v \<longleftrightarrow> (\<exists>x. v = VPrim x \<and> prim_has_type x p)"
  "has_type (TVar p) v \<longleftrightarrow> (\<exists>x. v = VPrim x \<and> prim_has_type x p)"
  "has_type TByte v \<longleftrightarrow> (\<exists>b. v = VPrim (P1 b))"
proof -
  have "prim_has_type x Num1 \<longleftrightarrow> (\<exists>b. x = P1 b)" for x by (cases x) auto
  then show "has_type TByte v \<longleftrightarrow> (\<exists>b. v = VPrim (P1 b))" by (cases v) auto
qed (cases v; simp)+

lemmas has_type_cases = has_type_prim has_type_seq has_type_rec

declare has_type.simps [simp del]

definition enc_all :: "ty list \<Rightarrow> val list \<Rightarrow> byte list list" where
  "enc_all ts vs = apply_each (map encode ts) vs"

lemma length_enc_all [simp]: "rec_type ts vs \<Longrightarrow> length (enc_all ts vs) = length ts"
  by (simp add: enc_all_def rec_type_def)

lemma nth_enc_all: "rec_type ts vs \<Longrightarrow> i < length ts \<Longrightarrow> enc_all ts vs ! i = encode (ts ! i) (vs ! i)"
  by (simp add: enc_all_def rec_type_def nth_apply_each)

lemma encode_rec:
  "encode (TTuple ts) (VRec vs) = concat (enc_all ts vs)"
  "encode (TMembers ts init) (VRec vs) = concat (enc_all ts vs)"
  "encode (TTagged ids ts init) (VRec vs) = members_bytes ids (enc_all ts vs)"
  by (simp_all add: enc_all_def elems_of_def)

lemma encode_seq:
  "encode (TSeq kind t) (VSeq vs) = vuint_bytes (length vs) @ concat (map (encode t) vs)"
  "encode (TOrd okind t) (VSeq vs) = vuint_bytes (length vs) @ concat (map (encode t) vs)"
  by (simp_all add: elems_of_def)

declare encode.simps(5-9) [simp del]
declare encode_seq [simp] encode_rec [simp]

section \<open>The parts of an encoding are no longer than the whole\<close>

lemma length_concat_ge: "x \<in> set xss \<Longrightarrow> length x \<le> length (concat xss)"
  by (auto simp: length_concat intro: member_le_sum_list)

lemma length_members_ge:
  assumes "length ids = length bss" and "i < length bss"
  shows "length (bss ! i) \<le> length (members_bytes ids bss)"
proof -
  let ?f = "\<lambda>(tid, bs). tid # vuint_bytes (length bs) @ bs"
  have "?f (ids ! i, bss ! i) \<in> set (map ?f (zip ids bss))"
    using assms by (metis (no_types, lifting) length_map length_zip min.idem nth_map nth_mem nth_zip)
  from length_concat_ge [OF this] show ?thesis by (simp add: members_bytes_def)
qed

lemma list_all_nth: "list_all P xs \<Longrightarrow> i < length xs \<Longrightarrow> P (xs ! i)"
  by (simp add: list_all_length)

lemma prim_bytes_ne: "prim_has_type x p \<Longrightarrow> prim_bytes x \<noteq> []"
  using length_prim_bytes [of x p] size_of_bounds(1) [of p] by (metis list.size(3) less_irrefl)

lemma encode_ne: "wf_ty t \<Longrightarrow> has_type t v \<Longrightarrow> encode t v \<noteq> []"
proof (induction t arbitrary: v)
  case (TPrim p)
  then show ?case by (auto simp: has_type_cases prim_val_bytes_def prim_bytes_ne)
next
  case (TEnum p)
  then show ?case by (auto simp: has_type_cases prim_val_bytes_def prim_bytes_ne)
next
  case (TTuple ts)
  then obtain vs where v: "v = VRec vs" "rec_type ts vs" by (auto simp: has_type_cases)
  have 0: "0 < length ts" using TTuple.prems by simp
  then have "encode (ts ! 0) (vs ! 0) \<noteq> []"
    using TTuple v by (intro TTuple.IH) (auto simp: rec_type_def list_all_iff)
  moreover have "enc_all ts vs ! 0 \<in> set (enc_all ts vs)" using v 0 by (intro nth_mem) simp
  ultimately show ?case using v 0 by (auto simp only: encode_rec nth_enc_all concat_eq_Nil_conv)
next
  case (TMembers ts init)
  then obtain vs where v: "v = VRec vs" "rec_type ts vs" by (auto simp: has_type_cases)
  have 0: "0 < length ts" using TMembers.prems by simp
  then have "encode (ts ! 0) (vs ! 0) \<noteq> []"
    using TMembers v by (intro TMembers.IH) (auto simp: rec_type_def list_all_iff)
  moreover have "enc_all ts vs ! 0 \<in> set (enc_all ts vs)" using v 0 by (intro nth_mem) simp
  ultimately show ?case using v 0 by (auto simp only: encode_rec nth_enc_all concat_eq_Nil_conv)
qed (auto simp: has_type_cases encode_seq members_bytes_def prim_val_bytes_def)

lemma count_le_length:
  assumes "\<And>x. x \<in> set xs \<Longrightarrow> f x \<noteq> []"
  shows "length xs \<le> length (concat (map f xs))"
  using assms
proof (induction xs)
  case (Cons x xs)
  then have "length xs \<le> length (concat (map f xs))" "f x \<noteq> []" by simp_all
  moreover from this(2) have "Suc 0 \<le> length (f x)" by (cases "f x") simp_all
  ultimately show ?case by (simp only: list.map concat.simps length_append list.size)
qed simp

definition encodable :: "ty \<Rightarrow> val \<Rightarrow> bool" where
  "encodable t v \<longleftrightarrow> wf_ty t \<and> has_type t v \<and> length (encode t v) < 2 ^ 63"

lemma encodable_seq:
  assumes "encodable (TSeq kind t) (VSeq vs) \<or> encodable (TOrd okind t) (VSeq vs)"
  shows "length vs < 2 ^ 63" and "length (concat (map (encode t) vs)) < 2 ^ 63"
    and "x \<in> set vs \<Longrightarrow> encodable t x"
proof -
  have wf: "wf_ty t" and ty: "\<forall>x \<in> set vs. has_type t x"
    using assms by (auto simp: encodable_def has_type_cases)
  show len: "length (concat (map (encode t) vs)) < 2 ^ 63"
    using assms by (auto simp: encodable_def encode_seq)
  show "length vs < 2 ^ 63"
    using count_le_length [of vs "encode t"] encode_ne [OF wf] ty len by force
  show "x \<in> set vs \<Longrightarrow> encodable t x"
    using wf ty len length_concat_ge [of "encode t x" "map (encode t) vs"] by (auto simp: encodable_def)
qed

lemma encodable_rec:
  assumes "encodable (TTuple ts) (VRec vs) \<or> encodable (TMembers ts init) (VRec vs) \<or>
      encodable (TTagged ids ts init) (VRec vs)"
  shows "rec_type ts vs" and "i < length ts \<Longrightarrow> encodable (ts ! i) (vs ! i)"
proof -
  show r: "rec_type ts vs" using assms by (auto simp: encodable_def has_type_cases)
  assume i: "i < length ts"
  have wf: "wf_ty (ts ! i)" using assms i by (auto simp: encodable_def list_all_length)
  have m: "enc_all ts vs ! i \<in> set (enc_all ts vs)" using r i by (intro nth_mem) simp
  have "length (enc_all ts vs ! i) < 2 ^ 63"
  proof (cases "encodable (TTagged ids ts init) (VRec vs)")
    case True
    then have "length ids = length ts" by (simp add: encodable_def)
    with length_members_ge [of ids "enc_all ts vs" i] True r i show ?thesis
      by (simp add: encodable_def encode_rec)
  next
    case False
    with length_concat_ge [OF m] assms r show ?thesis
      by (auto simp: encodable_def encode_rec)
  qed
  with wf r i show "encodable (ts ! i) (vs ! i)"
    by (simp add: encodable_def nth_enc_all) (simp add: rec_type_def)
qed

section \<open>The sizes are exact\<close>

lemma encodable_unat: "encodable t v \<Longrightarrow> unat (word_of_nat (length (encode t v)) :: 64 word) = length (encode t v)"
  by (rule unat_of_length) (simp add: encodable_def)

lemma aot_var_prim_eq: "aot_var_prim x = word_of_nat (length (vuint_bytes (prim_nat x)))"
  by (cases x) (simp_all add: aot_size_vuint_eq)

lemma tuple_fixed:
  assumes "rec_type ts vs" and "tuple_fixed_size (map fixed_size ts) = Some n"
    and IH: "\<And>i k. i < length ts \<Longrightarrow> fixed_size (ts ! i) = Some k \<Longrightarrow> k = word_of_nat (length (encode (ts ! i) (vs ! i)))"
  shows "n = word_of_nat (length (concat (enc_all ts vs)))"
  by (rule tuple_fixed_size_Some [OF assms(2)]) (use assms(1) IH in \<open>auto simp: nth_enc_all\<close>)

lemma fixed_size_exact:
  "encodable t v \<Longrightarrow> fixed_size t = Some n \<Longrightarrow> n = word_of_nat (length (encode t v))"
proof (induction t arbitrary: v n)
  case (TTuple ts)
  then obtain vs where v: "v = VRec vs" "rec_type ts vs" by (auto simp: encodable_def has_type_cases)
  then show ?case using TTuple.prems encodable_rec(2) [of ts vs] TTuple.IH
    by (auto simp: encode_rec intro!: tuple_fixed)
next
  case (TMembers ts init)
  then obtain vs where v: "v = VRec vs" "rec_type ts vs" by (auto simp: encodable_def has_type_cases)
  then show ?case using TMembers.prems encodable_rec(2) [of ts vs init] TMembers.IH
    by (auto simp: encode_rec intro!: tuple_fixed)
next
  case (TTagged ids ts init)
  then obtain vs where v: "v = VRec vs" "rec_type ts vs" by (auto simp: encodable_def has_type_cases)
  have e: "encodable (ts ! i) (vs ! i)" if "i < length ts" for i
    using TTagged.prems encodable_rec(2) [of ts vs init ids] that v by blast
  have "n = word_of_nat (length (members_bytes ids (enc_all ts vs)))"
  proof (rule struct_fixed_size_Some)
    fix i f assume i: "i < length (map fixed_size ts)" "map fixed_size ts ! i = Some f"
    then have "f = word_of_nat (length (encode (ts ! i) (vs ! i)))" using TTagged.IH e by simp
    then show "unat f = length (enc_all ts vs ! i)"
      using i v by (simp only: encodable_unat [OF e] nth_enc_all length_map)
  qed (use TTagged.prems v in \<open>auto simp: encodable_def\<close>)
  then show ?case by (simp only: v encode_rec)
qed (auto simp: encodable_def has_type_cases prim_val_bytes_def)

lemma aot_size_iterable_eq:
  assumes "length vs < 2 ^ 63" and "\<And>x. x \<in> set vs \<Longrightarrow> encodable t x"
    and "\<And>x. x \<in> set vs \<Longrightarrow> aot_size t x = word_of_nat (length (encode t x))"
  shows "aot_size_iterable (fixed_size t) (aot_size t) vs =
    word_of_nat (length (vuint_bytes (length vs) @ concat (map (encode t) vs)))"
proof (cases "fixed_size t")
  case None
  then show ?thesis
    using aot_size_each_elem_eq [of vs "aot_size t" "encode t"] assms by (simp add: aot_size_iterable_def)
next
  case (Some n)
  then show ?thesis
    using aot_size_fixed_elems_eq [of vs n "encode t"] assms fixed_size_exact
    by (simp add: aot_size_iterable_def)
qed

lemma tuple_aot:
  assumes "rec_type ts vs"
    and "\<And>i. i < length ts \<Longrightarrow> aot_size (ts ! i) (vs ! i) = word_of_nat (length (encode (ts ! i) (vs ! i)))"
  shows "tuple_aot_size (map aot_size ts) vs = word_of_nat (length (concat (enc_all ts vs)))"
  by (rule tuple_aot_size_eq) (use assms in \<open>auto simp: nth_enc_all rec_type_def\<close>)

lemma aot_size_exact: "encodable t v \<Longrightarrow> aot_size t v = word_of_nat (length (encode t v))"
proof (induction t arbitrary: v)
  case (TSeq kind t)
  then obtain vs where v: "v = VSeq vs" by (auto simp: encodable_def has_type_cases)
  note e = encodable_seq [OF disjI1 [OF TSeq.prems [unfolded v]]]
  show ?case using aot_size_iterable_eq [OF e(1,3) TSeq.IH] e(3) by (simp add: v elems_of_def)
next
  case (TOrd kind t)
  then obtain vs where v: "v = VSeq vs" by (auto simp: encodable_def has_type_cases)
  note e = encodable_seq [OF disjI2 [OF TOrd.prems [unfolded v]]]
  show ?case using aot_size_iterable_eq [OF e(1,3) TOrd.IH] e(3) by (simp add: v elems_of_def)
next
  case (TTuple ts)
  then obtain vs where v: "v = VRec vs" "rec_type ts vs" by (auto simp: encodable_def has_type_cases)
  have e: "encodable (ts ! i) (vs ! i)" if "i < length ts" for i
    using TTuple.prems encodable_rec(2) [of ts vs] that v by blast
  then have t: "tuple_aot_size (map aot_size ts) vs = word_of_nat (length (concat (enc_all ts vs)))"
    using TTuple.IH by (intro tuple_aot v) auto
  show ?case
    using fixed_size_exact [OF TTuple.prems] t
    by (cases "fixed_size (TTuple ts)") (simp_all add: or_fixed_def v encode_rec elems_of_def)
next
  case (TMembers ts init)
  then obtain vs where v: "v = VRec vs" "rec_type ts vs" by (auto simp: encodable_def has_type_cases)
  have e: "encodable (ts ! i) (vs ! i)" if "i < length ts" for i
    using TMembers.prems encodable_rec(2) [of ts vs init] that v by blast
  then have t: "tuple_aot_size (map aot_size ts) vs = word_of_nat (length (concat (enc_all ts vs)))"
    using TMembers.IH by (intro tuple_aot v) auto
  show ?case
    using fixed_size_exact [OF TMembers.prems] t
    by (cases "fixed_size (TMembers ts init)") (simp_all add: or_fixed_def v encode_rec elems_of_def)
next
  case (TTagged ids ts init)
  then obtain vs where v: "v = VRec vs" "rec_type ts vs" by (auto simp: encodable_def has_type_cases)
  have e: "encodable (ts ! i) (vs ! i)" if "i < length ts" for i
    using TTagged.prems encodable_rec(2) [of ts vs init ids] that v by blast
  have t: "struct_aot_size (map aot_size ts) vs = word_of_nat (length (members_bytes ids (enc_all ts vs)))"
  proof (rule struct_aot_size_eq)
    fix i assume "i < length vs"
    then have i: "i < length ts" using v by (simp add: rec_type_def)
    show "unat ((map aot_size ts ! i) (vs ! i)) = length (enc_all ts vs ! i)"
      using TTagged.IH [OF nth_mem e, OF i i] i v
      by (simp only: nth_map nth_enc_all encodable_unat [OF e])
  qed (use TTagged.prems v in \<open>auto simp: encodable_def rec_type_def\<close>)
  show ?case
    using fixed_size_exact [OF TTagged.prems] t
    by (cases "fixed_size (TTagged ids ts init)") (simp_all only: or_fixed_def v encode_rec elems_of_def aot_size.simps option.case val.case)
qed (auto simp: encodable_def has_type_cases aot_var_prim_eq prim_val_bytes_def)

section \<open>serialize emits the format\<close>

lemma the_simps_rec: "rbind (the_rec (VRec vs)) f = f vs" "rbind (the_seq (VSeq vs)) f = f vs"
  by simp_all

lemma length_out_members:
  "length ids = n \<Longrightarrow> length fixeds = n \<Longrightarrow> length aots = n \<Longrightarrow> length sers = n \<Longrightarrow>
   length (out_members ids fixeds aots sers) = n"
  by (simp add: out_members_def)

lemma nth_out_members:
  "length ids = n \<Longrightarrow> length fixeds = n \<Longrightarrow> length aots = n \<Longrightarrow> length sers = n \<Longrightarrow> i < n \<Longrightarrow>
   out_members ids fixeds aots sers ! i =
     \<lparr>om_id = ids ! i, om_fixed = fixeds ! i, om_aot = aots ! i, om_ser = sers ! i\<rparr>"
  by (simp add: out_members_def)

lemma length_in_members:
  "length ids = n \<Longrightarrow> length fixeds = n \<Longrightarrow> length Ps = n \<Longrightarrow> length (in_members ids fixeds Ps) = n"
  by (simp add: in_members_def)

lemma nth_in_members:
  "length ids = n \<Longrightarrow> length fixeds = n \<Longrightarrow> length Ps = n \<Longrightarrow> i < n \<Longrightarrow>
   in_members ids fixeds Ps ! i = \<lparr>im_id = ids ! i, im_fixed = fixeds ! i, im_parse = Ps ! i\<rparr>"
  by (simp add: in_members_def)

lemma in_members_ids:
  "length ids = n \<Longrightarrow> length fixeds = n \<Longrightarrow> length Ps = n \<Longrightarrow> map im_id (in_members ids fixeds Ps) = ids"
  by (rule nth_equalityI) (simp_all add: length_in_members nth_in_members)

lemma out_members_ids:
  "length ids = n \<Longrightarrow> length fixeds = n \<Longrightarrow> length aots = n \<Longrightarrow> length sers = n \<Longrightarrow>
   map om_id (out_members ids fixeds aots sers) = ids"
  by (rule nth_equalityI) (simp_all add: length_out_members nth_out_members)

definition member_enc :: "ty list \<Rightarrow> nat \<Rightarrow> val \<Rightarrow> byte list" where
  "member_enc ts i v = encode (ts ! i) v"

lemma struct_bytes_encode:
  assumes "rec_type ts vs" and "length ids = length ts"
  shows "struct_bytes ids (member_enc ts) (canonical 0 vs) = members_bytes ids (enc_all ts vs)"
proof -
  have "map (\<lambda>j. member_enc ts (0 + j) (vs ! j)) [0..<length vs] = enc_all ts vs"
    using assms by (intro nth_equalityI) (auto simp: member_enc_def nth_enc_all rec_type_def)
  then show ?thesis
    using struct_bytes_canonical [of ids 0 vs "member_enc ts"] assms by (simp add: rec_type_def)
qed

lemma mem_of_elem:
  "is_memory_layout t \<Longrightarrow> has_type t v \<Longrightarrow> encode t v = mem_of t v \<and> length (mem_of t v) = mem_size t"
  by (cases t) (auto simp: has_type_cases prim_val_bytes_def mem_of_def)

lemma bulk_size:
  assumes "is_memory_layout t" and "\<And>x. x \<in> set vs \<Longrightarrow> encodable t x"
    and "length (concat (map (encode t) vs)) < 2 ^ 63"
  shows "mem_size t * length vs < 2 ^ 63"
    and "x \<in> set vs \<Longrightarrow> encode t x = mem_of t x \<and> length (mem_of t x) = mem_size t"
proof -
  show m: "x \<in> set vs \<Longrightarrow> encode t x = mem_of t x \<and> length (mem_of t x) = mem_size t" for x
    using assms(1,2) mem_of_elem by (auto simp: encodable_def)
  then show "mem_size t * length vs < 2 ^ 63"
    using concat_length_const [of vs "encode t" "mem_size t"] assms(3) by simp
qed

context output_stream begin

lemma emits_var_prim: "emits ok out cap (write_var_prim ops x) (vuint_bytes (prim_nat x))"
  by (cases x) (simp_all add: write_var_prim.simps [abs_def] emits_write_var_uint)

lemma emits_serialize: "encodable t v \<Longrightarrow> emits ok out cap (serialize cfg ops t v) (encode t v)"
proof (induction t arbitrary: v)
  case (TPrim p)
  then show ?case using emits_write_prim by (auto simp: encodable_def has_type_cases prim_val_bytes_def)
next
  case (TEnum p)
  then show ?case using emits_write_prim
    by (auto simp: encodable_def has_type_cases prim_val_bytes_def serialize_enum_def)
next
  case TByte
  then obtain b where "v = VPrim (P1 b)" by (auto simp: encodable_def has_type_cases)
  then show ?case using emits_write_prim [of "P1 b" Num1]
    by (simp add: prim_val_bytes_def serialize_byte_def)
next
  case (TVar p)
  then show ?case using emits_var_prim by (auto simp: encodable_def has_type_cases)
next
  case (TSeq kind t)
  then obtain vs where v: "v = VSeq vs" by (auto simp: encodable_def has_type_cases)
  note e = encodable_seq [OF disjI1 [OF TSeq.prems [unfolded v]]]
  show ?case unfolding v serialize.simps the_simps_rec encode_seq
    by (rule emits_serialize_iterable) (use e bulk_size [OF _ e(3,2)] TSeq.IH in auto)
next
  case (TOrd kind t)
  then obtain vs where v: "v = VSeq vs" by (auto simp: encodable_def has_type_cases)
  note e = encodable_seq [OF disjI2 [OF TOrd.prems [unfolded v]]]
  show ?case unfolding v serialize.simps the_simps_rec encode_seq
    by (rule emits_serialize_iterable) (use e bulk_size [OF _ e(3,2)] TOrd.IH in auto)
next
  case (TTuple ts)
  then obtain vs where v: "v = VRec vs" "rec_type ts vs" by (auto simp: encodable_def has_type_cases)
  have e: "encodable (ts ! i) (vs ! i)" if "i < length ts" for i
    using TTuple.prems encodable_rec(2) [of ts vs] that v by blast
  show ?case unfolding v serialize.simps the_simps_rec encode_rec
    by (rule emits_write_tuple)
      (use v e TTuple.IH in \<open>auto simp: list_all2_conv_all_nth nth_enc_all rec_type_def [of ts vs]\<close>)
next
  case (TMembers ts init)
  then obtain vs where v: "v = VRec vs" "rec_type ts vs" by (auto simp: encodable_def has_type_cases)
  have e: "encodable (ts ! i) (vs ! i)" if "i < length ts" for i
    using TMembers.prems encodable_rec(2) [of ts vs init] that v by blast
  show ?case unfolding v serialize.simps the_simps_rec encode_rec serialize_tuple_write_tuple
    by (rule emits_write_tuple)
      (use v e TMembers.IH in \<open>auto simp: list_all2_conv_all_nth nth_enc_all rec_type_def [of ts vs]\<close>)
next
  case (TTagged ids ts init)
  then obtain vs where v: "v = VRec vs" "rec_type ts vs" by (auto simp: encodable_def has_type_cases)
  have len: "length ids = length ts" "length vs = length ts"
    using TTagged.prems v by (auto simp: encodable_def rec_type_def)
  have e: "encodable (ts ! i) (vs ! i)" if "i < length ts" for i
    using TTagged.prems encodable_rec(2) [of ts vs init ids] that v by blast
  let ?ms = "out_members ids (map fixed_size ts) (map aot_size ts) (map (serialize cfg ops) ts)"
  have "emits ok out cap (serialize_custom_struct ops ?ms vs) (struct_bytes ids (member_enc ts) (canonical 0 vs))"
  proof (rule emits_custom_struct)
    fix j assume "j < length vs"
    then have j: "j < length ts" using len by simp
    have "unat k = length (encode (ts ! j) (vs ! j))" if "fixed_size (ts ! j) = Some k" for k
      using fixed_size_exact [OF e [OF j] that] encodable_unat [OF e [OF j]] by simp
    then show "good_out_member (?ms ! j) (vs ! j) (member_enc ts (0 + j) (vs ! j))"
      using j len TTagged.IH [OF nth_mem e, OF j j] aot_size_exact [OF e [OF j]] encodable_unat [OF e [OF j]]
      by (simp add: good_out_member_def nth_out_members [where n = "length ts"] member_enc_def)
  qed (use len in \<open>simp_all add: length_out_members [where n = "length ts"] out_members_ids [where n = "length ts"]\<close>)
  then show ?case
    unfolding v serialize.simps the_simps_rec encode_rec struct_bytes_encode [OF v(2) len(1)] .
qed

end

section \<open>parse inverts serialize\<close>

definition fuel_enough :: "config \<Rightarrow> bool" where
  "fuel_enough cfg \<longleftrightarrow> 256 \<le> fuel cfg"

lemma distinct_ids_length: "good_ids ids \<Longrightarrow> length ids < 256"
proof -
  assume g: "good_ids ids"
  have "length (0 # ids) = card (set (0 # ids))"
    using g by (intro distinct_card [symmetric]) (simp add: good_ids_def)
  also have "\<dots> \<le> card (UNIV :: byte set)" by (rule card_mono) simp_all
  finally show ?thesis by (simp add: card_word)
qed

lemma pending_canonical: "pending i (canonical i vs)"
proof -
  have "List.map_filter known_index (canonical i vs) = [i..<i + length vs]"
  proof (induction vs arbitrary: i)
    case (Cons v vs)
    then show ?case using upt_conv_Cons [of i "i + length (v # vs)"] by (simp add: map_filter_simps)
  qed (simp add: map_filter_simps)
  then show ?thesis by (simp add: pending_def)
qed

lemma elem_of_mem_encode:
  "is_memory_layout t \<Longrightarrow> t \<noteq> TPrim Bool1 \<Longrightarrow> has_type t v \<Longrightarrow>
   elem_of_mem t (encode t v) = v \<and> length (encode t v) = mem_size t"
  using of_mem_mem_bytes [where 'a = 8]
  by (cases t) (auto simp: has_type_cases prim_val_bytes_def prim_of_bytes)

lemma contiguous_not_bool: "contiguous_seq kind t \<Longrightarrow> t \<noteq> TPrim Bool1"
  by (cases kind) auto

lemma then_val_eq: "then_val f r = rbind r (\<lambda>(x, s'). Inr (f x, s'))"
  by (simp add: then_val_def)

context input_stream begin

lemma parses_then_val: "parses ok rem P x bs \<Longrightarrow> parses ok rem (\<lambda>s. then_val f (P s)) (f x) bs"
  unfolding then_val_def by (rule parses_map)

lemma parses_var_prim:
  assumes "prim_has_type x p"
  shows "parses ok rem (read_var_prim ops p) x (vuint_bytes (prim_nat x))"
proof -
  have "parses ok rem (read_var_uint ops) n (vuint_bytes (unat n))" for n :: "'b::len word"
    using parses_read_var_uint [of "unat n", where 'a = 'b] by simp
  from parses_map [OF this] parses_map [OF parses_read_var_bool, of _ P1] show ?thesis
    using assms by (cases x; cases p) (simp_all add: parses_def)
qed

lemma parses_parse:
  assumes fuel: "fuel_enough cfg"
  shows "encodable t v \<Longrightarrow> parses ok rem (parse cfg ops t) v (encode t v)"
proof (induction t arbitrary: v)
  case (TPrim p)
  then show ?case using parses_then_val [OF parses_read_prim]
    by (auto simp: encodable_def has_type_cases prim_val_bytes_def)
next
  case (TEnum p)
  then show ?case using parses_then_val [OF parses_read_prim]
    by (auto simp: encodable_def has_type_cases prim_val_bytes_def parse_enum_def)
next
  case TByte
  then obtain b where "v = VPrim (P1 b)" by (auto simp: encodable_def has_type_cases)
  then show ?case
    using parses_then_val [OF parses_map [OF parses_read_prim [of "P1 b" Num1], of "\<lambda>p. hd (prim_bytes p)"], of "\<lambda>b. VPrim (P1 b)"]
    by (simp add: prim_val_bytes_def parse_byte_def)
next
  case (TVar p)
  then show ?case using parses_then_val [OF parses_var_prim]
    by (auto simp: encodable_def has_type_cases)
next
  case (TSeq kind t)
  then obtain vs where v: "v = VSeq vs" "fits kind (length vs)" by (auto simp: encodable_def has_type_cases)
  note e = encodable_seq [OF disjI1 [OF TSeq.prems [unfolded v]]]
  have elem: "elem_of_mem t (encode t x) = x \<and> length (encode t x) = mem_size t"
    if "contiguous_seq kind t" "is_memory_layout t" "x \<in> set vs" for x
    using elem_of_mem_encode [OF that(2) contiguous_not_bool [OF that(1)]] e(3) [OF that(3)]
    by (simp add: encodable_def)
  show ?case unfolding v parse.simps encode_seq
    by (rule parses_then_val, rule parses_sequential)
      (use v e(1) TSeq.IH [OF e(3)] bulk_size(1) [OF _ e(3,2)] elem in auto)
next
  case (TOrd kind t)
  then obtain vs where v: "v = VSeq vs" "ord_sorted kind vs" by (auto simp: encodable_def has_type_cases)
  note e = encodable_seq [OF disjI2 [OF TOrd.prems [unfolded v]]]
  show ?case unfolding v parse.simps encode_seq
    by (rule parses_then_val, rule parses_ignore_order) (use v e TOrd.IH in auto)
next
  case (TTuple ts)
  then obtain vs where v: "v = VRec vs" "rec_type ts vs" by (auto simp: encodable_def has_type_cases)
  have e: "encodable (ts ! i) (vs ! i)" if "i < length ts" for i
    using TTuple.prems encodable_rec(2) [of ts vs] that v by blast
  have "parses ok rem (read_tuple_continue (map (parse cfg ops) ts) []) ([] @ vs) (concat (enc_all ts vs))"
    by (rule parses_read_tuple)
      (use v e TTuple.IH in \<open>auto simp: list_all2_conv_all_nth nth_enc_all rec_type_def [of ts vs]\<close>)
  then show ?case unfolding v parse.simps encode_rec by (intro parses_then_val) simp
next
  case (TMembers ts init)
  then obtain vs where v: "v = VRec vs" "rec_type ts vs" by (auto simp: encodable_def has_type_cases)
  have i: "length init = length (map (parse cfg ops) ts)" using TMembers.prems by (simp add: encodable_def)
  have e: "encodable (ts ! i) (vs ! i)" if "i < length ts" for i
    using TMembers.prems encodable_rec(2) [of ts vs init] that v by blast
  have "parses ok rem (read_tuple_continue (map (parse cfg ops) ts) []) ([] @ vs) (concat (enc_all ts vs))"
    by (rule parses_read_tuple)
      (use v e TMembers.IH in \<open>auto simp: list_all2_conv_all_nth nth_enc_all rec_type_def [of ts vs]\<close>)
  then show ?case unfolding v parse.simps encode_rec parse_tuple_eq [OF i] by (intro parses_then_val) simp
next
  case (TTagged ids ts init)
  then obtain vs where v: "v = VRec vs" "rec_type ts vs" by (auto simp: encodable_def has_type_cases)
  have len: "length ids = length ts" "length vs = length ts" "length init = length vs" and ids: "good_ids ids"
    using TTagged.prems v by (auto simp: encodable_def rec_type_def)
  let ?ms = "in_members ids (map fixed_size ts) (map (parse cfg ops) ts)"
  have mids: "map im_id ?ms = ids" using len by (intro in_members_ids) simp_all
  have e: "encodable (ts ! i) (vs ! i)" if "i < length ts" for i
    using TTagged.prems encodable_rec(2) [of ts vs init ids] that v by blast
  have "good_field ?ms (member_enc ts) f" if "f \<in> set (canonical 0 vs)" for f
  proof -
    from that obtain j where j: "j < length ts" "f = Known j (vs ! j)" by (auto simp: set_canonical len)
    have "unat k = length (encode (ts ! j) (vs ! j))" if "fixed_size (ts ! j) = Some k" for k
      using fixed_size_exact [OF e [OF j(1)] that] encodable_unat [OF e [OF j(1)]] by simp
    then show ?thesis using j len TTagged.IH [OF nth_mem e, OF j(1) j(1)] e [OF j(1)]
      by (simp add: good_field_def length_in_members nth_in_members [where n = "length ts"] member_enc_def encodable_def)
  qed
  then have "parses ok rem (parse_custom_struct_optimistic_for_large cfg ops ?ms init)
      (apply_fields (canonical 0 vs) init) (struct_bytes (map im_id ?ms) (member_enc ts) (canonical 0 vs))"
    using ids fuel distinct_ids_length [OF ids] len
    by (intro parses_optimistic_for_large pending_canonical) (simp_all add: mids fuel_enough_def)
  then show ?case
    unfolding v parse.simps encode_rec mids struct_bytes_encode [OF v(2) len(1)]
    using apply_canonical [of init vs "[]"] len by (intro parses_then_val) simp
qed

end

end
