(* ===== verification/PbssTheorems.thy ===== *)
theory PbssTheorems
  imports PbssFacts
begin

text \<open>
  The serializer's properties on whole objects: truncation, schema evolution of tagged
  structs, strings and buffers in memory, and iteration over a stream of objects.
\<close>

section \<open>A truncated object is an early end of file\<close>

context ending_stream begin

lemma starved_then_val: "starved P bs \<Longrightarrow> starved (\<lambda>s. then_val f (P s)) bs"
  unfolding then_val_def by (rule starves_map)

lemma starved_var_prim:
  assumes "prim_has_type x p"
  shows "starved (read_var_prim ops p) (vuint_bytes (prim_nat x))"
proof -
  have "starved (read_var_uint ops :: 's \<Rightarrow> ('b word \<times> 's) result) (vuint_bytes (unat n))" for n :: "'b::len word"
    using starves_read_var_uint [of "unat n", where 'a = 'b] by simp
  from starves_map [OF this] starves_map [OF starves_read_var_bool, of _ P1] show ?thesis
    using assms by (cases x; cases p) (simp_all add: starves_def)
qed

lemma starved_rec:
  assumes "rec_type ts vs" and "ts \<noteq> []"
    and "\<And>i. i < length ts \<Longrightarrow> parses ok rem (Ps ! i) (vs ! i) (encode (ts ! i) (vs ! i))"
    and "\<And>i. i < length ts \<Longrightarrow> starved (Ps ! i) (encode (ts ! i) (vs ! i))" and "length Ps = length ts"
  shows "starved (read_tuple_continue Ps []) (concat (enc_all ts vs))"
  by (rule starves_read_tuple [where vs = vs])
    (use assms in \<open>auto simp: list_all2_conv_all_nth nth_enc_all rec_type_def [of ts vs]\<close>)

lemma starved_parse:
  assumes fuel: "fuel_enough cfg"
  shows "encodable t v \<Longrightarrow> starved (parse cfg ops t) (encode t v)"
proof (induction t arbitrary: v)
  case (TPrim p)
  then show ?case using starved_then_val [OF starves_read_prim]
    by (auto simp: encodable_def has_type_cases prim_val_bytes_def)
next
  case (TEnum p)
  then show ?case using starved_then_val [OF starves_read_prim]
    by (auto simp: encodable_def has_type_cases prim_val_bytes_def parse_enum_def)
next
  case TByte
  then obtain b where "v = VPrim (P1 b)" by (auto simp: encodable_def has_type_cases)
  then show ?case
    using starved_then_val [OF starves_map [OF starves_read_prim [of "[b]" Num1], of "\<lambda>p. hd (prim_bytes p)"], of "\<lambda>b. VPrim (P1 b)"]
    by (simp add: prim_val_bytes_def parse_byte_def)
next
  case (TVar p)
  then show ?case using starved_then_val [OF starved_var_prim]
    by (auto simp: encodable_def has_type_cases)
next
  case (TSeq kind t)
  then obtain vs where v: "v = VSeq vs" "fits kind (length vs)" by (auto simp: encodable_def has_type_cases)
  note e = encodable_seq [OF disjI1 [OF TSeq.prems [unfolded v]]]
  have elem: "length (encode t x) = mem_size t"
    if "contiguous_seq kind t" "is_memory_layout t" "x \<in> set vs" for x
    using elem_of_mem_encode [OF that(2) contiguous_not_bool [OF that(1)]] e(3) [OF that(3)]
    by (simp add: encodable_def)
  show ?case unfolding v parse.simps encode_seq
    by (rule starved_then_val, rule starves_sequential)
      (use v e(1) TSeq.IH [OF e(3)] parses_parse [OF fuel e(3)] bulk_size(1) [OF _ e(3,2)] elem in auto)
next
  case (TOrd kind t)
  then obtain vs where v: "v = VSeq vs" "ord_sorted kind vs" by (auto simp: encodable_def has_type_cases)
  note e = encodable_seq [OF disjI2 [OF TOrd.prems [unfolded v]]]
  show ?case unfolding v parse.simps encode_seq
    by (rule starved_then_val, rule starves_ignore_order)
      (use v e TOrd.IH parses_parse [OF fuel] in auto)
next
  case (TTuple ts)
  then obtain vs where v: "v = VRec vs" "rec_type ts vs" by (auto simp: encodable_def has_type_cases)
  have e: "encodable (ts ! i) (vs ! i)" if "i < length ts" for i
    using TTuple.prems encodable_rec(2) [of ts vs] that v by blast
  show ?case unfolding v parse.simps encode_rec
    by (intro starved_then_val starved_rec)
      (use v e TTuple parses_parse [OF fuel e] in \<open>auto simp: encodable_def\<close>)
next
  case (TMembers ts init)
  then obtain vs where v: "v = VRec vs" "rec_type ts vs" by (auto simp: encodable_def has_type_cases)
  have i: "length init = length (map (parse cfg ops) ts)" using TMembers.prems by (simp add: encodable_def)
  have e: "encodable (ts ! i) (vs ! i)" if "i < length ts" for i
    using TMembers.prems encodable_rec(2) [of ts vs init] that v by blast
  show ?case unfolding v parse.simps encode_rec parse_tuple_eq [OF i]
    by (intro starved_then_val starved_rec)
      (use v e TMembers parses_parse [OF fuel e] in \<open>auto simp: encodable_def\<close>)
next
  case (TTagged ids ts init)
  then obtain vs where v: "v = VRec vs" "rec_type ts vs" by (auto simp: encodable_def has_type_cases)
  have len: "length ids = length ts" "length vs = length ts" "length init = length vs" and ids: "good_ids ids"
    using TTagged.prems v by (auto simp: encodable_def rec_type_def)
  let ?ms = "in_members ids (map fixed_size ts) (map (parse cfg ops) ts)"
  have mids: "map im_id ?ms = ids" using len by (intro in_members_ids) simp_all
  have e: "encodable (ts ! i) (vs ! i)" if "i < length ts" for i
    using TTagged.prems encodable_rec(2) [of ts vs init ids] that v by blast
  have "ending_field ?ms (member_enc ts) f" if "f \<in> set (canonical 0 vs)" for f
  proof -
    from that obtain j where j: "j < length ts" "f = Known j (vs ! j)" by (auto simp: set_canonical len)
    have "unat k = length (encode (ts ! j) (vs ! j))" if "fixed_size (ts ! j) = Some k" for k
      using fixed_size_exact [OF e [OF j(1)] that] encodable_unat [OF e [OF j(1)]] by simp
    then show ?thesis
      using j len TTagged.IH [OF nth_mem e, OF j(1) j(1)] e [OF j(1)] parses_parse [OF fuel e, OF j(1)]
      by (simp add: ending_field_def good_field_def length_in_members nth_in_members [where n = "length ts"]
          member_enc_def encodable_def)
  qed
  then have "starved (parse_custom_struct_optimistic_for_large cfg ops ?ms init)
      (struct_bytes (map im_id ?ms) (member_enc ts) (canonical 0 vs))"
    using ids fuel distinct_ids_length [OF ids] len
    by (intro starved_optimistic_for_large pending_canonical) (simp_all add: mids fuel_enough_def)
  then show ?case
    unfolding v parse.simps encode_rec mids struct_bytes_encode [OF v(2) len(1)]
    by (intro starved_then_val) simp
qed

end

section \<open>Strings and buffers\<close>

lemma crw_new: "crw_inv (char_range_writer_new m)" "crw_out (char_range_writer_new m) = []"
  by (simp_all add: crw_inv_def crw_out_def char_range_writer_new_def)

lemma crr_new: "crr_inv (char_range_reader_new bs)" "crr_rem (char_range_reader_new bs) = bs"
  by (simp_all add: crr_inv_def crr_rem_def char_range_reader_new_def r_end_def)

text \<open>A buffer of exactly the announced size is filled to its last byte and not beyond.\<close>

lemma writer_filled:
  assumes "encodable t v" and "length m = length (encode t v)"
  shows "\<exists>w. serialize cfg (crw_ops cfg) t v (char_range_writer_new m) = Inr w \<and> w_mem w = encode t v"
proof -
  let ?n = "length (encode t v)"
  have "crw_cap ?n (char_range_writer_new m) (?n + 0)"
    using assms by (simp add: crw_cap_def char_range_writer_new_def)
  from emitsD [OF crw.emits_serialize [OF assms(1)] crw_new(1) this]
  obtain w where w: "serialize cfg (crw_ops cfg) t v (char_range_writer_new m) = Inr w"
      "crw_out w = encode t v" "crw_cap ?n w 0" "crw_inv w"
    by (auto simp: crw_new)
  then have "length (take (w_ptr w) (w_mem w)) = ?n" "length (w_mem w) = ?n"
    by (simp_all add: crw_out_def crw_cap_def)
  then have "w_mem w = encode t v" using w(2) by (simp add: crw_out_def)
  with w show ?thesis by blast
qed

lemma to_string_encode: "encodable t v \<Longrightarrow> serialize_to_string cfg t v = Inr (encode t v)"
  using writer_filled [of t v "replicate (unat (aot_size t v)) 0" cfg]
  by (auto simp: serialize_to_string_def aot_size_exact encodable_unat)

lemma to_buffer_encode: "encodable t v \<Longrightarrow> serialize_to_buffer cfg junk t v = Inr (encode t v)"
  using writer_filled [of t v "map junk [0..<unat (aot_size t v)]" cfg]
  by (auto simp: serialize_to_buffer_def aot_size_exact encodable_unat)

lemma from_string_encode:
  assumes "encodable t v" and "fuel_enough cfg"
  shows "parse_from_string cfg t (encode t v @ rest) = Inr v"
proof -
  obtain s where "parse cfg (crr_ops cfg) t (char_range_reader_new (encode t v @ rest)) = Inr (v, s)"
    using parsesD [OF crr.parses_parse [OF assms(2,1)] crr_new] by blast
  then show ?thesis by (simp add: parse_from_string_def)
qed

lemma from_buffer_string: "parse_from_buffer = parse_from_string"
  by (simp add: fun_eq_iff parse_from_buffer_def parse_from_string_def)

lemma from_string_truncated:
  assumes "encodable t v" and "fuel_enough cfg" and "k < length (encode t v)"
  shows "parse_from_string cfg t (take k (encode t v)) = Inl EarlyEof"
proof -
  have "\<exists>e\<in>{EarlyEof}. parse cfg (crr_ops cfg) t (char_range_reader_new (take k (encode t v))) = Inl e"
    using crr.starved_parse [OF assms(2,1)] assms(3) crr_new unfolding starves_def by blast
  then show ?thesis by (simp add: parse_from_string_def)
qed

text \<open>The format is unambiguous: no encoding of a type is a proper prefix of another.\<close>

lemma encode_prefix_free:
  assumes "encodable t v" and "encodable t v'" and "encode t v @ r = encode t v' @ r'"
  shows "v = v' \<and> r = r'"
proof -
  let ?cfg = "\<lparr>debug = True, threshold = 8, fuel = 256\<rparr>"
  have f: "fuel_enough ?cfg" by (simp add: fuel_enough_def)
  have "v = v'"
    using from_string_encode [OF assms(1) f, of r] from_string_encode [OF assms(2) f, of r'] assms(3) by simp
  with assms(3) show ?thesis by simp
qed

section \<open>A stream of objects\<close>

lemma not_encodable_Nil: "encodable t v \<Longrightarrow> encode t v \<noteq> []"
  by (simp add: encodable_def encode_ne)

context ending_stream begin

lemma peek_eof:
  assumes "ok s"
  shows "\<exists>s'. peek_for_eof ops s = Inr (rem s = [], s') \<and> (rem s \<noteq> [] \<longrightarrow> ok s' \<and> rem s' = rem s)"
proof (cases "rem s")
  case Nil
  with peek_end [OF assms] show ?thesis by (auto simp: peek_for_eof_def)
next
  case (Cons b bs)
  with peek_cons [OF assms Cons] show ?thesis by (auto simp: peek_for_eof_def)
qed

lemma iter_incr_next:
  assumes "fuel_enough cfg" and "encodable t v" and "ok s" and "rem s = encode t v @ rest"
  shows "\<exists>s'. parse_iter_incr cfg ops t \<lparr>pi_live = True, pi_value = x\<rparr> s =
      Inr (\<lparr>pi_live = True, pi_value = v\<rparr>, s') \<and> ok s' \<and> rem s' = rest"
proof -
  have "rem s \<noteq> []" using assms(4) not_encodable_Nil [OF assms(2)] by simp
  then obtain s1 where s1: "peek_for_eof ops s = Inr (False, s1)" "ok s1" "rem s1 = encode t v @ rest"
    using peek_eof [OF assms(3)] assms(4) by auto
  from parsesD [OF parses_parse [OF assms(1,2)] s1(2,3)] s1(1)
  show ?thesis by (auto simp: parse_iter_incr_def)
qed

lemma iter_incr_end:
  assumes "ok s" and "rem s = []"
  shows "\<exists>s'. parse_iter_incr cfg ops t \<lparr>pi_live = True, pi_value = x\<rparr> s =
      Inr (\<lparr>pi_live = False, pi_value = x\<rparr>, s')"
  using peek_eof [OF assms(1)] assms(2) by (auto simp: parse_iter_incr_def)

lemma iter_collect:
  assumes "fuel_enough cfg" and "\<And>v. v \<in> set vs \<Longrightarrow> encodable t v"
    and "ok s" and "rem s = concat (map (encode t) vs)" and "Suc (length vs) < k"
  shows "\<exists>s'. parse_iter_collect k cfg ops t \<lparr>pi_live = True, pi_value = x\<rparr> s = Inr (x # vs, s')"
  using assms(2-)
proof (induction vs arbitrary: s k x)
  case Nil
  then obtain k' where k: "k = Suc (Suc k')" by (cases k; cases "k - 1") auto
  obtain s' where "parse_iter_incr cfg ops t \<lparr>pi_live = True, pi_value = x\<rparr> s =
      Inr (\<lparr>pi_live = False, pi_value = x\<rparr>, s')"
    using iter_incr_end [of s cfg t x] Nil by auto
  then show ?case by (simp add: k)
next
  case (Cons v vs)
  then obtain k' where k: "k = Suc k'" by (cases k) auto
  obtain s1 where s1: "parse_iter_incr cfg ops t \<lparr>pi_live = True, pi_value = x\<rparr> s =
      Inr (\<lparr>pi_live = True, pi_value = v\<rparr>, s1)" "ok s1" "rem s1 = concat (map (encode t) vs)"
    using iter_incr_next [OF assms(1), of t v s "concat (map (encode t) vs)" x] Cons.prems by auto
  moreover obtain s' where "parse_iter_collect k' cfg ops t \<lparr>pi_live = True, pi_value = v\<rparr> s1 = Inr (v # vs, s')"
    using Cons.IH [OF _ s1(2,3), of k' v] Cons.prems k by auto
  ultimately show ?case by (simp add: k)
qed

lemma parse_all_encodings:
  assumes "fuel_enough cfg" and "\<And>v. v \<in> set vs \<Longrightarrow> encodable t v"
    and "ok s" and "rem s = concat (map (encode t) vs)" and "Suc (length vs) < fuel cfg"
  shows "\<exists>s'. parse_all cfg ops t s = Inr (vs, s')"
proof (cases vs)
  case Nil
  obtain s' where "parse_iter_incr cfg ops t \<lparr>pi_live = True, pi_value = value_init t\<rparr> s =
      Inr (\<lparr>pi_live = False, pi_value = value_init t\<rparr>, s')"
    using iter_incr_end [of s cfg t "value_init t"] assms Nil by auto
  moreover obtain k where "fuel cfg = Suc k" using assms(5) by (cases "fuel cfg") auto
  ultimately show ?thesis by (simp add: parse_all_def parse_iter_begin_def Nil)
next
  case (Cons v ws)
  obtain s1 where s1: "parse_iter_incr cfg ops t \<lparr>pi_live = True, pi_value = value_init t\<rparr> s =
      Inr (\<lparr>pi_live = True, pi_value = v\<rparr>, s1)" "ok s1" "rem s1 = concat (map (encode t) ws)"
    using iter_incr_next [OF assms(1), of t v s "concat (map (encode t) ws)" "value_init t"] assms Cons by auto
  with iter_collect [OF assms(1) _ s1(2,3), of "fuel cfg" v] assms Cons
  show ?thesis by (auto simp: parse_all_def parse_iter_begin_def)
qed

end

section \<open>Schema evolution of tagged structs\<close>

text \<open>
  A writer and a reader of different versions: the members are matched by their ids; a member
  only the writer has is dropped, a member only the reader has keeps its initial value.
\<close>

fun pos :: "'a list \<Rightarrow> 'a \<Rightarrow> nat option" where
  "pos [] x = None"
| "pos (y # ys) x = (if x = y then Some 0 else map_option Suc (pos ys x))"

lemma pos_Some: "pos xs x = Some j \<Longrightarrow> j < length xs \<and> xs ! j = x"
  by (induction xs arbitrary: j) (auto split: if_splits)

lemma pos_None: "pos xs x = None \<longleftrightarrow> x \<notin> set xs"
  by (induction xs) auto

lemma pos_nth: "distinct xs \<Longrightarrow> j < length xs \<Longrightarrow> pos xs (xs ! j) = Some j"
  using pos_Some [of xs "xs ! j"] pos_None [of xs "xs ! j"]
  by (cases "pos xs (xs ! j)") (auto simp: nth_eq_iff_index_eq)

definition evolve :: "byte list \<Rightarrow> 'v list \<Rightarrow> byte list \<Rightarrow> 'v list \<Rightarrow> 'v list" where
  "evolve wids wvs ids init =
     map (\<lambda>(tid, d). case pos wids tid of Some i \<Rightarrow> wvs ! i | None \<Rightarrow> d) (zip ids init)"

definition wire_field :: "byte list \<Rightarrow> byte list \<Rightarrow> ty list \<Rightarrow> val list \<Rightarrow> nat \<Rightarrow> val field" where
  "wire_field ids wids wts wvs i =
     (case pos ids (wids ! i) of
        Some j \<Rightarrow> Known j (wvs ! i)
      | None \<Rightarrow> Unknown (wids ! i) (encode (wts ! i) (wvs ! i)))"

definition compatible :: "byte list \<Rightarrow> ty list \<Rightarrow> byte list \<Rightarrow> ty list \<Rightarrow> bool" where
  "compatible ids ts wids wts \<longleftrightarrow>
     (\<forall>i < length wids. \<forall>j < length ids. ids ! j = wids ! i \<longrightarrow> ts ! j = wts ! i)"

lemma apply_fields_other:
  "j \<notin> set (List.map_filter known_index fs) \<Longrightarrow> apply_fields fs obj ! j = obj ! j"
proof (induction fs arbitrary: obj)
  case (Cons f fs)
  then show ?case by (cases f) (simp_all add: apply_fields_def map_filter_simps)
qed (simp add: apply_fields_def)

lemma length_apply_fields [simp]: "length (apply_fields fs obj) = length obj"
proof (induction fs arbitrary: obj)
  case (Cons f fs)
  then show ?case by (cases f) (simp_all add: apply_fields_def)
qed (simp add: apply_fields_def)

lemma known_in_filter: "Known j v \<in> set fs \<Longrightarrow> j \<in> set (List.map_filter known_index fs)"
  by (induction fs) (auto simp: map_filter_simps split: option.splits)

lemma apply_fields_known:
  assumes "distinct (List.map_filter known_index fs)" and "Known j v \<in> set fs" and "j < length obj"
  shows "apply_fields fs obj ! j = v"
  using assms
proof (induction fs arbitrary: obj)
  case (Cons f fs)
  show ?case
  proof (cases "f = Known j v")
    case True
    then have "j \<notin> set (List.map_filter known_index fs)" using Cons.prems by (simp add: map_filter_simps)
    then show ?thesis using True Cons.prems apply_fields_other [of j fs "obj[j := v]"]
      by (simp add: apply_fields_def)
  next
    case False
    then have "Known j v \<in> set fs" using Cons.prems by auto
    then show ?thesis using Cons by (cases f) (auto simp: apply_fields_def map_filter_simps)
  qed
qed simp

lemma distinct_wire:
  assumes "distinct wids" and "\<And>i. i \<in> set ks \<Longrightarrow> i < length wids" and "distinct ks"
  shows "distinct (List.map_filter known_index (map (wire_field ids wids wts wvs) ks))"
    and "j \<in> set (List.map_filter known_index (map (wire_field ids wids wts wvs) ks)) \<longleftrightarrow>
      (\<exists>i \<in> set ks. pos ids (wids ! i) = Some j)"
proof -
  have set_eq: "j \<in> set (List.map_filter known_index (map (wire_field ids wids wts wvs) ks)) \<longleftrightarrow>
      (\<exists>i \<in> set ks. pos ids (wids ! i) = Some j)" for j ks
    by (induction ks) (auto simp: map_filter_simps wire_field_def split: option.splits)
  show "j \<in> set (List.map_filter known_index (map (wire_field ids wids wts wvs) ks)) \<longleftrightarrow>
      (\<exists>i \<in> set ks. pos ids (wids ! i) = Some j)" by (rule set_eq)
  show "distinct (List.map_filter known_index (map (wire_field ids wids wts wvs) ks))"
    using assms(2,3)
  proof (induction ks)
    case (Cons i ks)
    then have IH: "distinct (List.map_filter known_index (map (wire_field ids wids wts wvs) ks))" by simp
    show ?case
    proof (cases "pos ids (wids ! i)")
      case None
      then show ?thesis using IH by (simp add: map_filter_simps wire_field_def [of ids wids wts wvs i])
    next
      case (Some j)
      have "pos ids (wids ! k) \<noteq> Some j" if "k \<in> set ks" for k
      proof
        assume "pos ids (wids ! k) = Some j"
        then have "wids ! k = wids ! i" using pos_Some Some by metis
        then show False using that Cons.prems assms(1) by (auto simp: nth_eq_iff_index_eq)
      qed
      moreover have "j \<in> set (List.map_filter known_index (map (wire_field ids wids wts wvs) ks)) \<longleftrightarrow>
          (\<exists>i \<in> set ks. pos ids (wids ! i) = Some j)" by (rule set_eq)
      ultimately show ?thesis using IH Some
        by (simp add: map_filter_simps wire_field_def [of ids wids wts wvs i])
    qed
  qed (simp add: map_filter_simps)
qed

lemma apply_wire_evolve:
  assumes "distinct wids" and "distinct ids" and "length init = length ids"
  shows "apply_fields (map (wire_field ids wids wts wvs) [0..<length wids]) init = evolve wids wvs ids init"
proof (rule nth_equalityI)
  show "length (apply_fields (map (wire_field ids wids wts wvs) [0..<length wids]) init) =
      length (evolve wids wvs ids init)"
    using assms by (simp add: evolve_def)
  fix j assume "j < length (apply_fields (map (wire_field ids wids wts wvs) [0..<length wids]) init)"
  then have j: "j < length init" by simp
  note d = distinct_wire [where ks = "[0..<length wids]" and ids = ids and wts = wts and wvs = wvs, OF assms(1)]
  show "apply_fields (map (wire_field ids wids wts wvs) [0..<length wids]) init ! j = evolve wids wvs ids init ! j"
  proof (cases "pos wids (ids ! j)")
    case None
    have "pos ids (wids ! i) \<noteq> Some j" if "i < length wids" for i
      using pos_Some [of ids "wids ! i" j] None that by (auto simp: pos_None)
    then show ?thesis using None j assms(3) d(2) by (subst apply_fields_other) (auto simp: evolve_def)
  next
    case (Some i)
    then have i: "i < length wids" "wids ! i = ids ! j" using pos_Some by metis+
    then have "pos ids (wids ! i) = Some j" using j assms(2,3) by (simp add: pos_nth)
    then have "Known j (wvs ! i) = wire_field ids wids wts wvs i" by (simp add: wire_field_def)
    with i have "Known j (wvs ! i) \<in> set (map (wire_field ids wids wts wvs) [0..<length wids])" by simp
    then show ?thesis using d(1) j assms(3) Some
      by (subst apply_fields_known) (auto simp: evolve_def)
  qed
qed

lemma struct_bytes_wire:
  assumes "rec_type wts wvs" and "length wids = length wts" and "compatible ids ts wids wts"
  shows "struct_bytes ids (member_enc ts) (map (wire_field ids wids wts wvs) [0..<length wids]) =
    members_bytes wids (enc_all wts wvs)"
proof -
  have "map (field_bytes ids (member_enc ts)) (map (wire_field ids wids wts wvs) [0..<length wids]) =
      map (\<lambda>(tid, bs). tid # vuint_bytes (length bs) @ bs) (zip wids (enc_all wts wvs))"
  proof (rule nth_equalityI)
    fix i assume "i < length (map (field_bytes ids (member_enc ts)) (map (wire_field ids wids wts wvs) [0..<length wids]))"
    then have i: "i < length wids" "i < length wts" using assms(2) by simp_all
    have "field_bytes ids (member_enc ts) (wire_field ids wids wts wvs i) =
        wids ! i # vuint_bytes (length (encode (wts ! i) (wvs ! i))) @ encode (wts ! i) (wvs ! i)"
    proof (cases "pos ids (wids ! i)")
      case (Some j)
      then have "j < length ids" "ids ! j = wids ! i" using pos_Some by metis+
      moreover from this have "ts ! j = wts ! i" using assms(3) i by (simp add: compatible_def)
      ultimately show ?thesis using Some
        by (simp add: wire_field_def field_bytes_def field_tail_def member_enc_def)
    qed (simp add: wire_field_def field_bytes_def field_tail_def)
    then show "map (field_bytes ids (member_enc ts)) (map (wire_field ids wids wts wvs) [0..<length wids]) ! i =
      map (\<lambda>(tid, bs). tid # vuint_bytes (length bs) @ bs) (zip wids (enc_all wts wvs)) ! i"
      using i assms(1) by (simp add: nth_enc_all)
  qed (use assms in simp)
  then show ?thesis by (simp add: struct_bytes_def members_bytes_def)
qed

context input_stream begin

lemma parses_evolved:
  assumes fuel: "fuel_enough cfg" and w: "encodable (TTagged wids wts winit) (VRec wvs)"
    and wf: "wf_ty (TTagged ids ts init)" and c: "compatible ids ts wids wts"
  shows "parses ok rem (parse cfg ops (TTagged ids ts init)) (VRec (evolve wids wvs ids init))
    (encode (TTagged wids wts winit) (VRec wvs))"
proof -
  have wl: "length wids = length wts" "good_ids wids" and wr: "rec_type wts wvs"
    using w by (auto simp: encodable_def has_type_cases)
  have l: "length ids = length ts" "length init = length ts" and ids: "good_ids ids" using wf by simp_all
  let ?ms = "in_members ids (map fixed_size ts) (map (parse cfg ops) ts)"
  let ?fs = "map (wire_field ids wids wts wvs) [0..<length wids]"
  have mids: "map im_id ?ms = ids" using l by (intro in_members_ids) simp_all
  have e: "encodable (wts ! i) (wvs ! i)" if "i < length wts" for i
    using w encodable_rec(2) [of wts wvs winit wids] that by blast
  have good: "good_field ?ms (member_enc ts) f" if "f \<in> set ?fs" for f
  proof -
    from that obtain i where i: "i < length wts" "f = wire_field ids wids wts wvs i" using wl by auto
    show ?thesis
    proof (cases "pos ids (wids ! i)")
      case None
      then have "f = Unknown (wids ! i) (encode (wts ! i) (wvs ! i))"
        using i by (simp add: wire_field_def)
      moreover have "wids ! i \<notin> set ids" using None by (simp only: pos_None not_False_eq_True)
      moreover have "wids ! i \<noteq> 0" using wl i by (metis good_ids_def nth_mem)
      ultimately show ?thesis using e [OF i(1)] by (simp add: good_field_def mids del: set_map)
        (simp add: encodable_def)
    next
      case (Some j)
      then have j: "j < length ts" "f = Known j (wvs ! i)" "ids ! j = wids ! i"
        using i l pos_Some [OF Some] by (simp_all add: wire_field_def)
      then have t: "ts ! j = wts ! i" using c l wl i by (simp add: compatible_def)
      have "unat k = length (encode (wts ! i) (wvs ! i))" if "fixed_size (wts ! i) = Some k" for k
        using fixed_size_exact [OF e [OF i(1)] that] encodable_unat [OF e [OF i(1)]] by simp
      then show ?thesis using j l t parses_parse [OF fuel e [OF i(1)]] e [OF i(1)]
        by (simp add: good_field_def length_in_members nth_in_members [where n = "length ts"]
            member_enc_def encodable_def)
    qed
  qed
  have p: "pending 0 ?fs"
    using distinct_wire(1) [where wids = wids and ks = "[0..<length wids]" and ids = ids and wts = wts and wvs = wvs] wl
    by (simp add: pending_def good_ids_def)
  have "parses ok rem (parse_custom_struct_optimistic_for_large cfg ops ?ms init) (apply_fields ?fs init)
      (struct_bytes (map im_id ?ms) (member_enc ts) ?fs)"
    by (rule parses_optimistic_for_large [OF p good])
      (use ids fuel distinct_ids_length [OF wl(2)] in \<open>simp_all add: mids fuel_enough_def\<close>)
  then show ?thesis
    unfolding mids struct_bytes_wire [OF wr wl(1) c] parse.simps encode_rec
    using apply_wire_evolve [of wids ids init wts wvs] wl ids l
    by (intro parses_then_val) (simp add: good_ids_def)
qed

end

lemma from_string_evolved:
  assumes "fuel_enough cfg" and "encodable (TTagged wids wts winit) (VRec wvs)"
    and "wf_ty (TTagged ids ts init)" and "compatible ids ts wids wts"
  shows "parse_from_string cfg (TTagged ids ts init) (encode (TTagged wids wts winit) (VRec wvs)) =
    Inr (VRec (evolve wids wvs ids init))"
proof -
  let ?s = "char_range_reader_new (encode (TTagged wids wts winit) (VRec wvs))"
  have "crr_rem ?s = encode (TTagged wids wts winit) (VRec wvs) @ []" by (simp add: crr_new)
  then obtain s where "parse cfg (crr_ops cfg) (TTagged ids ts init) ?s = Inr (VRec (evolve wids wvs ids init), s)"
    using parsesD [OF crr.parses_evolved [OF assms] crr_new(1)] by blast
  then show ?thesis by (simp add: parse_from_string_def)
qed

end
