(* ===== verification/Safety.thy ===== *)
theory Safety
  imports PbssTheorems
begin

text \<open>
  Parsing untrusted bytes from memory. In a checked build no byte sequence makes the parser
  read outside its range, read a variable it has not filled, or loop: every loop that depends
  on the input consumes at least a byte of the range per round. What it may do is
  shift a digit of an overlong integer out of range and store past the end of a \<^verbatim>\<open>std::array\<close>; the
  two are among \<open>parse_errors\<close>. In an unchecked build an
  eleven-byte input rewinds the reader and the parser never returns.
\<close>

section \<open>Safe actions\<close>

text \<open>
  The errors a parser may end with; \<open>arrays\<close> tells whether a \<^verbatim>\<open>std::array\<close> is among what it parses,
  whose elements are stored without a check of its size.
\<close>

definition parse_errors :: "bool \<Rightarrow> error set" where
  "parse_errors arrays = {EarlyEof, OutOfRange, LengthError, Undefined ShiftTooFar} \<union>
     (if arrays then {Undefined ArrayOverflow} else {})"

definition advances :: "char_range_reader \<Rightarrow> char_range_reader \<Rightarrow> bool" where
  "advances r r' \<longleftrightarrow> r_range r' = r_range r \<and> r_cur r \<le> r_cur r'"

definition safe_result :: "bool \<Rightarrow> char_range_reader \<Rightarrow> ('v \<times> char_range_reader) result \<Rightarrow> bool" where
  "safe_result a r R \<longleftrightarrow> (case R of Inl e \<Rightarrow> e \<in> parse_errors a | Inr (v, r') \<Rightarrow> advances r r')"

definition in_range :: "config \<Rightarrow> char_range_reader \<Rightarrow> bool" where
  "in_range cfg r \<longleftrightarrow> 0 \<le> r_cur r \<and> length (r_range r) < fuel cfg"

definition safe :: "bool \<Rightarrow> config \<Rightarrow> (char_range_reader \<Rightarrow> ('v \<times> char_range_reader) result) \<Rightarrow> bool" where
  "safe a cfg P \<longleftrightarrow> (\<forall>r. in_range cfg r \<longrightarrow> safe_result a r (P r))"

lemma safe_result_simps [simp]:
  "safe_result a r (Inl e) \<longleftrightarrow> e \<in> parse_errors a"
  "safe_result a r (Inr (v, r')) \<longleftrightarrow> advances r r'"
  by (simp_all add: safe_result_def)

lemma benign [simp]:
  "EarlyEof \<in> parse_errors a" "OutOfRange \<in> parse_errors a" "LengthError \<in> parse_errors a"
  "Undefined ShiftTooFar \<in> parse_errors a" "Undefined ArrayOverflow \<in> parse_errors True"
  by (simp_all add: parse_errors_def)

lemma advances_refl [simp]: "advances r r"
  by (simp add: advances_def)

lemma advances_trans: "advances r r' \<Longrightarrow> advances r' r'' \<Longrightarrow> advances r r''"
  by (simp add: advances_def)

lemma in_range_advances: "in_range cfg r \<Longrightarrow> advances r r' \<Longrightarrow> in_range cfg r'"
  by (simp add: in_range_def advances_def)

lemma safe_result_bind:
  assumes "safe_result a r R" and "\<And>v r'. R = Inr (v, r') \<Longrightarrow> advances r r' \<Longrightarrow> safe_result a r' (Q v r')"
  shows "safe_result a r (rbind R (\<lambda>(v, r'). Q v r'))"
proof (cases R)
  case (Inr p)
  obtain v r' where p: "p = (v, r')" by (cases p)
  then have a: "advances r r'" using assms(1) Inr by simp
  have "safe_result a r' (Q v r')" using assms(2) Inr p a by simp
  then show ?thesis using a advances_trans Inr p
    by (cases "Q v r'") (auto simp: safe_result_def split: prod.splits)
qed (use assms in simp)

lemma safe_bind [safe_intros]:
  "safe a cfg P \<Longrightarrow> (\<And>v. safe a cfg (Q v)) \<Longrightarrow> safe a cfg (\<lambda>r. rbind (P r) (\<lambda>(v, r'). Q v r'))"
  by (auto simp: safe_def intro!: safe_result_bind dest: in_range_advances)

lemma safe_return [safe_intros]: "safe a cfg (\<lambda>r. Inr (v, r))"
  by (simp add: safe_def)

lemma safe_throw [safe_intros]: "e \<in> parse_errors a \<Longrightarrow> safe a cfg (\<lambda>r. Inl e)"
  by (simp add: safe_def)

lemma safe_if [safe_intros]: "safe a cfg P \<Longrightarrow> safe a cfg Q \<Longrightarrow> safe a cfg (\<lambda>r. if b then P r else Q r)"
  by (cases b) simp_all

lemma safe_skipping: "safe a cfg (skipping P) \<Longrightarrow> safe a cfg Q \<Longrightarrow> safe a cfg (\<lambda>r. rbind (P r) Q)"
  unfolding skipping_bind by (rule safe_bind)

section \<open>The reader\<close>

lemma safe_get: "safe a cfg crr_get"
  by (auto simp: safe_def crr_get_def crr_at_def in_range_def advances_def r_end_def Let_def)

lemma get_advances:
  "in_range cfg r \<Longrightarrow> crr_get r = Inr (Some b, r') \<Longrightarrow>
   r_range r' = r_range r \<and> r_cur r' = r_cur r + 1 \<and> r_cur r' \<le> r_end r"
  by (auto simp: crr_get_def crr_at_def in_range_def r_end_def Let_def split: if_splits)

text \<open>With a checked conversion a count is never negative.\<close>

lemma checked_count:
  assumes "debug cfg" and "to_signed cfg (n :: 64 word) = Inr k"
  shows "k = n" and "0 \<le> sint k" and "sint k = int (unat n)"
  using to_signed_debug [OF assms] sint_small [of n] by auto

lemma read_safe:
  assumes "in_range cfg r" and "0 \<le> sint n"
  shows "safe_result a r (crr_read cfg n r)"
    and "crr_read cfg n r = Inr (bs, r') \<Longrightarrow> \<not> crr_eof r' \<Longrightarrow> length bs = unat n"
  using assms sint_unat [OF assms(2)]
  by (auto simp: crr_read_def crr_to_unsigned in_range_def advances_def r_end_def Let_def crr_eof_def
      simp del: of_nat_unat split: if_splits)

lemma safe_shift: "shift_or n v k = Inl e \<Longrightarrow> e = Undefined ShiftTooFar"
  by (simp add: shift_or_def split: if_splits)

lemma safe_read_loop: "safe a cfg (read_var_uint_loop (crr_ops cfg) n k)"
  unfolding safe_def
proof (intro allI impI)
  fix r
  assume "in_range cfg r"
  then show "safe_result a r (read_var_uint_loop (crr_ops cfg) n k r)"
  proof (induction "crr_ops cfg" n k r rule: read_var_uint_loop.induct)
    case (1 n k s)
    have g: "safe_result a s (crr_get s)" using safe_get 1(2) unfolding safe_def by blast
    show ?case unfolding read_var_uint_loop.simps [of _ n k s]
    proof (rule safe_result_bind)
      fix c s' assume c: "s_get (crr_ops cfg) s = Inr (c, s')" "advances s s'"
      show "safe_result a s' (case c of None \<Rightarrow> Inl EarlyEof
         | Some b \<Rightarrow> rbind (shift_or n (b AND 0x7F) k) (\<lambda>n'.
             if b AND 0x80 \<noteq> 0 then read_var_uint_loop (crr_ops cfg) n' (k + 7) s' else Inr (n', s')))"
      proof (cases c)
        case (Some b)
        show ?thesis
        proof (cases "shift_or n (b AND 0x7F) k")
          case (Inl e)
          then show ?thesis using Some safe_shift [OF Inl] by simp
        next
          case (Inr n')
          then show ?thesis
            using Some 1(1) [OF c(1) refl Some Inr] in_range_advances [OF 1(2) c(2)] by auto
        qed
      qed simp
    qed (use g in \<open>simp add: crr_ops_def\<close>)
  qed
qed

lemma safe_read_bool_loop: "safe a cfg (read_var_bool_loop (crr_ops cfg) n k)"
  unfolding safe_def
proof (intro allI impI)
  fix r
  assume "in_range cfg r"
  then show "safe_result a r (read_var_bool_loop (crr_ops cfg) n k r)"
  proof (induction "crr_ops cfg" n k r rule: read_var_bool_loop.induct)
    case (1 n k s)
    have g: "safe_result a s (crr_get s)" using safe_get 1(2) unfolding safe_def by blast
    show ?case unfolding read_var_bool_loop.simps [of _ n k s]
    proof (rule safe_result_bind)
      fix c s' assume c: "s_get (crr_ops cfg) s = Inr (c, s')" "advances s s'"
      note IH = 1(1) [OF c(1) refl _ _ refl _ in_range_advances [OF 1(2) c(2)]]
      show "safe_result a s' (case c of None \<Rightarrow> Inl EarlyEof
         | Some b \<Rightarrow> if 32 \<le> k then Inl (Undefined ShiftTooFar)
             else let n' = (if n \<noteq> 0 \<or> b AND 0x7F \<noteq> 0 then 1 else 0)
                  in if b AND 0x80 \<noteq> 0 then read_var_bool_loop (crr_ops cfg) n' (k + 7) s' else Inr (n', s'))"
        using IH by (auto simp: Let_def split: option.split)
    qed (use g in \<open>simp add: crr_ops_def\<close>)
  qed
qed

lemma safe_read_var_bool: "safe a cfg (read_var_bool (crr_ops cfg))"
  unfolding read_var_bool_def [abs_def] by (rule safe_read_bool_loop)

lemma safe_read_var_uint [safe_intros]: "safe a cfg (read_var_uint (crr_ops cfg))"
  unfolding read_var_uint_def [abs_def] by (rule safe_read_loop)

lemma sint_size_of: "0 \<le> sint (word_of_nat (size_of p) :: 64 word)"
    "unat (word_of_nat (size_of p) :: 64 word) = size_of p"
  by (cases p; simp)+

lemma safe_read_prim [safe_intros]: "safe a cfg (read_prim (crr_ops cfg) p)"
  unfolding safe_def
proof (intro allI impI)
  fix r assume r: "in_range cfg r"
  show "safe_result a r (read_prim (crr_ops cfg) p r)"
  proof (cases "size_of p = 1")
    case True
    have "safe_result a r (crr_get r)" using safe_get r unfolding safe_def by blast
    then show ?thesis using True unfolding read_prim_def
      by (auto simp: crr_ops_def intro!: safe_result_bind split: option.split)
  next
    case False
    note rs = read_safe [OF r sint_size_of(1) [of p]]
    show ?thesis
      using False rs sint_size_of(2) [of p] unfolding read_prim_def
      by (auto simp: crr_ops_def intro!: safe_result_bind)
  qed
qed

section \<open>Containers and tuples\<close>

lemma safe_push_back_loop: "safe a cfg P \<Longrightarrow> safe a cfg (push_back_loop P n coll)"
proof (induction n arbitrary: coll)
  case (Suc n)
  then show ?case unfolding push_back_loop.simps(2) [abs_def] by (intro safe_bind) auto
qed (simp add: safe_def)

lemma safe_parse_elems_each: "safe a cfg P \<Longrightarrow> safe a cfg (parse_elems_each kind P n)"
  unfolding parse_elems_each_def [abs_def]
  using safe_push_back_loop [of a cfg P]
  by (cases kind) (auto simp: safe_def)

lemma safe_parse_elems_read:
  assumes "debug cfg"
  shows "safe a cfg (parse_elems_read cfg (crr_ops cfg) kind sz elem n)"
  unfolding safe_def
proof (intro allI impI)
  fix r assume r: "in_range cfg r"
  show "safe_result a r (parse_elems_read cfg (crr_ops cfg) kind sz elem n r)"
  proof (cases "resize_if_applicable kind (unat n)")
    case (Inl e)
    then have "e = LengthError" by (cases kind) (auto split: if_splits)
    then show ?thesis using Inl by (simp add: parse_elems_read_def)
  next
    case (Inr u)
    show ?thesis
    proof (cases "to_signed cfg (word_of_nat sz * n)")
      case (Inl e)
      then have "e = OutOfRange" by (auto simp: to_signed_def split: if_splits)
      then show ?thesis using Inl Inr by (simp add: parse_elems_read_def)
    next
      case c: (Inr count)
      have "safe_result a r (crr_read cfg count r)"
        using read_safe(1) [OF r checked_count(2) [OF assms c]] .
      then show ?thesis using Inr c unfolding parse_elems_read_def
        by (auto simp: crr_ops_def Let_def intro!: safe_result_bind)
    qed
  qed
qed

lemma safe_parse_sequential:
  assumes "debug cfg" and "safe a cfg P"
  shows "safe a cfg (parse_sequential cfg (crr_ops cfg) kind can_read sz elem P)"
  unfolding parse_sequential_def [abs_def]
  using assms by (intro safe_bind safe_if safe_read_var_uint safe_parse_elems_read safe_parse_elems_each)

fun growing :: "'v ord_kind \<Rightarrow> bool" where
  "growing (ArrayN init) = False"
| "growing _ = True"

lemma safe_result_of:
  "(\<And>e. m = Inl e \<Longrightarrow> e \<in> parse_errors a) \<Longrightarrow> (\<And>x. m = Inr x \<Longrightarrow> safe a cfg (P x)) \<Longrightarrow>
   safe a cfg (\<lambda>r. rbind m (\<lambda>x. P x r))"
  by (cases m) (simp_all add: safe_throw)

lemma maybe_insert_errors: "a \<or> growing kind \<Longrightarrow> maybe_insert kind i c x = Inl e \<Longrightarrow> e \<in> parse_errors a"
  by (cases kind; cases a) (auto split: if_splits)

lemma reserve_errors: "reserve_unordered kind n = Inl e \<Longrightarrow> e \<in> parse_errors a"
  by (cases kind) (auto split: if_splits)

lemma safe_insert_loop: "a \<or> growing kind \<Longrightarrow> safe a cfg P \<Longrightarrow> safe a cfg (insert_loop kind P i n coll)"
proof (induction n arbitrary: i coll)
  case (Suc n)
  then show ?case unfolding insert_loop.simps(2) [abs_def]
    using maybe_insert_errors [OF Suc.prems(1)] by (intro safe_bind safe_result_of) simp_all
qed (simp add: safe_def)

lemma safe_parse_ignore_order:
  "a \<or> growing kind \<Longrightarrow> safe a cfg P \<Longrightarrow> safe a cfg (parse_ignore_order (crr_ops cfg) kind P)"
  unfolding parse_ignore_order_def [abs_def]
  by (intro safe_bind safe_read_var_uint safe_result_of reserve_errors safe_insert_loop)

lemma safe_read_tuple: "(\<And>P. P \<in> set Ps \<Longrightarrow> safe a cfg P) \<Longrightarrow> safe a cfg (read_tuple_continue Ps acc)"
proof (induction Ps arbitrary: acc)
  case (Cons P Ps)
  then show ?case unfolding read_tuple_continue.simps(2) [abs_def] by (intro safe_bind) auto
qed (simp add: safe_def)

lemma safe_parse_tuple: "(\<And>P. P \<in> set Ps \<Longrightarrow> safe a cfg P) \<Longrightarrow> safe a cfg (parse_tuple Ps i obj)"
proof (induction Ps arbitrary: i obj)
  case (Cons P Ps)
  then show ?case unfolding parse_tuple.simps(2) [abs_def] by (intro safe_bind) auto
qed (simp add: safe_def)

section \<open>Tagged structs\<close>

lemma safe_skip_chars: "safe a cfg (skipping (skip_chars (crr_ops cfg) n))"
proof (induction n)
  case (Suc n)
  have "skipping (skip_chars (crr_ops cfg) (Suc n)) =
      (\<lambda>s. rbind (crr_get s) (\<lambda>(c, s'). skipping (skip_chars (crr_ops cfg) n) s'))"
    by (auto simp: skipping_def rbind_assoc crr_ops_def split_def)
  then show ?case by (simp only: safe_bind [OF safe_get Suc])
qed (simp add: safe_def skipping_def)

lemma safe_skip_loop:
  assumes "in_range cfg r" and "nat (r_end r - r_cur r) < k"
  shows "safe_result a r (skipping (skip_varuint_loop k (crr_ops cfg)) r)"
  using assms
proof (induction k arbitrary: r)
  case (Suc k)
  have g: "safe_result a r (crr_get r)" using safe_get Suc.prems(1) unfolding safe_def by blast
  have "skipping (skip_varuint_loop (Suc k) (crr_ops cfg)) r =
      rbind (crr_get r) (\<lambda>(c, s'). case c of None \<Rightarrow> Inl EarlyEof
        | Some b \<Rightarrow> if b AND 0x80 \<noteq> 0 then skipping (skip_varuint_loop k (crr_ops cfg)) s' else Inr ((), s'))"
    by (auto simp: skipping_def rbind_assoc crr_ops_def split_def intro!: arg_cong [where f = "rbind _"] split: option.split)
  also have "safe_result a r \<dots>"
  proof (rule safe_result_bind [OF g])
    fix c s' assume c: "crr_get r = Inr (c, s')" "advances r s'"
    show "safe_result a s' (case c of None \<Rightarrow> Inl EarlyEof
        | Some b \<Rightarrow> if b AND 0x80 \<noteq> 0 then skipping (skip_varuint_loop k (crr_ops cfg)) s' else Inr ((), s'))"
    proof (cases c)
      case (Some b)
      note a = get_advances [OF Suc.prems(1) c(1) [unfolded Some]]
      have "safe_result a s' (skipping (skip_varuint_loop k (crr_ops cfg)) s')"
        by (rule Suc.IH [OF in_range_advances [OF Suc.prems(1) c(2)]])
          (use a Suc.prems(2) in \<open>auto simp: r_end_def\<close>)
      then show ?thesis using Some by simp
    qed simp
  qed
  finally show ?case .
qed simp

lemma in_range_fuel: "in_range cfg r \<Longrightarrow> nat (r_end r - r_cur r) < fuel cfg"
  by (auto simp: in_range_def r_end_def)

lemma safe_skip_varuint: "safe a cfg (skipping (skip_varuint cfg (crr_ops cfg) fixed))"
proof (cases fixed)
  case None
  then show ?thesis using safe_skip_loop in_range_fuel
    by (auto simp: safe_def skip_varuint_def [abs_def] skipping_def)
next
  case (Some n)
  then show ?thesis using safe_skip_chars [of a cfg "unat (static_size_vuint n)"]
    by (simp add: skip_varuint_def [abs_def] skipping_def [abs_def])
qed

lemma safe_member_value:
  "safe a cfg (im_parse m) \<Longrightarrow> safe a cfg (parse_member_value cfg (crr_ops cfg) m)"
  unfolding parse_member_value_def [abs_def] by (rule safe_skipping [OF safe_skip_varuint])

lemma safe_unknown_member:
  assumes "debug cfg"
  shows "safe a cfg (parse_custom_struct_member cfg (crr_ops cfg) tid [] i obj)"
proof -
  have "safe a cfg (\<lambda>s'. rbind (to_signed cfg len) (\<lambda>count. rbind (s_ignore (crr_ops cfg) count s')
      (\<lambda>s''. Inr (obj, s''))))" for len :: "64 word"
  proof (cases "to_signed cfg len")
    case (Inl e)
    then have "e = OutOfRange" by (auto simp: to_signed_def split: if_splits)
    then show ?thesis using Inl by (simp add: safe_throw)
  next
    case (Inr count)
    then show ?thesis using checked_count [OF assms Inr]
      by (auto simp: safe_def crr_ops_def crr_ignore_def advances_def)
  qed
  then show ?thesis unfolding parse_custom_struct_member.simps(1) [abs_def]
    by (intro safe_bind safe_read_var_uint)
qed

lemma safe_member:
  assumes "debug cfg" and "\<And>m. m \<in> set ms \<Longrightarrow> safe a cfg (im_parse m)"
  shows "safe a cfg (parse_custom_struct_member cfg (crr_ops cfg) tid ms i obj)"
  using assms(2)
proof (induction ms arbitrary: i)
  case Nil
  show ?case by (rule safe_unknown_member [OF assms(1)])
next
  case (Cons m ms)
  have "safe a cfg (\<lambda>s. rbind (parse_member_value cfg (crr_ops cfg) m s) (\<lambda>(v, s'). Inr (obj[i := v], s')))"
    using Cons.prems by (intro safe_bind safe_member_value safe_return) auto
  then show ?case using Cons unfolding parse_custom_struct_member.simps(2) [abs_def] by (intro safe_if) auto
qed

lemma safe_parse_id: "safe a cfg (parse_id (crr_ops cfg))"
  unfolding parse_id_def [abs_def] by (intro safe_bind safe_read_prim safe_return)

lemma parse_id_progress:
  assumes "in_range cfg r" and "parse_id (crr_ops cfg) r = Inr (tid, r')"
  shows "r_cur r' = r_cur r + 1" and "r_cur r' \<le> r_end r" and "r_range r' = r_range r"
proof -
  obtain b where "crr_get r = Inr (Some b, r')"
    using assms(2) by (auto simp: parse_id_def read_prim_def crr_ops_def rbind_Inr_iff split: option.splits)
  from get_advances [OF assms(1) this]
  show "r_cur r' = r_cur r + 1" and "r_cur r' \<le> r_end r" and "r_range r' = r_range r" by auto
qed

lemma safe_custom_struct_fuel:
  assumes "debug cfg" and "\<And>m. m \<in> set ms \<Longrightarrow> safe a cfg (im_parse m)"
    and "in_range cfg r" and "nat (r_end r - r_cur r) < k"
  shows "safe_result a r (parse_custom_struct k cfg (crr_ops cfg) ms obj r)"
  using assms(3,4)
proof (induction k arbitrary: r obj)
  case (Suc k)
  have i: "safe_result a r (parse_id (crr_ops cfg) r)"
    using safe_parse_id Suc.prems(1) unfolding safe_def by blast
  show ?case unfolding parse_custom_struct.simps(2)
  proof (rule safe_result_bind [OF i])
    fix tid s' assume s': "parse_id (crr_ops cfg) r = Inr (tid, s')" "advances r s'"
    note p = parse_id_progress [OF Suc.prems(1) s'(1)] and r' = in_range_advances [OF Suc.prems(1) s'(2)]
    have m: "safe_result a s' (parse_custom_struct_member cfg (crr_ops cfg) tid ms 0 obj s')"
      using safe_member [OF assms(1,2)] r' unfolding safe_def by blast
    have "safe_result a s' (rbind (parse_custom_struct_member cfg (crr_ops cfg) tid ms 0 obj s')
        (\<lambda>(obj', s''). parse_custom_struct k cfg (crr_ops cfg) ms obj' s''))"
    proof (rule safe_result_bind [OF m])
      fix obj' s'' assume a: "advances s' s''"
      show "safe_result a s'' (parse_custom_struct k cfg (crr_ops cfg) ms obj' s'')"
        by (rule Suc.IH [OF in_range_advances [OF r' a]])
          (use a p Suc.prems(2) in \<open>auto simp: advances_def r_end_def\<close>)
    qed
    then show "safe_result a s' (if tid = 0 then Inr (obj, s')
       else rbind (parse_custom_struct_member cfg (crr_ops cfg) tid ms 0 obj s') (\<lambda>(obj', s'').
              parse_custom_struct k cfg (crr_ops cfg) ms obj' s''))" by simp
  qed
qed simp

lemma safe_custom_struct:
  assumes "debug cfg" and "\<And>m. m \<in> set ms \<Longrightarrow> safe a cfg (im_parse m)"
  shows "safe a cfg (parse_custom_struct (fuel cfg) cfg (crr_ops cfg) ms obj)"
  unfolding safe_def using safe_custom_struct_fuel [OF assms] in_range_fuel by blast

lemma safe_optimistic:
  assumes "debug cfg" and "\<And>m. m \<in> set ms \<Longrightarrow> safe a cfg (im_parse m)"
  shows "safe a cfg (parse_custom_struct_optimistic cfg (crr_ops cfg) ms i obj)"
  using assms(2)
proof (induction ms arbitrary: i obj)
  case Nil
  show ?case unfolding parse_custom_struct_optimistic.simps(1) [abs_def]
    by (intro safe_bind safe_custom_struct assms(1) safe_return) simp
next
  case (Cons m ms)
  have body: "safe a cfg (\<lambda>s. rbind (parse_member_value cfg (crr_ops cfg) m s)
      (\<lambda>(v, s''). parse_custom_struct_optimistic cfg (crr_ops cfg) ms (Suc i) (obj[i := v]) s''))"
    using Cons by (intro safe_bind safe_member_value) auto
  show ?case unfolding parse_custom_struct_optimistic.simps(2) [abs_def]
    by (rule safe_bind [OF safe_parse_id], rule safe_if) (rule body, rule safe_return)
qed

lemma safe_optimistic_for_large:
  assumes "debug cfg" and "\<And>m. m \<in> set ms \<Longrightarrow> safe a cfg (im_parse m)"
  shows "safe a cfg (parse_custom_struct_optimistic_for_large cfg (crr_ops cfg) ms obj)"
proof -
  have "safe a cfg (fallback cfg (crr_ops cfg) ms r)" for r
    unfolding fallback_def [abs_def]
    by (cases r; cases "fst r = 0") (use assms in \<open>auto intro!: safe_bind safe_member safe_custom_struct safe_return\<close>)
  then have "safe a cfg (parse_custom_struct_with_fallback cfg (crr_ops cfg) ms obj)"
    unfolding fallback_simp [abs_def] by (intro safe_bind safe_optimistic assms)
  then show ?thesis unfolding parse_custom_struct_optimistic_for_large_def [abs_def]
    by (intro safe_if safe_custom_struct assms)
qed

section \<open>Every type\<close>

text \<open>\<^verbatim>\<open>std::array\<close> is left out: its elements are stored without a check of the size.\<close>

fun array_free :: "ty \<Rightarrow> bool" where
  "array_free (TSeq kind t) = array_free t"
| "array_free (TOrd kind t) = (growing kind \<and> array_free t)"
| "array_free (TTuple ts) = list_all array_free ts"
| "array_free (TMembers ts init) = list_all array_free ts"
| "array_free (TTagged ids ts init) = list_all array_free ts"
| "array_free _ = True"

lemma safe_then_val: "safe a cfg P \<Longrightarrow> safe a cfg (\<lambda>s. then_val f (P s))"
  unfolding then_val_def by (intro safe_bind safe_return)

lemma safe_read_var_prim: "safe a cfg (read_var_prim (crr_ops cfg) p)"
  by (cases p) (simp_all add: read_var_prim.simps [abs_def] safe_bind safe_read_var_uint safe_read_var_bool safe_return)

lemma im_parse_in_members: "m \<in> set (in_members ids fixeds Ps) \<Longrightarrow> im_parse m \<in> set Ps"
  by (auto simp: in_members_def dest!: set_zip_rightD)

lemma safe_parse:
  assumes "debug cfg"
  shows "a \<or> array_free t \<Longrightarrow> safe a cfg (parse cfg (crr_ops cfg) t)"
proof (induction t)
  case (TTagged ids ts init)
  have "safe a cfg (im_parse m)"
    if "m \<in> set (in_members ids (map fixed_size ts) (map (parse cfg (crr_ops cfg)) ts))" for m
    using im_parse_in_members [OF that] TTagged by (auto simp: list_all_iff)
  then show ?case unfolding parse.simps by (intro safe_then_val safe_optimistic_for_large assms)
qed (use assms in \<open>auto simp: list_all_iff parse_enum_def parse_byte_def
    intro!: safe_then_val safe_read_prim safe_read_var_prim safe_bind safe_return safe_parse_sequential
      safe_parse_ignore_order safe_read_tuple safe_parse_tuple\<close>)

lemma parse_from_string_safe:
  assumes "debug cfg" and "length str < fuel cfg" and "parse_from_string cfg t str = Inl e"
  shows "e \<in> parse_errors (\<not> array_free t)"
proof -
  have "in_range cfg (char_range_reader_new str)"
    using assms(2) by (simp add: in_range_def char_range_reader_new_def)
  then have "safe_result (\<not> array_free t) (char_range_reader_new str) (parse cfg (crr_ops cfg) t (char_range_reader_new str))"
    using safe_parse [OF assms(1), of "\<not> array_free t" t] unfolding safe_def by blast
  moreover have "parse cfg (crr_ops cfg) t (char_range_reader_new str) = Inl e"
    using assms(3) by (auto simp: parse_from_string_def rbind_Inl_iff split: prod.splits)
  ultimately show ?thesis by simp
qed

section \<open>The unchecked build\<close>

text \<open>
  An unknown member with the length \<open>2 ^ 64 - 11\<close>: converted to a signed count without the
  check it is -11, and \<^verbatim>\<open>ignore\<close> moves the reader back to the start of the struct.
\<close>

definition rewind_input :: "byte list" where
  "rewind_input = [1, 0xF5, 0xFF, 0xFF, 0xFF, 0xFF, 0xFF, 0xFF, 0xFF, 0xFF, 0x01]"

lemma rewind_read:
  "read_var_uint (crr_ops cfg) \<lparr>r_range = rewind_input, r_cur = 1\<rparr> =
   Inr (0xFFFFFFFFFFFFFFF5 :: 64 word, \<lparr>r_range = rewind_input, r_cur = 11\<rparr>)"
  by (simp add: read_var_uint_def read_var_uint_loop.simps rewind_input_def crr_ops_def crr_get_def
      crr_at_def r_end_def shift_or_def)

lemma member_rewinds:
  "\<not> debug cfg \<Longrightarrow>
   parse_custom_struct_member cfg (crr_ops cfg) 1 [] i obj \<lparr>r_range = rewind_input, r_cur = 1\<rparr> =
   Inr (obj, char_range_reader_new rewind_input)"
  by (simp add: rewind_read to_signed_def)
    (simp add: crr_ops_def crr_ignore_def char_range_reader_new_def)

lemma rewind_id:
  "parse_id (crr_ops cfg) (char_range_reader_new rewind_input) = Inr (1, \<lparr>r_range = rewind_input, r_cur = 1\<rparr>)"
  by (simp add: parse_id_def read_prim_def crr_ops_def crr_get_def crr_at_def r_end_def
      char_range_reader_new_def rewind_input_def)

lemma struct_never_returns:
  assumes "\<not> debug cfg" and "1 \<notin> set (map im_id ms)"
  shows "parse_custom_struct k cfg (crr_ops cfg) ms obj (char_range_reader_new rewind_input) = Inl OutOfFuel"
proof (induction k)
  case (Suc k)
  then show ?case
    using crr.parse_member_unknown [OF assms(2), of cfg cfg 0 obj] member_rewinds [OF assms(1), of 0 obj]
    by (simp add: rewind_id del: parse_custom_struct_member.simps)
qed simp

lemma optimistic_never_returns:
  assumes "\<not> debug cfg" and "1 \<notin> set (map im_id ms)"
  shows "parse_custom_struct_optimistic_for_large cfg (crr_ops cfg) ms obj (char_range_reader_new rewind_input) =
    Inl OutOfFuel"
proof (cases "ms = []")
  case False
  then have "parse_custom_struct_optimistic cfg (crr_ops cfg) ms 0 obj (char_range_reader_new rewind_input) =
      Inr ((1, obj), \<lparr>r_range = rewind_input, r_cur = 1\<rparr>)"
    using assms(2) by (cases ms) (simp_all add: rewind_id)
  then show ?thesis
    using struct_never_returns [OF assms] crr.parse_member_unknown [OF assms(2), of cfg cfg 0 obj]
      member_rewinds [OF assms(1), of 0 obj]
    by (simp add: parse_custom_struct_optimistic_for_large_def parse_custom_struct_with_fallback_def
        del: parse_custom_struct_member.simps)
qed (use struct_never_returns [OF assms] in \<open>simp add: parse_custom_struct_optimistic_for_large_def\<close>)

end
