(* ===== verification/Samples.thy ===== *)
theory Samples
  imports Safety
begin

text \<open>
  Concrete configurations, types and values, at which the properties are instantiated: a
  tagged struct with a fixed-size member, a member of variable size and a nested tuple, and
  the next version of it.
\<close>

definition debug_cfg :: config where
  "debug_cfg = \<lparr>debug = True, threshold = 8, fuel = 256\<rparr>"

definition release_cfg :: config where
  "release_cfg = \<lparr>debug = False, threshold = 8, fuel = 256\<rparr>"

definition point_ty :: ty where
  "point_ty = TTagged [1, 2, 4] [TPrim Num4, TSeq (SeqVec 100) (TVar Num8), TTuple [TPrim Num2, TPrim Bool1]]
     [VPrim (P4 0), VSeq [], VRec [VPrim (P2 0), VPrim (P1 0)]]"

definition point_val :: val where
  "point_val = VRec [VPrim (P4 7), VSeq [VPrim (P8 300), VPrim (P8 5)], VRec [VPrim (P2 513), VPrim (P1 1)]]"

definition point_bytes :: "byte list" where
  "point_bytes = [1, 4, 7, 0, 0, 0, 2, 4, 2, 172, 2, 5, 4, 3, 1, 2, 1, 0]"

definition point2_ty :: ty where
  "point2_ty = TTagged [3, 2] [TPrim Num1, TSeq (SeqVec 100) (TVar Num8)] [VPrim (P1 9), VSeq []]"

lemma fuel_enough_debug: "fuel_enough debug_cfg"
  by (simp add: fuel_enough_def debug_cfg_def)

lemma point_encode: "encode point_ty point_val = point_bytes"
  by code_simp

lemma point_type: "wf_ty point_ty" "has_type point_ty point_val"
  by (simp_all add: point_ty_def point_val_def has_type.simps apply_each_def good_ids_def)

lemma point_encodable: "encodable point_ty point_val"
  using point_encode point_type by (simp add: encodable_def point_bytes_def)

end
