(* ===== verification/StaticSizes.thy ===== *)
theory StaticSizes
  imports PbssTheorems
begin

text \<open>
  The compile-time side of the sizes (\<^verbatim>\<open>impl/pbss-size.hh\<close>), and the two wrapper types of the
  library: \<^verbatim>\<open>var_uint\<close> (\<^verbatim>\<open>pbss/var-uint.hh\<close>) and \<^verbatim>\<open>uninitialized_byte\<close>
  (\<^verbatim>\<open>pbss/uninitialized-byte.hh\<close>). A size of the code exists at three levels, \<^verbatim>\<open>fixed_size\<close> (of the
  type), \<^verbatim>\<open>static_size\<close> (of a constant) and \<^verbatim>\<open>aot_size\<close> (of any value); where one exists, the
  weaker ones agree with it.
\<close>

section \<open>var_uint\<close>

text \<open>The template parameter is the integer type.\<close>

datatype 'a var_uint = VarUint (vu_value: 'a)

definition make_var_uint :: "'a \<Rightarrow> 'a var_uint" where
  "make_var_uint x = VarUint x"

definition var_uint_eq :: "('a::linorder) var_uint \<Rightarrow> 'a var_uint \<Rightarrow> bool" where
  "var_uint_eq a b = (vu_value a = vu_value b)"
definition var_uint_ne :: "('a::linorder) var_uint \<Rightarrow> 'a var_uint \<Rightarrow> bool" where
  "var_uint_ne a b = (vu_value a \<noteq> vu_value b)"
definition var_uint_lt :: "('a::linorder) var_uint \<Rightarrow> 'a var_uint \<Rightarrow> bool" where
  "var_uint_lt a b = (vu_value a < vu_value b)"
definition var_uint_le :: "('a::linorder) var_uint \<Rightarrow> 'a var_uint \<Rightarrow> bool" where
  "var_uint_le a b = (vu_value a \<le> vu_value b)"
definition var_uint_gt :: "('a::linorder) var_uint \<Rightarrow> 'a var_uint \<Rightarrow> bool" where
  "var_uint_gt a b = (vu_value a > vu_value b)"
definition var_uint_ge :: "('a::linorder) var_uint \<Rightarrow> 'a var_uint \<Rightarrow> bool" where
  "var_uint_ge a b = (vu_value a \<ge> vu_value b)"

text \<open>The comparisons make it a linear order.\<close>

instantiation var_uint :: (linorder) linorder
begin

definition less_eq_var_uint :: "'a var_uint \<Rightarrow> 'a var_uint \<Rightarrow> bool" where
  "less_eq_var_uint a b = var_uint_le a b"

definition less_var_uint :: "'a var_uint \<Rightarrow> 'a var_uint \<Rightarrow> bool" where
  "less_var_uint a b = var_uint_lt a b"

instance
  by standard (auto simp: less_eq_var_uint_def less_var_uint_def var_uint_le_def var_uint_lt_def var_uint.expand)

end

lemma var_uint_comparisons:
  "var_uint_eq a b \<longleftrightarrow> a = b" "var_uint_ne a b \<longleftrightarrow> a \<noteq> b" "var_uint_lt a b \<longleftrightarrow> a < b"
  "var_uint_le a b \<longleftrightarrow> a \<le> b" "var_uint_gt a b \<longleftrightarrow> b < a" "var_uint_ge a b \<longleftrightarrow> b \<le> a"
  by (auto simp: var_uint_eq_def var_uint_ne_def var_uint_gt_def var_uint_ge_def less_eq_var_uint_def
      less_var_uint_def var_uint_le_def var_uint_lt_def var_uint.expand)

section \<open>uninitialized_byte\<close>

text \<open>A union of an empty struct and a character.\<close>

datatype uninitialized_byte = EmptyByte | ByteValue byte

definition ub_default :: uninitialized_byte where "ub_default = EmptyByte"
definition ub_of_char :: "byte \<Rightarrow> uninitialized_byte" where "ub_of_char ch = ByteValue ch"

fun ub_char :: "uninitialized_byte \<Rightarrow> byte result" where
  "ub_char EmptyByte = Inl (Undefined ReadIndeterminate)"
| "ub_char (ByteValue ch) = Inr ch"

definition ub_val :: "uninitialized_byte \<Rightarrow> val" where
  "ub_val b = (case b of EmptyByte \<Rightarrow> Indet | ByteValue ch \<Rightarrow> VPrim (P1 ch))"

lemma serialize_uninitialized:
  "serialize cfg ops TByte (ub_val b) w = rbind (ub_char b) (\<lambda>ch. serialize_byte ops ch w)"
  by (cases b) (simp_all add: ub_val_def)

section \<open>static_size\<close>

fun static_var_prim :: "prim \<Rightarrow> 64 word" where
  "static_var_prim (P1 n) = static_size_vuint n" | "static_var_prim (P2 n) = static_size_vuint n"
| "static_var_prim (P4 n) = static_size_vuint n" | "static_var_prim (P8 n) = static_size_vuint n"
| "static_var_prim (P16 n) = static_size_vuint n"

definition tuple_static_size :: "('v \<Rightarrow> 64 word option) list \<Rightarrow> 'v list \<Rightarrow> 64 word option" where
  "tuple_static_size statics vs = map_option sumall (all_some (map (\<lambda>(static, v). static v) (zip statics vs)))"

text \<open>\<open>None\<close> where the overload is not there. Structs have no \<^verbatim>\<open>static_size\<close> of their own.\<close>

fun static_size :: "ty \<Rightarrow> val \<Rightarrow> 64 word option" where
  "static_size (TVar p) = (\<lambda>v. case v of VPrim x \<Rightarrow> Some (static_var_prim x) | _ \<Rightarrow> Some 0)"
| "static_size (TTuple ts) = (\<lambda>v. case fixed_size (TTuple ts) of
     Some n \<Rightarrow> Some n | None \<Rightarrow> tuple_static_size (map static_size ts) (elems_of v))"
| "static_size t = (\<lambda>v. fixed_size t)"

definition has_no_fixed_size :: "ty \<Rightarrow> bool" where
  "has_no_fixed_size t \<longleftrightarrow> fixed_size t = None"

fun has_no_static_size :: "ty \<Rightarrow> bool" where
  "has_no_static_size (TVar p) = False"
| "has_no_static_size (TTuple ts) = (has_no_fixed_size (TTuple ts) \<and> list_ex has_no_static_size ts)"
| "has_no_static_size t = has_no_fixed_size t"

text \<open>
  The overload set of \<^verbatim>\<open>aot_size\<close>: through \<^verbatim>\<open>static_size\<close> where there is one, and otherwise the
  type's own.
\<close>

definition aot_size_overload :: "ty \<Rightarrow> val \<Rightarrow> 64 word" where
  "aot_size_overload t v = (case static_size t v of Some n \<Rightarrow> n | None \<Rightarrow> aot_size t v)"

lemma static_var_prim_eq: "static_var_prim x = aot_var_prim x"
  by (cases x) (simp_all add: static_size_vuint_eq aot_size_vuint_eq)

lemma fixed_is_aot: "fixed_size t = Some n \<Longrightarrow> aot_size t v = n"
  by (cases t) (auto simp: or_fixed_def)

lemma static_is_aot: "static_size t v = Some n \<Longrightarrow> aot_size t v = n"
proof (induction t arbitrary: v n)
  case (TVar p)
  then show ?case by (cases v) (auto simp: static_var_prim_eq)
next
  case (TTuple ts)
  show ?case
  proof (cases "fixed_size (TTuple ts)")
    case None
    let ?vs = "elems_of v"
    obtain ns where ns: "all_some (map (\<lambda>(s, v). s v) (zip (map static_size ts) ?vs)) = Some ns" "n = sumall ns"
      using TTuple.prems None by (auto simp: tuple_static_size_def)
    then have eq: "map (\<lambda>(s, v). s v) (zip (map static_size ts) ?vs) = map Some ns"
      by (simp add: all_some_iff)
    have "map (\<lambda>(a, v). a v) (zip (map aot_size ts) ?vs) = ns"
    proof (intro nth_equalityI)
      fix i assume "i < length (map (\<lambda>(a, v). a v) (zip (map aot_size ts) ?vs))"
      then have i: "i < length ts" "i < length ?vs" by simp_all
      moreover have len: "min (length ts) (length ?vs) = length ns" using arg_cong [OF eq, of length] by simp
      ultimately have "static_size (ts ! i) (?vs ! i) = Some (ns ! i)"
        using arg_cong [OF eq, of "\<lambda>xs. xs ! i"] by simp
      then show "map (\<lambda>(a, v). a v) (zip (map aot_size ts) ?vs) ! i = ns ! i"
        using TTuple.IH [of "ts ! i"] i by simp
    qed (use arg_cong [OF eq, of length] in simp)
    then show ?thesis using None ns by (simp add: or_fixed_def tuple_aot_size_def)
  qed (use TTuple.prems in \<open>auto simp: or_fixed_def\<close>)
qed (use fixed_is_aot in \<open>auto simp: or_fixed_def\<close>)

lemma static_size_None:
  assumes "has_type t v"
  shows "has_no_static_size t \<longleftrightarrow> static_size t v = None"
  using assms
proof (induction t arbitrary: v)
  case (TTuple ts)
  obtain vs where v: "v = VRec vs" and vs: "rec_type ts vs" using TTuple.prems by (auto simp: has_type_rec)
  show ?case
  proof (cases "fixed_size (TTuple ts)")
    case None
    have len: "length vs = length ts" and ty: "\<And>i. i < length ts \<Longrightarrow> has_type (ts ! i) (vs ! i)"
      using vs by (auto simp: rec_type_def)
    have ex: "None \<in> set xs \<longleftrightarrow> all_some xs = None" for xs :: "64 word option list"
      by (induction xs rule: all_some.induct) auto
    have "list_ex has_no_static_size ts \<longleftrightarrow> (\<exists>i < length ts. static_size (ts ! i) (vs ! i) = None)"
    proof -
      have "has_no_static_size (ts ! i) \<longleftrightarrow> static_size (ts ! i) (vs ! i) = None" if "i < length ts" for i
        using TTuple.IH [of "ts ! i" "vs ! i"] ty that by simp
      then show ?thesis by (auto simp: list_ex_length)
    qed
    also have "\<dots> \<longleftrightarrow> None \<in> set (map (\<lambda>i. static_size (ts ! i) (vs ! i)) [0..<length ts])"
      by (auto intro: rev_image_eqI)
    also have "map (\<lambda>i. static_size (ts ! i) (vs ! i)) [0..<length ts] = map (\<lambda>(s, v). s v) (zip (map static_size ts) vs)"
      by (rule nth_equalityI) (simp_all add: len)
    finally show ?thesis
      using None by (simp add: v elems_of_def tuple_static_size_def ex [symmetric] has_no_fixed_size_def)
  qed (simp add: has_no_fixed_size_def)
qed (auto simp: has_no_fixed_size_def split: val.splits)

end
