(* ===== verification/TypeSoundness.thy ===== *)
theory TypeSoundness
  imports Safety
begin

text \<open>
  Whatever bytes a stream delivers, an object the parser returns has the type it was asked for:
  containers respect their capacity and their order, \<^verbatim>\<open>bool\<close>s are 0 or 1 and no member is
  indeterminate. Nothing is assumed of the stream. The elements of a \<^verbatim>\<open>std::array\<close> for which there
  was no input are those it was made with, and those of an unordered container come in the
  order the library gives them.
\<close>

section \<open>Objects from a stream\<close>

fun filled :: "'v ord_kind \<Rightarrow> ('v \<Rightarrow> bool) \<Rightarrow> 'v list \<Rightarrow> bool" where
  "filled (ArrayN init) Q vs \<longleftrightarrow> length vs = length init \<and>
     (\<exists>n \<le> length init. list_all Q (take n vs) \<and> drop n vs = drop n init)"
| "filled (Hashed m ins) Q vs \<longleftrightarrow> list_all Q vs"
| "filled kind Q vs \<longleftrightarrow> ord_sorted kind vs \<and> list_all Q vs"

fun parsed_type :: "ty \<Rightarrow> val \<Rightarrow> bool" where
  "parsed_type (TSeq kind t) = (\<lambda>v. case v of VSeq vs \<Rightarrow> fits kind (length vs) \<and> list_all (parsed_type t) vs | _ \<Rightarrow> False)"
| "parsed_type (TOrd kind t) = (\<lambda>v. case v of VSeq vs \<Rightarrow> filled kind (parsed_type t) vs | _ \<Rightarrow> False)"
| "parsed_type (TTuple ts) = (\<lambda>v. case v of VRec vs \<Rightarrow>
     length vs = length ts \<and> list_all (\<lambda>b. b) (apply_each (map parsed_type ts) vs) | _ \<Rightarrow> False)"
| "parsed_type (TMembers ts init) = (\<lambda>v. case v of VRec vs \<Rightarrow>
     length vs = length ts \<and> list_all (\<lambda>b. b) (apply_each (map parsed_type ts) vs) | _ \<Rightarrow> False)"
| "parsed_type (TTagged ids ts init) = (\<lambda>v. case v of VRec vs \<Rightarrow>
     length vs = length ts \<and> list_all (\<lambda>b. b) (apply_each (map parsed_type ts) vs) | _ \<Rightarrow> False)"
| "parsed_type t = has_type t"

definition parsed_rec :: "ty list \<Rightarrow> val list \<Rightarrow> bool" where
  "parsed_rec ts vs \<longleftrightarrow> length vs = length ts \<and> (\<forall>i < length ts. parsed_type (ts ! i) (vs ! i))"

lemma parsed_type_rec:
  "parsed_type (TTuple ts) v \<longleftrightarrow> (\<exists>vs. v = VRec vs \<and> parsed_rec ts vs)"
  "parsed_type (TMembers ts init) v \<longleftrightarrow> (\<exists>vs. v = VRec vs \<and> parsed_rec ts vs)"
  "parsed_type (TTagged ids ts init) v \<longleftrightarrow> (\<exists>vs. v = VRec vs \<and> parsed_rec ts vs)"
  by (cases v; auto simp: all_apply_each parsed_rec_def)+

lemma parsed_type_seq:
  "parsed_type (TSeq kind t) v \<longleftrightarrow> (\<exists>vs. v = VSeq vs \<and> fits kind (length vs) \<and> (\<forall>x \<in> set vs. parsed_type t x))"
  "parsed_type (TOrd okind t) v \<longleftrightarrow> (\<exists>vs. v = VSeq vs \<and> filled okind (parsed_type t) vs)"
  by (cases v; simp add: list_all_iff)+

lemma parsed_type_prim:
  "parsed_type (TPrim p) v \<longleftrightarrow> (\<exists>x. v = VPrim x \<and> prim_has_type x p)"
  "parsed_type (TEnum p) v \<longleftrightarrow> (\<exists>x. v = VPrim x \<and> prim_has_type x p)"
  "parsed_type (TVar p) v \<longleftrightarrow> (\<exists>x. v = VPrim x \<and> prim_has_type x p)"
  "parsed_type TByte v \<longleftrightarrow> (\<exists>b. v = VPrim (P1 b))"
  by (simp_all add: has_type_prim)

lemmas parsed_type_cases = parsed_type_prim parsed_type_seq parsed_type_rec

declare parsed_type.simps [simp del]

text \<open>Without these two kinds of containers this is what having the type means.\<close>

fun plain_containers :: "ty \<Rightarrow> bool" where
  "plain_containers (TSeq kind t) = plain_containers t"
| "plain_containers (TOrd kind t) = ((case kind of ArrayN init \<Rightarrow> False | Hashed m ins \<Rightarrow> False | _ \<Rightarrow> True) \<and> plain_containers t)"
| "plain_containers (TTuple ts) = list_all plain_containers ts"
| "plain_containers (TMembers ts init) = list_all plain_containers ts"
| "plain_containers (TTagged ids ts init) = list_all plain_containers ts"
| "plain_containers _ = True"

lemma parsed_plain: "plain_containers t \<Longrightarrow> parsed_type t v \<longleftrightarrow> has_type t v"
proof (induction t arbitrary: v)
  case (TSeq kind t)
  then show ?case by (simp add: parsed_type_seq has_type_seq)
next
  case (TOrd kind t)
  then show ?case by (cases kind) (simp_all add: parsed_type_seq has_type_seq list_all_iff)
qed (auto simp: parsed_type_cases has_type_cases parsed_rec_def rec_type_def list_all_length)

section \<open>What an action yields\<close>

definition yields :: "('s \<Rightarrow> ('v \<times> 's) result) \<Rightarrow> ('v \<Rightarrow> bool) \<Rightarrow> bool" where
  "yields P Q \<longleftrightarrow> (\<forall>s v s'. P s = Inr (v, s') \<longrightarrow> Q v)"

lemma yieldsI: "(\<And>s v s'. P s = Inr (v, s') \<Longrightarrow> Q v) \<Longrightarrow> yields P Q"
  by (auto simp: yields_def)

lemma yieldsD: "yields P Q \<Longrightarrow> P s = Inr (v, s') \<Longrightarrow> Q v"
  by (auto simp: yields_def)

lemma yields_then_val: "yields P (\<lambda>x. Q (f x)) \<Longrightarrow> yields (\<lambda>s. then_val f (P s)) Q"
  by (force simp: yields_def then_val_def rbind_Inr_iff)

section \<open>Scalars\<close>

lemma yields_read_prim: "yields (read_prim ops p) (\<lambda>x. prim_has_type x p)"
  by (rule yieldsI) (auto simp: read_prim_def rbind_Inr_iff static_cast_char_has_type prim_of_has_type
      split: if_splits option.splits)

lemma read_bool_loop_yields: "read_var_bool_loop ops n k s = Inr (b, s') \<Longrightarrow> b = 0 \<or> b = 1"
proof (induction ops n k s rule: read_var_bool_loop.induct)
  case (1 ops n k s)
  obtain c s1 where c: "s_get ops s = Inr (c, s1)"
    using 1(2) by (auto simp: read_var_bool_loop.simps [of ops n k] rbind_Inr_iff)
  then obtain d where d: "c = Some d" "\<not> 32 \<le> k"
    using 1(2) by (cases c) (auto simp: read_var_bool_loop.simps [of ops n k] split: if_splits)
  show ?case using 1(2) 1(1) [OF c refl d(1,2) refl] c d
    by (auto simp: read_var_bool_loop.simps [of ops n k] Let_def split: if_splits)
qed

lemma yields_var_prim: "yields (read_var_prim ops p) (\<lambda>x. prim_has_type x p)"
  by (rule yieldsI, cases p) (auto simp: rbind_Inr_iff read_var_bool_def dest: read_bool_loop_yields)

section \<open>Containers\<close>

text \<open>
  The comparison of a container is a strict weak order on the elements, and an unordered one has
  no elements but those inserted.
\<close>

definition weak_order :: "('v \<Rightarrow> 'v \<Rightarrow> bool) \<Rightarrow> ('v \<Rightarrow> bool) \<Rightarrow> bool" where
  "weak_order cmp Q \<longleftrightarrow>
     (\<forall>a b. Q a \<longrightarrow> Q b \<longrightarrow> cmp a b \<longrightarrow> \<not> cmp b a) \<and>
     (\<forall>a b c. Q a \<longrightarrow> Q b \<longrightarrow> Q c \<longrightarrow> cmp a b \<longrightarrow> cmp b c \<longrightarrow> cmp a c) \<and>
     (\<forall>a b c. Q a \<longrightarrow> Q b \<longrightarrow> Q c \<longrightarrow> cmp a c \<longrightarrow> cmp a b \<or> cmp b c)"

fun kind_ok :: "'v ord_kind \<Rightarrow> ('v \<Rightarrow> bool) \<Rightarrow> bool" where
  "kind_ok (OrdUnique cmp) Q = weak_order cmp Q"
| "kind_ok (OrdMulti cmp) Q = weak_order cmp Q"
| "kind_ok (ArrayN init) Q = True"
| "kind_ok (Hashed m ins) Q = (\<forall>x c. set (ins x c) \<subseteq> insert x (set c))"

lemma set_insert_unique: "set (insert_unique cmp x ys) \<subseteq> insert x (set ys)"
  by (induction ys) auto

lemma set_insert_multi: "set (insert_multi cmp x ys) = insert x (set ys)"
  by (induction ys) auto

lemma sorted_insert_unique:
  "weak_order cmp Q \<Longrightarrow> Q x \<Longrightarrow> \<forall>y \<in> set ys. Q y \<Longrightarrow> sorted_wrt (\<lambda>x y. cmp x y \<and> \<not> cmp y x) ys \<Longrightarrow>
   sorted_wrt (\<lambda>x y. cmp x y \<and> \<not> cmp y x) (insert_unique cmp x ys)"
proof (induction ys)
  case (Cons y ys)
  have o: "Q a \<Longrightarrow> Q b \<Longrightarrow> cmp a b \<Longrightarrow> \<not> cmp b a" "Q a \<Longrightarrow> Q b \<Longrightarrow> Q c \<Longrightarrow> cmp a b \<Longrightarrow> cmp b c \<Longrightarrow> cmp a c"
    for a b c using Cons.prems(1) unfolding weak_order_def by blast+
  have y: "Q y" "\<forall>z \<in> set ys. Q z" "\<forall>z \<in> set ys. cmp y z" using Cons.prems by auto
  consider "cmp y x" | "\<not> cmp y x" "cmp x y" | "\<not> cmp y x" "\<not> cmp x y" by blast
  then show ?case
  proof cases
    case 1
    have "cmp y z \<and> \<not> cmp z y" if "z \<in> set (insert_unique cmp x ys)" for z
      using that set_insert_unique [of cmp x ys] 1 y o(1) Cons.prems(2) by blast
    then show ?thesis using 1 Cons by simp
  next
    case 2
    have "cmp x z \<and> \<not> cmp z x" if "z \<in> set ys" for z
      using that 2 y o(2) [OF Cons.prems(2) y(1), of z] o(1) [OF Cons.prems(2), of z] by blast
    then show ?thesis using 2 Cons.prems by simp
  qed (use Cons.prems in simp)
qed simp

lemma sorted_insert_multi:
  "weak_order cmp Q \<Longrightarrow> Q x \<Longrightarrow> \<forall>y \<in> set ys. Q y \<Longrightarrow> sorted_wrt (\<lambda>x y. \<not> cmp y x) ys \<Longrightarrow>
   sorted_wrt (\<lambda>x y. \<not> cmp y x) (insert_multi cmp x ys)"
proof (induction ys)
  case (Cons y ys)
  have o: "Q a \<Longrightarrow> Q b \<Longrightarrow> cmp a b \<Longrightarrow> \<not> cmp b a" "Q a \<Longrightarrow> Q b \<Longrightarrow> Q c \<Longrightarrow> cmp a b \<Longrightarrow> cmp b c \<Longrightarrow> cmp a c"
    for a b c using Cons.prems(1) unfolding weak_order_def by blast+
  have y: "Q y" "\<forall>z \<in> set ys. Q z" "\<forall>z \<in> set ys. \<not> cmp z y" using Cons.prems by auto
  show ?case
  proof (cases "cmp x y")
    case True
    have "\<not> cmp z x" if "z \<in> set ys" for z
    proof
      assume "cmp z x"
      then have "cmp z y" using o(2) [of z x y] that y Cons.prems(2) True by blast
      then show False using y(3) that by blast
    qed
    then show ?thesis using True Cons.prems o(1) [OF Cons.prems(2) y(1) True] by simp
  next
    case False
    then show ?thesis using Cons y by (simp add: set_insert_multi)
  qed
qed simp

lemma push_back_loop_yields:
  "yields P Q \<Longrightarrow> push_back_loop P n coll s = Inr (vs, s') \<Longrightarrow> \<forall>x \<in> set coll. Q x \<Longrightarrow>
   (\<forall>x \<in> set vs. Q x) \<and> length vs = length coll + n"
proof (induction n arbitrary: coll s)
  case (Suc n)
  obtain v s1 where v: "P s = Inr (v, s1)" "push_back_loop P n (coll @ [v]) s1 = Inr (vs, s')"
    using Suc.prems(2) by (auto simp: rbind_Inr_iff)
  have "Q v" by (rule yieldsD [OF Suc.prems(1) v(1)])
  then have "\<forall>x \<in> set (coll @ [v]). Q x" using Suc.prems(3) by simp
  from Suc.IH [OF Suc.prems(1) v(2) this] show ?case by simp
qed simp

lemma length_chunks: "length (chunks sz n bs) = n"
  by (induction sz n bs rule: chunks.induct) simp_all

lemma elem_of_mem_has_type:
  assumes "is_memory_layout t" and "t \<noteq> TPrim Bool1"
  shows "parsed_type t (elem_of_mem t bs)"
proof -
  have "prim_has_type (prim_of p bs) p" if "p \<noteq> Bool1" for p
    using that by (cases p) simp_all
  then show ?thesis using assms by (cases t) (simp_all add: parsed_type_prim)
qed

lemma fits_of_reserve: "reserve_if_applicable kind n = Inr u \<Longrightarrow> fits kind n"
    "resize_if_applicable kind n = Inr u \<Longrightarrow> fits kind n"
  by (cases kind; simp split: if_splits)+

lemma yields_sequential:
  assumes "yields P (parsed_type t)"
  shows "yields (parse_sequential cfg ops kind (contiguous_seq kind t \<and> is_memory_layout t) sz (elem_of_mem t) P)
    (\<lambda>vs. fits kind (length vs) \<and> (\<forall>x \<in> set vs. parsed_type t x))"
proof (rule yieldsI)
  fix s vs s'
  assume "parse_sequential cfg ops kind (contiguous_seq kind t \<and> is_memory_layout t) sz (elem_of_mem t) P s = Inr (vs, s')"
  then have "\<exists>n s1. if contiguous_seq kind t \<and> is_memory_layout t
      then parse_elems_read cfg ops kind sz (elem_of_mem t) n s1 = Inr (vs, s')
      else parse_elems_each kind P n s1 = Inr (vs, s')"
    by (cases "contiguous_seq kind t \<and> is_memory_layout t") (auto simp: parse_sequential_def rbind_Inr_iff)
  then obtain n s1 where n: "if contiguous_seq kind t \<and> is_memory_layout t
      then parse_elems_read cfg ops kind sz (elem_of_mem t) n s1 = Inr (vs, s')
      else parse_elems_each kind P n s1 = Inr (vs, s')" by blast
  show "fits kind (length vs) \<and> (\<forall>x \<in> set vs. parsed_type t x)"
  proof (cases "contiguous_seq kind t \<and> is_memory_layout t")
    case True
    then have "parse_elems_read cfg ops kind sz (elem_of_mem t) n s1 = Inr (vs, s')" using n by simp
    then obtain u m where "resize_if_applicable kind (unat n) = Inr u" "vs = map (elem_of_mem t) (chunks sz (unat n) m)"
      by (auto simp: parse_elems_read_def rbind_Inr_iff Let_def split: if_splits)
    then show ?thesis using fits_of_reserve(2) elem_of_mem_has_type True contiguous_not_bool
      by (auto simp: length_chunks)
  next
    case False
    then have "parse_elems_each kind P n s1 = Inr (vs, s')" using n by simp
    then obtain u where "reserve_if_applicable kind (unat n) = Inr u" "push_back_loop P (unat n) [] s1 = Inr (vs, s')"
      by (auto simp: parse_elems_each_def rbind_Inr_iff)
    then show ?thesis using fits_of_reserve(1) push_back_loop_yields [OF assms, of "unat n" "[]" s1 vs s'] by auto
  qed
qed

text \<open>The container after \<open>i\<close> elements.\<close>

definition filled_to :: "nat \<Rightarrow> 'v ord_kind \<Rightarrow> ('v \<Rightarrow> bool) \<Rightarrow> 'v list \<Rightarrow> bool" where
  "filled_to i kind Q c \<longleftrightarrow> (case kind of
     ArrayN init \<Rightarrow> i \<le> length init \<and> length c = length init \<and> list_all Q (take i c) \<and> drop i c = drop i init
   | _ \<Rightarrow> filled kind Q c)"

lemma filled_to_filled: "filled_to i kind Q c \<Longrightarrow> filled kind Q c"
  by (cases kind) (auto simp: filled_to_def)

lemma maybe_insert_keeps:
  assumes "kind_ok kind Q" and "Q x" and "filled_to i kind Q c" and "maybe_insert kind i c x = Inr c'"
  shows "filled_to (Suc i) kind Q c'"
proof (cases kind)
  case (OrdUnique cmp)
  then show ?thesis using assms set_insert_unique [of cmp x c] sorted_insert_unique [of cmp Q x c]
    by (auto simp: filled_to_def list_all_iff)
next
  case (OrdMulti cmp)
  then show ?thesis using assms sorted_insert_multi [of cmp Q x c] by (auto simp: filled_to_def list_all_iff set_insert_multi)
next
  case (ArrayN init)
  then have c: "i < length c" "length c = length init" "c' = c[i := x]" "list_all Q (take i c)" "drop i c = drop i init"
    using assms(3,4) by (auto simp: filled_to_def split: if_splits)
  have "drop (Suc i) c = drop (Suc i) init" using c(5) by (simp flip: tl_drop add: drop_Suc)
  then show ?thesis using c assms(2) by (simp add: ArrayN filled_to_def take_Suc_conv_app_nth drop_update_cancel)
next
  case (Hashed m ins)
  then have "set c' \<subseteq> insert x (set c)" using assms(1,4) by auto
  then show ?thesis using assms(2,3) by (auto simp: Hashed filled_to_def list_all_iff)
qed

lemma insert_loop_keeps:
  "kind_ok kind Q \<Longrightarrow> yields P Q \<Longrightarrow> insert_loop kind P i n c s = Inr (vs, s') \<Longrightarrow>
   filled_to i kind Q c \<Longrightarrow> filled_to (i + n) kind Q vs"
proof (induction n arbitrary: i c s)
  case (Suc n)
  obtain v s1 c1 where v: "P s = Inr (v, s1)" "maybe_insert kind i c v = Inr c1"
      "insert_loop kind P (Suc i) n c1 s1 = Inr (vs, s')"
    using Suc.prems(3) by (auto simp: rbind_Inr_iff)
  have "Q v" by (rule yieldsD [OF Suc.prems(2) v(1)])
  from maybe_insert_keeps [OF Suc.prems(1) this Suc.prems(4) v(2)] Suc.IH [OF Suc.prems(1,2) v(3)]
  show ?case by simp
qed simp

lemma yields_ignore_order:
  assumes "kind_ok kind Q" and "yields P Q"
  shows "yields (parse_ignore_order ops kind P) (filled kind Q)"
proof (rule yieldsI)
  fix s vs s'
  assume "parse_ignore_order ops kind P s = Inr (vs, s')"
  then obtain n s1 where l: "insert_loop kind P 0 n (default_container kind) s1 = Inr (vs, s')"
    by (auto simp: parse_ignore_order_def rbind_Inr_iff)
  have "filled_to 0 kind Q (default_container kind)" by (cases kind) (simp_all add: filled_to_def)
  then show "filled kind Q vs" using insert_loop_keeps [OF assms l] filled_to_filled by blast
qed

section \<open>Records\<close>

lemma read_tuple_yields:
  "(\<And>i. i < length ts \<Longrightarrow> yields (f (ts ! i)) (parsed_type (ts ! i))) \<Longrightarrow>
   read_tuple_continue (map f ts) vs s = Inr (us, s') \<Longrightarrow> parsed_rec pre vs \<Longrightarrow> parsed_rec (pre @ ts) us"
proof (induction ts arbitrary: pre vs s)
  case (Cons t ts)
  obtain v s1 where v: "f t s = Inr (v, s1)" "read_tuple_continue (map f ts) (vs @ [v]) s1 = Inr (us, s')"
    using Cons.prems(2) by (auto simp: rbind_Inr_iff)
  have "parsed_type t v" using yieldsD [OF Cons.prems(1) [of 0]] v(1) by simp
  then have "parsed_rec (pre @ [t]) (vs @ [v])"
    using Cons.prems(3) by (auto simp: parsed_rec_def nth_append less_Suc_eq)
  moreover have "yields (f (ts ! i)) (parsed_type (ts ! i))" if "i < length ts" for i
    using Cons.prems(1) [of "Suc i"] that by simp
  ultimately show ?case using Cons.IH [of "vs @ [v]" s1 "pre @ [t]"] v(2) by simp
qed simp

text \<open>The members of the object that have been assigned, or that were there from the start.\<close>

definition typed_on :: "nat set \<Rightarrow> ty list \<Rightarrow> val list \<Rightarrow> bool" where
  "typed_on A ts obj \<longleftrightarrow> length obj = length ts \<and> (\<forall>i < length ts. i \<in> A \<longrightarrow> parsed_type (ts ! i) (obj ! i))"

lemma typed_on_update:
  "typed_on A ts obj \<Longrightarrow> parsed_type (ts ! i) v \<Longrightarrow> typed_on (insert i A) ts (obj[i := v])"
  unfolding typed_on_def by (metis insertE length_list_update nth_list_update_eq nth_list_update_neq)

lemma typed_on_all: "typed_on UNIV ts obj \<longleftrightarrow> parsed_rec ts obj"
  by (auto simp: typed_on_def parsed_rec_def)

lemma parse_tuple_yields:
  "(\<And>j. j < length Ps \<Longrightarrow> yields (Ps ! j) (parsed_type (ts ! (i + j)))) \<Longrightarrow> i + length Ps = length ts \<Longrightarrow>
   typed_on {..<i} ts obj \<Longrightarrow> parse_tuple Ps i obj s = Inr (us, s') \<Longrightarrow> parsed_rec ts us"
proof (induction Ps arbitrary: i obj s)
  case Nil
  then show ?case by (auto simp: typed_on_def parsed_rec_def)
next
  case (Cons P Ps)
  obtain v s1 where v: "P s = Inr (v, s1)" "parse_tuple Ps (Suc i) (obj[i := v]) s1 = Inr (us, s')"
    using Cons.prems(4) by (auto simp: rbind_Inr_iff)
  have "parsed_type (ts ! i) v" using yieldsD [OF Cons.prems(1) [of 0]] v(1) by simp
  then have "typed_on {..<Suc i} ts (obj[i := v])"
    using typed_on_update [OF Cons.prems(3)] by (simp add: lessThan_Suc)
  moreover have "yields (Ps ! j) (parsed_type (ts ! (Suc i + j)))" if "j < length Ps" for j
    using Cons.prems(1) [of "Suc j"] that by simp
  ultimately show ?case using Cons.IH [of "Suc i"] Cons.prems(2) v(2) by simp
qed

section \<open>Tagged structs\<close>

text \<open>The members from position \<open>i\<close> on parse to their types.\<close>

definition members_sound :: "ty list \<Rightarrow> nat \<Rightarrow> (val, 's) in_member list \<Rightarrow> bool" where
  "members_sound ts i ms \<longleftrightarrow> i + length ms = length ts \<and>
     (\<forall>j < length ms. yields (im_parse (ms ! j)) (parsed_type (ts ! (i + j))))"

lemma members_sound_Cons:
  assumes "members_sound ts i (m # ms)"
  shows "yields (im_parse m) (parsed_type (ts ! i))" and "members_sound ts (Suc i) ms"
proof -
  show "yields (im_parse m) (parsed_type (ts ! i))" using assms by (force simp: members_sound_def)
  have "yields (im_parse (ms ! j)) (parsed_type (ts ! (Suc i + j)))" if "j < length ms" for j
    using assms that by (force simp: members_sound_def dest: spec [of _ "Suc j"])
  then show "members_sound ts (Suc i) ms" using assms by (simp add: members_sound_def)
qed

lemma parsed_rec_update: "parsed_rec ts obj \<Longrightarrow> parsed_type (ts ! i) v \<Longrightarrow> parsed_rec ts (obj[i := v])"
  using typed_on_update [of UNIV ts obj i v] by (simp add: typed_on_all)

lemma member_value_yields: "yields (im_parse m) Q \<Longrightarrow> yields (parse_member_value cfg ops m) Q"
  by (auto simp: yields_def parse_member_value_def rbind_Inr_iff)

lemma struct_member_yields:
  "members_sound ts i ms \<Longrightarrow> parse_custom_struct_member cfg ops tid ms i obj s = Inr (obj', s') \<Longrightarrow>
   parsed_rec ts obj \<Longrightarrow> parsed_rec ts obj'"
proof (induction ms arbitrary: i)
  case (Cons m ms)
  note m = members_sound_Cons [OF Cons.prems(1)]
  show ?case
  proof (cases "tid = im_id m")
    case True
    then obtain v where "parse_member_value cfg ops m s = Inr (v, s')" "obj' = obj[i := v]"
      using Cons.prems(2) by (auto simp: rbind_Inr_iff)
    then show ?thesis using yieldsD [OF member_value_yields [OF m(1)]] parsed_rec_update Cons.prems(3) by blast
  qed (use Cons.IH [OF m(2)] Cons.prems in simp)
qed (auto simp: rbind_Inr_iff)

lemma struct_yields:
  "members_sound ts 0 ms \<Longrightarrow> parse_custom_struct k cfg ops ms obj s = Inr (obj', s') \<Longrightarrow>
   parsed_rec ts obj \<Longrightarrow> parsed_rec ts obj'"
proof (induction k arbitrary: obj s)
  case (Suc k)
  obtain tid s1 where tid: "parse_id ops s = Inr (tid, s1)" using Suc.prems(2) by (auto simp: rbind_Inr_iff)
  show ?case
  proof (cases "tid = 0")
    case False
    then obtain obj1 s2 where o: "parse_custom_struct_member cfg ops tid ms 0 obj s1 = Inr (obj1, s2)"
        "parse_custom_struct k cfg ops ms obj1 s2 = Inr (obj', s')"
      using Suc.prems(2) tid by (auto simp: rbind_Inr_iff)
    show ?thesis by (rule Suc.IH [OF Suc.prems(1) o(2) struct_member_yields [OF Suc.prems(1) o(1) Suc.prems(3)]])
  qed (use Suc.prems tid in simp)
qed simp

text \<open>The skipping loop after the last member assigns nothing.\<close>

lemma struct_skip_keeps:
  "parse_custom_struct k cfg ops [] obj s = Inr (obj', s') \<Longrightarrow> obj' = obj"
proof (induction k arbitrary: s)
  case (Suc k)
  then show ?case by (auto simp: rbind_Inr_iff split: if_splits)
qed simp

lemma optimistic_yields:
  "members_sound ts i ms \<Longrightarrow> parse_custom_struct_optimistic cfg ops ms i obj s = Inr ((tid, obj'), s') \<Longrightarrow>
   parsed_rec ts obj \<Longrightarrow> parsed_rec ts obj'"
proof (induction ms arbitrary: i obj s)
  case Nil
  then show ?case by (auto simp: rbind_Inr_iff dest!: struct_skip_keeps)
next
  case (Cons m ms)
  note m = members_sound_Cons [OF Cons.prems(1)]
  obtain i1 s1 where id: "parse_id ops s = Inr (i1, s1)" using Cons.prems(2) by (auto simp: rbind_Inr_iff)
  show ?case
  proof (cases "i1 = im_id m")
    case True
    then obtain v s2 where v: "parse_member_value cfg ops m s1 = Inr (v, s2)"
        "parse_custom_struct_optimistic cfg ops ms (Suc i) (obj[i := v]) s2 = Inr ((tid, obj'), s')"
      using Cons.prems(2) id by (auto simp: rbind_Inr_iff)
    then show ?thesis using Cons.IH [OF m(2) v(2)] parsed_rec_update [OF Cons.prems(3)]
        yieldsD [OF member_value_yields [OF m(1)] v(1)] by blast
  qed (use Cons.prems id in simp)
qed

lemma optimistic_for_large_yields:
  assumes ms: "members_sound ts 0 ms" and obj: "parsed_rec ts obj"
  shows "yields (parse_custom_struct_optimistic_for_large cfg ops ms obj) (parsed_rec ts)"
proof (rule yieldsI)
  fix s obj' s'
  assume h: "parse_custom_struct_optimistic_for_large cfg ops ms obj s = Inr (obj', s')"
  show "parsed_rec ts obj'"
  proof (cases "length ms > threshold cfg")
    case True
    then obtain tid obj1 s1 where o: "parse_custom_struct_optimistic cfg ops ms 0 obj s = Inr ((tid, obj1), s1)"
        and rest: "if tid = 0 then (obj1, s1) = (obj', s')
          else rbind (parse_custom_struct_member cfg ops tid ms 0 obj1 s1) (\<lambda>(obj'', s'').
            parse_custom_struct (fuel cfg) cfg ops ms obj'' s'') = Inr (obj', s')"
      using h by (auto simp: parse_custom_struct_optimistic_for_large_def parse_custom_struct_with_fallback_def
          rbind_Inr_iff split: if_splits)
    have "parsed_rec ts obj1" by (rule optimistic_yields [OF ms o obj])
    then show ?thesis using rest struct_yields [OF ms] struct_member_yields [OF ms]
      by (cases "tid = 0") (auto simp: rbind_Inr_iff)
  next
    case False
    then show ?thesis using h struct_yields [OF ms _ obj] by (simp add: parse_custom_struct_optimistic_for_large_def)
  qed
qed

section \<open>Every type\<close>

text \<open>
  The types the theorem speaks of: containers compare by a strict weak order, and a tagged
  struct's members start with values of their types.
\<close>

fun sound_ty :: "ty \<Rightarrow> bool" where
  "sound_ty (TSeq kind t) = sound_ty t"
| "sound_ty (TOrd kind t) = (kind_ok kind (parsed_type t) \<and> sound_ty t)"
| "sound_ty (TTuple ts) = list_all sound_ty ts"
| "sound_ty (TMembers ts init) = (length init = length ts \<and> list_all sound_ty ts)"
| "sound_ty (TTagged ids ts init) = (length ids = length ts \<and> parsed_rec ts init \<and> list_all sound_ty ts)"
| "sound_ty _ = True"

lemma parse_yields: "sound_ty t \<Longrightarrow> yields (parse cfg ops t) (parsed_type t)"
proof (induction t)
  case (TPrim p)
  then show ?case using yields_read_prim [of ops p] by (auto intro!: yields_then_val simp: parsed_type_prim)
next
  case (TEnum p)
  then show ?case using yields_read_prim [of ops p]
    by (auto intro!: yields_then_val simp: parsed_type_prim parse_enum_def [abs_def])
next
  case TByte
  show ?case unfolding parse.simps by (intro yields_then_val yieldsI) (simp add: parsed_type_prim)
next
  case (TVar p)
  then show ?case using yields_var_prim [of ops p] by (auto intro!: yields_then_val simp: parsed_type_prim)
next
  case (TSeq kind t)
  then show ?case using yields_sequential [of "parse cfg ops t" t cfg ops kind]
    by (auto intro!: yields_then_val simp: parsed_type_seq)
next
  case (TOrd kind t)
  then show ?case using yields_ignore_order [of kind "parsed_type t" "parse cfg ops t" ops]
    by (auto intro!: yields_then_val simp: parsed_type_seq)
next
  case (TTuple ts)
  have IH: "yields (parse cfg ops (ts ! i)) (parsed_type (ts ! i))" if "i < length ts" for i
    using TTuple that by (simp add: list_all_length)
  have "yields (read_tuple_continue (map (parse cfg ops) ts) []) (parsed_rec ts)"
    using read_tuple_yields [OF IH, where vs = "[]" and pre = "[]"] by (auto simp: yields_def parsed_rec_def)
  then show ?case by (auto intro!: yields_then_val simp: parsed_type_rec)
next
  case (TMembers ts init)
  have IH: "yields (parse cfg ops (ts ! i)) (parsed_type (ts ! i))" if "i < length ts" for i
    using TMembers that by (simp add: list_all_length)
  have "typed_on {..<0} ts init" using TMembers.prems by (simp add: typed_on_def)
  then have "yields (parse_tuple (map (parse cfg ops) ts) 0 init) (parsed_rec ts)"
    using parse_tuple_yields [of "map (parse cfg ops) ts" ts 0 init] IH by (auto simp: yields_def)
  then show ?case by (auto intro!: yields_then_val simp: parsed_type_rec)
next
  case (TTagged ids ts init)
  have IH: "yields (parse cfg ops (ts ! i)) (parsed_type (ts ! i))" if "i < length ts" for i
    using TTagged that by (simp add: list_all_length)
  have "members_sound ts 0 (in_members ids (map fixed_size ts) (map (parse cfg ops) ts))"
    unfolding members_sound_def using IH TTagged.prems
    by (auto simp: length_in_members nth_in_members [where n = "length ts"])
  then have "yields (parse_custom_struct_optimistic_for_large cfg ops
      (in_members ids (map fixed_size ts) (map (parse cfg ops) ts)) init) (parsed_rec ts)"
    by (rule optimistic_for_large_yields) (use TTagged.prems in simp)
  then show ?case by (auto intro!: yields_then_val simp: parsed_type_rec)
qed

end
