(* ===== verification/FieldOrder.thy ===== *)
theory FieldOrder
  imports PbssTheorems
begin

text \<open>
  Tagged structs on the wire: the fields of the members may come in any order, some may be
  missing and fields with other tags may be mixed in. The object is the same for the general
  parser and for the optimistic one that large structs use, whatever the threshold between the
  two.
\<close>

text \<open>A field a parser of the struct \<open>TTagged ids ts init\<close> can come across.\<close>

definition wire_ok :: "byte list \<Rightarrow> ty list \<Rightarrow> val field \<Rightarrow> bool" where
  "wire_ok ids ts f = (case f of
     Known i v \<Rightarrow> i < length ts \<and> encodable (ts ! i) v
   | Unknown tid bs \<Rightarrow> tid \<notin> set ids \<and> tid \<noteq> 0 \<and> length bs < 2 ^ 63)"

definition fields_ok :: "byte list \<Rightarrow> ty list \<Rightarrow> val field list \<Rightarrow> bool" where
  "fields_ok ids ts fs \<longleftrightarrow> list_all (wire_ok ids ts) fs \<and> distinct (List.map_filter known_index fs)"

context input_stream begin

lemma good_wire_field:
  assumes fuel: "fuel_enough cfg" and l: "length ids = length ts" and f: "wire_ok ids ts f"
  shows "good_field (in_members ids (map fixed_size ts) (map (parse cfg ops) ts)) (member_enc ts) f"
proof (cases f)
  case (Known i v)
  then have i: "i < length ts" "encodable (ts ! i) v" using f by (simp_all add: wire_ok_def)
  have "unat k = length (encode (ts ! i) v)" if "fixed_size (ts ! i) = Some k" for k
    using fixed_size_exact [OF i(2) that] encodable_unat [OF i(2)] by simp
  moreover have "length (encode (ts ! i) v) < 2 ^ 63" using i(2) by (simp add: encodable_def)
  ultimately show ?thesis using Known l i parses_parse [OF fuel i(2)]
    by (simp add: good_field_def length_in_members nth_in_members [where n = "length ts"] member_enc_def)
next
  case (Unknown tid bs)
  have "map im_id (in_members ids (map fixed_size ts) (map (parse cfg ops) ts)) = ids"
    using l by (intro in_members_ids) simp_all
  then show ?thesis using Unknown f by (simp add: good_field_def wire_ok_def del: set_map)
qed

lemma parses_fields:
  assumes fuel: "fuel_enough cfg" and wf: "wf_ty (TTagged ids ts init)" and fs: "fields_ok ids ts fs"
    and n: "length fs < fuel cfg"
  shows "parses ok rem (parse cfg ops (TTagged ids ts init)) (VRec (apply_fields fs init))
    (struct_bytes ids (member_enc ts) fs)"
proof -
  let ?ms = "in_members ids (map fixed_size ts) (map (parse cfg ops) ts)"
  have l: "length ids = length ts" and ids: "good_ids ids" using wf by simp_all
  have mids: "map im_id ?ms = ids" using l by (intro in_members_ids) simp_all
  have p: "pending 0 fs" using fs by (auto simp: pending_def fields_ok_def)
  have "parses ok rem (parse_custom_struct_optimistic_for_large cfg ops ?ms init) (apply_fields fs init)
      (struct_bytes (map im_id ?ms) (member_enc ts) fs)"
    by (rule parses_optimistic_for_large [OF p])
      (use fs l ids fuel n good_wire_field [OF fuel l] in \<open>auto simp: mids fuel_enough_def fields_ok_def list_all_iff\<close>)
  then show ?thesis unfolding mids parse.simps by (rule parses_then_val)
qed

end

lemma from_string_fields:
  assumes "fuel_enough cfg" and "wf_ty (TTagged ids ts init)" and "fields_ok ids ts fs" and "length fs < fuel cfg"
  shows "parse_from_string cfg (TTagged ids ts init) (struct_bytes ids (member_enc ts) fs) =
    Inr (VRec (apply_fields fs init))"
proof -
  let ?s = "char_range_reader_new (struct_bytes ids (member_enc ts) fs)"
  have "crr_rem ?s = struct_bytes ids (member_enc ts) fs @ []" by (simp add: crr_new)
  then obtain s where "parse cfg (crr_ops cfg) (TTagged ids ts init) ?s = Inr (VRec (apply_fields fs init), s)"
    using parsesD [OF crr.parses_fields [OF assms] crr_new(1)] by blast
  then show ?thesis by (simp add: parse_from_string_def)
qed

lemma filter_known: "i \<in> set (List.map_filter known_index fs) \<Longrightarrow> \<exists>v. Known i v \<in> set fs"
proof (induction fs)
  case (Cons f fs)
  show ?case
  proof (cases "known_index f = Some i")
    case True
    then obtain v where "f = Known i v" by (cases f) simp_all
    then show ?thesis by auto
  next
    case False
    then have "i \<in> set (List.map_filter known_index fs)"
      using Cons.prems by (simp add: map_filter_simps split: option.splits)
    then show ?thesis using Cons.IH by auto
  qed
qed (simp add: map_filter_simps)

text \<open>What the fields say of one member: the value of its field, or the initial one.\<close>

lemma fields_member:
  assumes "fields_ok ids ts fs" and "i < length init" and "length init = length ts"
  shows "Known i v \<in> set fs \<Longrightarrow> apply_fields fs init ! i = v"
    and "\<forall>v. Known i v \<notin> set fs \<Longrightarrow> apply_fields fs init ! i = init ! i"
proof -
  have d: "distinct (List.map_filter known_index fs)" using assms(1) by (simp add: fields_ok_def)
  show "Known i v \<in> set fs \<Longrightarrow> apply_fields fs init ! i = v"
    by (rule apply_fields_known [OF d _ assms(2)])
  assume no: "\<forall>v. Known i v \<notin> set fs"
  have "i \<notin> set (List.map_filter known_index fs)"
  proof
    assume "i \<in> set (List.map_filter known_index fs)"
    then obtain v where "Known i v \<in> set fs" using filter_known by metis
    then show False using no by simp
  qed
  then show "apply_fields fs init ! i = init ! i" by (rule apply_fields_other)
qed

end
