(* ===== verification/ParserLimits.thy ===== *)
theory ParserLimits
  imports Safety
begin

text \<open>
  What the parser does on input that no serializer wrote: every sequence of digits as a
  variable-length integer, and every count of elements for a \<^verbatim>\<open>std::array\<close>. Both have limits the
  code does not check. Unordered containers have one it does check, their largest size.
\<close>

section \<open>Arrays\<close>

context input_stream begin

text \<open>The loop stores as many elements as there are, and fails on the first that has no place.\<close>

lemma insert_loop_array:
  assumes "\<forall>v \<in> set vs. parses ok rem P v (enc v)" and "ok s" and "rem s = concat (map enc vs) @ rest"
    and "length c = length init" and "i \<le> length init"
  shows "if length vs \<le> length init - i then \<exists>s'. insert_loop (ArrayN init) P i (length vs) c s = Inr (take i c @ vs @ drop (i + length vs) c, s')
    else insert_loop (ArrayN init) P i (length vs) c s = Inl (Undefined ArrayOverflow)"
  using assms
proof (induction vs arbitrary: i c s)
  case (Cons v vs)
  then obtain s1 where s1: "P s = Inr (v, s1)" "ok s1" "rem s1 = concat (map enc vs) @ rest"
    using parsesD [of ok rem P v "enc v" s "concat (map enc vs) @ rest"] by auto
  show ?case
  proof (cases "i < length init")
    case True
    have "take (Suc i) (c[i := v]) @ vs @ drop (Suc i + length vs) (c[i := v]) = take i c @ (v # vs) @ drop (i + length (v # vs)) c"
      using True Cons.prems(4) by (simp add: take_Suc_conv_app_nth drop_update_cancel)
    moreover have "insert_loop (ArrayN init) P i (length (v # vs)) c s = insert_loop (ArrayN init) P (Suc i) (length vs) (c[i := v]) s1"
      using True s1(1) Cons.prems(4) by simp
    moreover have "length (v # vs) \<le> length init - i \<longleftrightarrow> length vs \<le> length init - Suc i" using True by auto
    ultimately show ?thesis
      using Cons.IH [OF _ s1(2,3), of "c[i := v]" "Suc i"] Cons.prems(1,4) True by (simp only: list.set ball_simps length_list_update Suc_le_eq) simp
  next
    case False
    then show ?thesis using s1(1) Cons.prems(4,5) by simp
  qed
qed simp

end

text \<open>Any number of elements read into an array whose own elements are \<open>init\<close> when it is declared.\<close>

lemma array_elements:
  assumes fuel: "fuel_enough cfg" and vs: "list_all (encodable t) vs" and len: "length vs < 2 ^ 64"
  shows "parse_from_string cfg (TOrd (ArrayN init) t) (vuint_bytes (length vs) @ concat (map (encode t) vs)) =
    (if length vs \<le> length init then Inr (VSeq (vs @ drop (length vs) init)) else Inl (Undefined ArrayOverflow))"
proof -
  let ?s = "char_range_reader_new (vuint_bytes (length vs) @ concat (map (encode t) vs))"
  have "crr_rem ?s = vuint_bytes (length vs) @ concat (map (encode t) vs)" by (simp add: crr_new)
  moreover have "length vs < 2 ^ LENGTH(64)" using len by simp
  ultimately obtain s' where s': "read_var_uint (crr_ops cfg) ?s = Inr (word_of_nat (length vs) :: 64 word, s')"
      "crr_inv s'" "crr_rem s' = concat (map (encode t) vs) @ []"
    using parsesD [OF crr.parses_read_var_uint crr_new(1)] by fastforce
  have "\<forall>v \<in> set vs. parses crr_inv crr_rem (parse cfg (crr_ops cfg) t) v (encode t v)"
    using vs crr.parses_parse [OF fuel] by (auto simp: list_all_iff)
  from crr.insert_loop_array [OF this s'(2,3), of init init 0]
  show ?thesis
    using s'(1) by (auto simp: parse_from_string_def parse_ignore_order_def then_val_def unat_of_length [OF len])
qed

section \<open>Unordered containers\<close>

text \<open>
  An unordered container is built by insertion in the order of the input. Whether that is the order
  the elements were serialized from is up to the library, so the round trip is one of the set.
\<close>

context input_stream begin

lemma insert_loop_hashed:
  assumes "\<forall>v \<in> set vs. parses ok rem P v (enc v)" and "ok s" and "rem s = concat (map enc vs) @ rest"
  shows "\<exists>s'. insert_loop (Hashed m ins) P i (length vs) c s = Inr (fold ins vs c, s')"
  using assms
proof (induction vs arbitrary: i c s)
  case (Cons v vs)
  then obtain s1 where "P s = Inr (v, s1)" "ok s1" "rem s1 = concat (map enc vs) @ rest"
    using parsesD [of ok rem P v "enc v" s "concat (map enc vs) @ rest"] by auto
  then show ?case using Cons.IH [of s1 "Suc i" "ins v c"] Cons.prems(1) by simp
qed simp

end

lemma unordered_elements:
  assumes fuel: "fuel_enough cfg" and vs: "list_all (encodable t) vs" and len: "length vs < 2 ^ 64"
  shows "parse_from_string cfg (TOrd (Hashed m ins) t) (vuint_bytes (length vs) @ concat (map (encode t) vs)) =
    (if length vs \<le> m then Inr (VSeq (fold ins vs [])) else Inl LengthError)"
proof -
  let ?s = "char_range_reader_new (vuint_bytes (length vs) @ concat (map (encode t) vs))"
  have "crr_rem ?s = vuint_bytes (length vs) @ concat (map (encode t) vs)" by (simp add: crr_new)
  moreover have "length vs < 2 ^ LENGTH(64)" using len by simp
  ultimately obtain s' where s': "read_var_uint (crr_ops cfg) ?s = Inr (word_of_nat (length vs) :: 64 word, s')"
      "crr_inv s'" "crr_rem s' = concat (map (encode t) vs) @ []"
    using parsesD [OF crr.parses_read_var_uint crr_new(1)] by fastforce
  have "\<forall>v \<in> set vs. parses crr_inv crr_rem (parse cfg (crr_ops cfg) t) v (encode t v)"
    using vs crr.parses_parse [OF fuel] by (auto simp: list_all_iff)
  from crr.insert_loop_hashed [OF this s'(2,3)] obtain s2 where
    "insert_loop (Hashed m ins) (parse cfg (crr_ops cfg) t) 0 (length vs) [] s' = Inr (fold ins vs [], s2)" by blast
  then show ?thesis
    using s'(1) by (auto simp: parse_from_string_def parse_ignore_order_def then_val_def unat_of_length [OF len])
qed

lemma unordered_same_elements:
  assumes "\<And>x c. set (ins x c) = insert x (set c)"
  shows "set (fold ins vs []) = set vs"
proof -
  have "set (fold ins vs c) = set vs \<union> set c" for c by (induction vs arbitrary: c) (auto simp: assms)
  then show ?thesis by simp
qed

section \<open>Integers\<close>

text \<open>The value of a sequence of digits, whatever its length.\<close>

definition digits_value :: "byte list \<Rightarrow> nat" where
  "digits_value ds = foldr (\<lambda>b x. unat b mod 128 + 128 * x) ds 0"

lemma digit_or:
  assumes "d < 128"
  shows "(word_of_nat (d + 128 * x) :: 'a::len word) = word_of_nat d OR push_bit 7 (word_of_nat x)"
proof -
  have d: "\<not> bit d k" if "7 \<le> k" for k
  proof -
    have "d < 2 ^ 7" using assms by simp
    then have "take_bit 7 d = d" by (rule take_bit_nat_eq_self)
    then show ?thesis using that by (metis bit_take_bit_iff not_le)
  qed
  have "d AND push_bit 7 x = 0" using d by (intro bit_eqI) (auto simp: bit_simps)
  then have "d + 128 * x = d OR push_bit 7 x"
    using disjunctive_add_eq_or [of d "push_bit 7 x"] by (simp add: push_bit_eq_mult mult.commute)
  then show ?thesis by (simp add: of_nat_or_eq of_nat_push_bit)
qed

context input_stream begin

text \<open>The loop over the digits: the shift is what stops it when there are too many.\<close>

lemma read_loop_digits:
  fixes n :: "'a::len word"
  assumes "ok s" and "rem s = ds @ l # rest" and "\<forall>d \<in> set ds. 128 \<le> unat d" and "unat l < 128"
  shows "if offset + 7 * length ds < max 32 LENGTH('a)
    then \<exists>s'. read_var_uint_loop ops n offset s =
      Inr (n OR push_bit offset (word_of_nat (digits_value (ds @ [l]))), s') \<and> ok s' \<and> rem s' = rest
    else read_var_uint_loop ops n offset s = Inl (Undefined ShiftTooFar)"
  using assms
proof (induction ds arbitrary: s n offset)
  case Nil
  then obtain s' where s': "s_get ops s = Inr (Some l, s')" "ok s'" "rem s' = rest" using get_cons [of s l rest] by auto
  have "l AND 0x80 = 0" using or80_bit [of l] Nil.prems(4) by auto
  moreover have "ucast (l AND 0x7F) = (word_of_nat (unat l mod 128) :: 'a word)"
    by (simp only: of_nat_unat flip: unat_and7F)
  ultimately show ?case using s'
    by (auto simp: read_var_uint_loop.simps [of ops n offset] shift_or_def digits_value_def)
next
  case (Cons d ds)
  then obtain s1 where s1: "s_get ops s = Inr (Some d, s1)" "ok s1" "rem s1 = ds @ l # rest"
    using get_cons [of s d "ds @ l # rest"] by auto
  have c: "d AND 0x80 \<noteq> 0" using or80_bit [of d] Cons.prems(3) by simp
  show ?case
  proof (cases "offset < max 32 LENGTH('a)")
    case True
    let ?x = "digits_value (ds @ [l])" and ?n = "n OR push_bit offset (ucast (d AND 0x7F))"
    have "ucast (d AND 0x7F) = (word_of_nat (unat d mod 128) :: 'a word)"
      by (simp only: of_nat_unat flip: unat_and7F)
    moreover have "(word_of_nat (unat d mod 128 + 128 * ?x) :: 'a word) = word_of_nat (unat d mod 128) OR push_bit 7 (word_of_nat ?x)"
      by (rule digit_or) simp
    ultimately have "?n OR push_bit (offset + 7) (word_of_nat ?x) = n OR push_bit offset (word_of_nat (unat d mod 128 + 128 * ?x))"
      by (simp only: push_bit_or or.assoc push_bit_push_bit)
    then have v: "?n OR push_bit (offset + 7) (word_of_nat ?x) = n OR push_bit offset (word_of_nat (digits_value ((d # ds) @ [l])))"
      by (simp add: digits_value_def)
    have "shift_or n (d AND 0x7F) offset = Inr ?n" using True by (simp only: shift_or_def if_False not_True_eq_False flip: not_less)
    then have "read_var_uint_loop ops n offset s = read_var_uint_loop ops ?n (offset + 7) s1"
      using s1(1) c by (simp add: read_var_uint_loop.simps [of ops n offset])
    then show ?thesis
      using Cons.IH [OF s1(2,3), of "offset + 7" ?n] Cons.prems(3,4) unfolding v by (simp add: add.assoc split: if_splits)
  next
    case False
    then have "shift_or n (d AND 0x7F) offset = Inl (Undefined ShiftTooFar)" by (simp only: shift_or_def not_less if_True)
    then have "read_var_uint_loop ops n offset s = Inl (Undefined ShiftTooFar)"
      using s1(1) by (simp add: read_var_uint_loop.simps [of ops n offset])
    then show ?thesis using False by auto
  qed
qed

end

lemma read_var_uint_digits:
  assumes "\<forall>d \<in> set ds. 128 \<le> unat d" and "unat l < 128"
  shows "if 7 * length ds < max 32 LENGTH('a::len)
    then \<exists>s'. read_var_uint (crr_ops cfg) (char_range_reader_new (ds @ l # rest)) =
      Inr (word_of_nat (digits_value (ds @ [l])) :: 'a word, s')
    else (read_var_uint (crr_ops cfg) (char_range_reader_new (ds @ l # rest)) :: ('a word \<times> _) result) = Inl (Undefined ShiftTooFar)"
  using crr.read_loop_digits [OF crr_new(1) crr_new(2) assms, where cfg = cfg and rest = rest and offset = 0 and n = "0 :: 'a word"]
  by (auto simp: read_var_uint_def split: if_splits)

text \<open>The same digits in a \<^verbatim>\<open>bool\<close>.\<close>

lemma digits_value_Cons: "digits_value (d # ds) = 0 \<longleftrightarrow> unat d mod 128 = 0 \<and> digits_value ds = 0"
  by (simp add: digits_value_def)

lemma and7F_eq_0: "(d :: byte) AND 0x7F = 0 \<longleftrightarrow> unat d mod 128 = 0"
  by (metis unat_and7F unat_eq_0)

context input_stream begin

lemma read_bool_loop_digits:
  assumes "ok s" and "rem s = ds @ l # rest" and "\<forall>d \<in> set ds. 128 \<le> unat d" and "unat l < 128"
  shows "if offset + 7 * length ds < 32
    then \<exists>s'. read_var_bool_loop ops n offset s =
      Inr (if n \<noteq> 0 \<or> digits_value (ds @ [l]) \<noteq> 0 then 1 else 0, s')
    else read_var_bool_loop ops n offset s = Inl (Undefined ShiftTooFar)"
  using assms
proof (induction ds arbitrary: s n offset)
  case Nil
  then obtain s' where "s_get ops s = Inr (Some l, s')" using get_cons [of s l rest] by auto
  moreover have "l AND 0x80 = 0" using or80_bit [of l] Nil.prems(4) by auto
  ultimately show ?case
    by (simp add: read_var_bool_loop.simps [of ops n offset] Let_def digits_value_Cons and7F_eq_0)
      (simp add: digits_value_def)
next
  case (Cons d ds)
  then obtain s1 where s1: "s_get ops s = Inr (Some d, s1)" "ok s1" "rem s1 = ds @ l # rest"
    using get_cons [of s d "ds @ l # rest"] by auto
  have c: "d AND 0x80 \<noteq> 0" using or80_bit [of d] Cons.prems(3) by simp
  let ?n = "if n \<noteq> 0 \<or> d AND 0x7F \<noteq> 0 then 1 else 0 :: byte"
  show ?case
  proof (cases "offset < 32")
    case True
    then have "read_var_bool_loop ops n offset s = read_var_bool_loop ops ?n (offset + 7) s1"
      using s1(1) c by (simp add: read_var_bool_loop.simps [of ops n offset] Let_def)
    then show ?thesis
      using Cons.IH [OF s1(2,3), of "offset + 7" ?n] Cons.prems(3,4)
      by (cases "n \<noteq> 0 \<or> unat d mod 128 \<noteq> 0")
        (simp_all only: append_Cons digits_value_Cons and7F_eq_0 if_True if_False list.size mult_Suc_right add.assoc list.set ball_simps, auto)
  next
    case False
    then show ?thesis using s1(1) by (simp add: read_var_bool_loop.simps [of ops n offset])
  qed
qed

end

lemma read_var_bool_digits:
  assumes "\<forall>d \<in> set ds. 128 \<le> unat d" and "unat l < 128"
  shows "if 7 * length ds < 32
    then \<exists>s'. read_var_bool (crr_ops cfg) (char_range_reader_new (ds @ l # rest)) =
      Inr (if digits_value (ds @ [l]) = 0 then 0 else 1, s')
    else read_var_bool (crr_ops cfg) (char_range_reader_new (ds @ l # rest)) = Inl (Undefined ShiftTooFar)"
  using crr.read_bool_loop_digits [OF crr_new(1) crr_new(2) assms, where cfg = cfg and rest = rest and offset = 0 and n = 0]
  by (auto simp: read_var_bool_def split: if_splits)

text \<open>An integer keeps the low digits that fit, a \<^verbatim>\<open>bool\<close> whether any digit is not zero.\<close>

definition digits_prim :: "prim_ty \<Rightarrow> nat \<Rightarrow> prim" where
  "digits_prim p x = (if p = Bool1 then P1 (if x = 0 then 0 else 1) else prim_of p (le_bytes (size_of p) x))"

lemma of_mem_le_bytes: "8 * k = LENGTH('a::len) \<Longrightarrow> (of_mem (le_bytes k x) :: 'a word) = word_of_nat x"
  by (rule word_unat_eq_iff [THEN iffD2]) (simp add: of_mem_def le_val_le_bytes pow256 unat_of_nat)

lemma read_var_digits:
  assumes "\<forall>d \<in> set ds. 128 \<le> unat d" and "unat l < 128"
  shows "parse_from_string cfg (TVar p) (ds @ l # rest) =
    (if 7 * length ds < max 32 (8 * size_of p)
     then Inr (VPrim (digits_prim p (digits_value (ds @ [l]))))
     else Inl (Undefined ShiftTooFar))"
  using read_var_uint_digits [OF assms, where 'a = 8, of cfg rest] read_var_uint_digits [OF assms, where 'a = 16, of cfg rest]
    read_var_uint_digits [OF assms, where 'a = 32, of cfg rest] read_var_uint_digits [OF assms, where 'a = 64, of cfg rest]
    read_var_uint_digits [OF assms, where 'a = 128, of cfg rest]
    read_var_bool_digits [OF assms, of cfg rest]
  by (cases p) (auto simp: digits_prim_def parse_from_string_def then_val_def of_mem_le_bytes simp del: le_bytes.simps split: if_splits)

end
