(* ===== verification/SerializerProperties.thy ===== *)
theory SerializerProperties
  imports Samples StaticSizes TypeSoundness FieldOrder ParserLimits
begin

text \<open>
  The properties of the serializer: round trips, sizes, evolution of tagged structs, truncated
  and hostile input, and where the checks of the parser end.
\<close>

section \<open>Round trips\<close>

text \<open>
  C1: An object serialized to a string and parsed back is the same object, for every
  supported type, in every build configuration. The elements of an unordered container come back
  in the order in which the library iterates over them when they are inserted one by one, so the
  lists that stand for such containers (\<open>ord_sorted\<close>) are those in that order; any other list comes
  back with the same elements (\<open>unordered_elements\<close>).
\<close>

theorem string_roundtrip:
  assumes "encodable t v" and "fuel_enough cfg"
  shows "rbind (serialize_to_string cfg t v) (parse_from_string cfg t) = Inr v"
  using to_string_encode [OF assms(1)] from_string_encode [OF assms, of "[]"] by simp

theorem string_roundtrip_witness:
  "rbind (serialize_to_string debug_cfg point_ty point_val) (parse_from_string debug_cfg point_ty) = Inr point_val"
  by (rule string_roundtrip [OF point_encodable fuel_enough_debug])

text \<open>
  C22: A buffer starts with indeterminate bytes, and serialization overwrites every one
  of them: the result is the same whatever they were, and it parses back to the object.
\<close>

theorem buffer_roundtrip:
  assumes "encodable t v" and "fuel_enough cfg"
  shows "serialize_to_buffer cfg junk t v = serialize_to_buffer cfg junk' t v \<and>
    rbind (serialize_to_buffer cfg junk t v) (parse_from_buffer cfg t) = Inr v"
  using to_buffer_encode [OF assms(1)] from_string_encode [OF assms, of "[]"]
  by (simp_all add: from_buffer_string)

theorem buffer_roundtrip_witness:
  "serialize_to_buffer debug_cfg (\<lambda>i. 0xAA) point_ty point_val =
     serialize_to_buffer debug_cfg (\<lambda>i. word_of_nat i) point_ty point_val"
  using buffer_roundtrip [OF point_encodable fuel_enough_debug, of "\<lambda>i. 0xAA" "\<lambda>i. word_of_nat i"] by (rule conjunct1)

text \<open>
  C21: \<^verbatim>\<open>parse_all\<close> over the serializations of a list of objects gives the list back and
  stops at the end of the stream.
\<close>

theorem stream_of_objects:
  assumes "fuel_enough cfg" and "list_all (encodable t) vs" and "Suc (length vs) < fuel cfg"
  shows "rbind (parse_all cfg (crr_ops cfg) t (char_range_reader_new (concat (map (encode t) vs))))
    (\<lambda>(us, s). Inr us) = Inr vs"
proof -
  have "\<exists>s'. parse_all cfg (crr_ops cfg) t (char_range_reader_new (concat (map (encode t) vs))) = Inr (vs, s')"
    by (rule crr.parse_all_encodings [OF assms(1) _ crr_new assms(3)]) (use assms(2) in \<open>simp add: list_all_iff\<close>)
  then show ?thesis by auto
qed

theorem stream_of_objects_witness:
  "rbind (parse_all debug_cfg (crr_ops debug_cfg) point_ty
      (char_range_reader_new (concat (map (encode point_ty) [point_val, point_val]))))
    (\<lambda>(us, s). Inr us) = Inr [point_val, point_val]"
  by (rule stream_of_objects [OF fuel_enough_debug]) (simp_all add: point_encodable debug_cfg_def)

section \<open>The format\<close>

text \<open>
  C4: A tagged struct written by one version of a program and read by another: the members
  both versions have are taken over, those only the writer has are dropped and those only the
  reader has keep their initial values. Nothing is asked of the two versions but that a tag
  they share has the same type.
\<close>

theorem schema_evolution:
  assumes "fuel_enough cfg" and "encodable (TTagged wids wts winit) (VRec wvs)"
    and "wf_ty (TTagged ids ts init)" and "compatible ids ts wids wts"
  shows "rbind (serialize_to_string cfg (TTagged wids wts winit) (VRec wvs))
      (parse_from_string cfg (TTagged ids ts init)) = Inr (VRec (evolve wids wvs ids init))"
  using to_string_encode [OF assms(2)] from_string_evolved [OF assms] by simp

theorem schema_evolution_witness:
  "rbind (serialize_to_string debug_cfg point_ty point_val) (parse_from_string debug_cfg point2_ty) =
    Inr (VRec [VPrim (P1 9), VSeq [VPrim (P8 300), VPrim (P8 5)]])"
proof -
  let ?wts = "[TPrim Num4, TSeq (SeqVec 100) (TVar Num8), TTuple [TPrim Num2, TPrim Bool1]]"
  let ?ts = "[TPrim Num1, TSeq (SeqVec 100) (TVar Num8)]"
  have "compatible [3, 2] ?ts [1, 2, 4] ?wts" by (simp add: compatible_def All_less_Suc)
  moreover have "wf_ty (TTagged [3, 2] ?ts [VPrim (P1 9), VSeq []])" by (simp add: good_ids_def)
  ultimately show ?thesis
    using schema_evolution [OF fuel_enough_debug point_encodable [unfolded point_ty_def point_val_def]]
    unfolding point_ty_def point_val_def point2_ty_def by (simp add: evolve_def)
qed

text \<open>
  C8: A tagged struct can be read from fields in any order, with members missing and foreign
  fields mixed in; a member that has a field gets its value and the others keep theirs. The
  result does not depend on the threshold, so the optimistic parser of large structs and the
  general one agree.
\<close>

theorem field_order:
  assumes "fuel_enough cfg" and "wf_ty (TTagged ids ts init)" and "fields_ok ids ts fs" and "length fs < fuel cfg"
  shows "parse_from_string (cfg\<lparr>threshold := n\<rparr>) (TTagged ids ts init) (struct_bytes ids (member_enc ts) fs) =
      Inr (VRec (apply_fields fs init)) \<and>
    (\<forall>i < length ts. (\<forall>v. Known i v \<in> set fs \<longrightarrow> apply_fields fs init ! i = v) \<and>
       ((\<forall>v. Known i v \<notin> set fs) \<longrightarrow> apply_fields fs init ! i = init ! i))"
proof -
  have l: "length init = length ts" using assms(2) by simp
  have fuel: "fuel_enough (cfg\<lparr>threshold := n\<rparr>)" "length fs < fuel (cfg\<lparr>threshold := n\<rparr>)"
    using assms by (simp_all add: fuel_enough_def)
  then show ?thesis
    using from_string_fields [OF fuel(1) assms(2,3) fuel(2)] fields_member [OF assms(3) _ l] l by simp
qed

definition shuffled_fields :: "val field list" where
  "shuffled_fields = [Unknown 9 [1, 2], Known 1 (VSeq [VPrim (P8 5)])]"

theorem field_order_witness:
  "parse_from_string (debug_cfg\<lparr>threshold := 0\<rparr>) point2_ty
     (struct_bytes [3, 2] (member_enc [TPrim Num1, TSeq (SeqVec 100) (TVar Num8)]) shuffled_fields) =
   parse_from_string (debug_cfg\<lparr>threshold := 5\<rparr>) point2_ty
     (struct_bytes [3, 2] (member_enc [TPrim Num1, TSeq (SeqVec 100) (TVar Num8)]) shuffled_fields)"
proof -
  have "encodable (TSeq (SeqVec 100) (TVar Num8)) (VSeq [VPrim (P8 5)])"
    by (simp add: encodable_def has_type_cases vuint_bytes_small)
  then have f: "fields_ok [3, 2] [TPrim Num1, TSeq (SeqVec 100) (TVar Num8)] shuffled_fields"
    by (simp add: fields_ok_def wire_ok_def shuffled_fields_def map_filter_simps)
  have w: "wf_ty (TTagged [3, 2] [TPrim Num1, TSeq (SeqVec 100) (TVar Num8)] [VPrim (P1 9), VSeq []])"
    by (simp add: good_ids_def)
  have n: "length shuffled_fields < fuel debug_cfg" by (simp add: shuffled_fields_def debug_cfg_def)
  show ?thesis
    unfolding point2_ty_def by (simp only: field_order [OF fuel_enough_debug w f n, THEN conjunct1])
qed

section \<open>Sizes\<close>



lemma vuint_length_bounds:
  "x < 128 ^ length (vuint_bytes x) \<and> (\<forall>k. 0 < k \<longrightarrow> x < 128 ^ k \<longrightarrow> length (vuint_bytes x) \<le> k)"
proof (induction x rule: vuint_bytes.induct)
  case (1 x)
  have le: "\<forall>k. 0 < k \<longrightarrow> x < 128 ^ k \<longrightarrow> length (vuint_bytes x) \<le> k"
    by (intro allI impI length_vuint_bytes_le)
  show ?case
  proof (cases "x < 128")
    case False
    have "x < 128 * (x div 128 + 1)" using dividend_less_times_div [of 128 x] by simp
    also have "\<dots> \<le> 128 * 128 ^ length (vuint_bytes (x div 128))"
      using 1 False by (intro mult_le_mono2) (simp add: Suc_le_eq)
    finally show ?thesis using False by (intro conjI le) (simp add: vuint_bytes_large not_less)
  qed (intro conjI le, simp add: vuint_bytes_small)
qed

text \<open>
  C25: A variable-length integer takes the fewest bytes that hold it at seven bits a byte,
  and the compile-time computation, the loop and the compile-time serialization of constants
  agree on it.
\<close>

theorem var_uint_minimal:
  "aot_size_vuint (n :: 'a::len word) = word_of_nat (LEAST k. 0 < k \<and> unat n < 128 ^ k) \<and>
   static_size_vuint n = aot_size_vuint n \<and>
   static_size_vuint c = word_of_nat (length (static_vuint_serialization c []))"
proof -
  have "(LEAST k. 0 < k \<and> unat n < 128 ^ k) = length (vuint_bytes (unat n))"
    by (rule Least_equality) (use vuint_length_bounds in auto)
  then show ?thesis
    by (simp add: aot_size_vuint_eq static_size_vuint_eq static_vuint_serialization_eq)
qed

section \<open>Damaged and hostile input\<close>

text \<open>
  C10: Whatever prefix of a serialized object is parsed, the answer is an early end of
  file, never an object and never undefined behaviour.
\<close>

theorem truncated_input:
  assumes "encodable t v" and "fuel_enough cfg" and "serialize_to_string cfg t v = Inr str" and "k < length str"
  shows "parse_from_string cfg t (take k str) = Inl EarlyEof"
  using from_string_truncated [OF assms(1,2)] assms(3,4) to_string_encode [OF assms(1)] by simp

theorem truncated_input_witness: "parse_from_string debug_cfg point_ty (take 11 point_bytes) = Inl EarlyEof"
  by (rule truncated_input [OF point_encodable fuel_enough_debug])
    (simp_all add: to_string_encode [OF point_encodable] point_encode point_bytes_def)

text \<open>
  C23: The format is unambiguous: when two streams that start with objects of one type agree,
  the objects are equal and so is what follows them; no object's bytes are a proper prefix of
  another's.
\<close>

theorem unambiguous:
  assumes "encodable t v" and "encodable t v'"
    and "serialize_to_string cfg t v = Inr str" and "serialize_to_string cfg t v' = Inr str'"
    and "str @ rest = str' @ rest'"
  shows "v = v' \<and> rest = rest'"
  using encode_prefix_free [OF assms(1,2)] assms(3-5) to_string_encode [OF assms(1)] to_string_encode [OF assms(2)]
  by simp

theorem unambiguous_witness:
  "point_val = point_val \<and> [7] = [7 :: byte]"
  by (rule unambiguous [OF point_encodable point_encodable to_string_encode to_string_encode refl])
    (rule point_encodable)+

text \<open>
  C11: An object the parser returns has the type it was asked for, whatever bytes the stream
  delivered: capacities and orders of containers are respected and \<^verbatim>\<open>bool\<close>s are proper. In a
  \<^verbatim>\<open>std::array\<close> this holds of the elements read, which come first, and the others are as they were
  declared; an unordered container has elements of its type, and their order is the library's.
  Where a type has neither of the two, the object is one a serializer takes, and no part of it is
  indeterminate. \<open>sound_ty\<close> asks of the type that the members of a struct have one default each, of
  the type's own for a tagged struct, that a comparison is a strict weak order on the elements,
  and that the insertion of an unordered container adds nothing but the element.
\<close>

theorem parse_typed:
  assumes "sound_ty t" and "parse_from_string cfg t str = Inr v"
  shows "parsed_type t v \<and> (plain_containers t \<longrightarrow> has_type t v)"
  using yieldsD [OF parse_yields [OF assms(1), of cfg "crr_ops cfg"]] assms(2) parsed_plain [of t v]
  by (auto simp: parse_from_string_def rbind_Inr_iff)

theorem parse_typed_witness:
  "has_type point_ty point_val \<and>
   parsed_type (TOrd (ArrayN [Indet, Indet]) TByte) (VSeq [VPrim (P1 5), Indet])"
proof
  have "parse_from_string debug_cfg point_ty point_bytes = Inr point_val"
    using from_string_encode [OF point_encodable fuel_enough_debug, of "[]"] by (simp add: point_encode)
  moreover have "sound_ty point_ty" by (simp add: point_ty_def parsed_rec_def parsed_type_cases parsed_type_seq All_less_Suc)
  moreover have "plain_containers point_ty" by (simp add: point_ty_def)
  ultimately show "has_type point_ty point_val" using parse_typed by blast
next
  have "list_all (encodable TByte) [VPrim (P1 5)]" by (simp add: encodable_def has_type.simps prim_val_bytes_def)
  from array_elements [OF fuel_enough_debug this, of "[Indet, Indet]"]
  have "parse_from_string debug_cfg (TOrd (ArrayN [Indet, Indet]) TByte) (vuint_bytes 1 @ encode TByte (VPrim (P1 5))) =
      Inr (VSeq [VPrim (P1 5), Indet])" by simp
  moreover have "sound_ty (TOrd (ArrayN [Indet, Indet]) TByte)" by simp
  ultimately show "parsed_type (TOrd (ArrayN [Indet, Indet]) TByte) (VSeq [VPrim (P1 5), Indet])"
    using parse_typed by blast
qed



text \<open>
  C26: Without the checks an eleven-byte input keeps the parser of any tagged struct that
  has no member 1 from ever returning: the member's length is negative as a signed count, and
  skipping it moves the reader back to the start. No amount of fuel is enough.
\<close>

theorem release_build_hangs:
  assumes "\<not> debug cfg" and "1 \<notin> set ids" and "length ids = length ts"
  shows "parse_from_string cfg (TTagged ids ts init) rewind_input = Inl OutOfFuel"
proof -
  have "map im_id (in_members ids (map fixed_size ts) (map (parse cfg (crr_ops cfg)) ts)) = ids"
    using assms(3) by (intro in_members_ids) simp_all
  then have "1 \<notin> set (map im_id (in_members ids (map fixed_size ts) (map (parse cfg (crr_ops cfg)) ts)))"
    using assms(2) by simp
  from optimistic_never_returns [OF assms(1) this] show ?thesis
    by (simp add: parse_from_string_def then_val_def)
qed

theorem release_build_hangs_witness:
  "parse_from_string (release_cfg\<lparr>fuel := 10 ^ 9\<rparr>) point2_ty rewind_input = Inl OutOfFuel"
  unfolding point2_ty_def by (rule release_build_hangs) (simp_all add: release_cfg_def)

text \<open>
  C30: Any number of objects read into a \<^verbatim>\<open>std::array\<close> fill it from the start, whatever their
  type. The elements for which there is no input stay as they were when the array was declared
  (without an initializer, so indeterminate where the type has no constructor); when there are
  more objects than the array has elements, in every build, the parser writes past its end.
\<close>

theorem array_overflows:
  assumes "fuel_enough cfg" and "list_all (encodable t) vs" and "length vs < 2 ^ 64"
  shows "parse_from_string cfg (TOrd (ArrayN init) t) (vuint_bytes (length vs) @ concat (map (encode t) vs)) =
    (if length vs \<le> length init then Inr (VSeq (vs @ drop (length vs) init)) else Inl (Undefined ArrayOverflow))"
  by (rule array_elements [OF assms])

theorem array_overflows_witness:
  "parse_from_string debug_cfg (TOrd (ArrayN [Indet]) TByte) (vuint_bytes (length [5, 6 :: byte]) @ [5, 6]) = Inl (Undefined ArrayOverflow) \<and>
   parse_from_string debug_cfg (TOrd (ArrayN [Indet, Indet, Indet]) TByte) (vuint_bytes (length [5, 6 :: byte]) @ [5, 6]) =
     Inr (VSeq [VPrim (P1 5), VPrim (P1 6), Indet])"
proof -
  let ?vs = "[VPrim (P1 5), VPrim (P1 6)]"
  have "list_all (encodable TByte) ?vs" by (simp add: encodable_def has_type.simps prim_val_bytes_def)
  note array = array_overflows [OF fuel_enough_debug this]
  show ?thesis using array [of "[Indet]"] array [of "[Indet, Indet, Indet]"] by (simp add: prim_val_bytes_def)
qed

text \<open>
  C31: What the reader of variable-length integers makes of any sequence of digits, as long
  as the position of the last one is below 32 or the width: for an integer the sum of the digits
  reduced to the width of the type, so that digits that do not fit are lost without an error, and
  for a \<^verbatim>\<open>bool\<close> whether any digit is not zero. A digit beyond is a shift out of range.
\<close>

theorem overlong_integers:
  assumes "\<forall>d \<in> set ds. 128 \<le> unat d" and "unat l < 128"
  shows "parse_from_string cfg (TVar p) (ds @ l # rest) =
    (if 7 * length ds < max 32 (8 * size_of p)
     then Inr (VPrim (digits_prim p (digits_value (ds @ [l]))))
     else Inl (Undefined ShiftTooFar))"
  by (rule read_var_digits [OF assms])

theorem overlong_integers_witness:
  "parse_from_string debug_cfg (TVar Num4) [0x80, 0x80, 0x80, 0x80, 0x80, 0] = Inl (Undefined ShiftTooFar) \<and>
   parse_from_string debug_cfg (TVar Num1) [0x80, 2] = Inr (VPrim (P1 0)) \<and>
   parse_from_string debug_cfg (TVar Bool1) [0x80, 2] = Inr (VPrim (P1 1))"
  using overlong_integers [of "[0x80, 0x80, 0x80, 0x80, 0x80]" 0 debug_cfg Num4 "[]"]
    overlong_integers [of "[0x80]" 2 debug_cfg Num1 "[]"] overlong_integers [of "[0x80]" 2 debug_cfg Bool1 "[]"]
  by (simp add: digits_value_def of_mem_def digits_prim_def)

end
