(* ===== verification/Codec.thy ===== *)
theory Codec
  imports Misc
begin

text \<open>
  The compression wrappers (src/pbsf: zstd-wrap.cc, lzo-wrap.cc, lz4-wrap.cc, gipfeli-wrap.cc).
  A wrapper stores the size of the raw data, a machine integer in host order, in front of
  what the compression library produces. The libraries are parameters: records of the
  functions the wrappers call, with their documented contracts as predicates.
\<close>

section \<open>Buffers\<close>

text \<open>
  \<open>store_at\<close> is a copy into a buffer through a pointer; \<open>buffer_new\<close> and \<open>buffer_resize\<close>
  are the constructor and \<^verbatim>\<open>resize\<close> of \<^verbatim>\<open>pbss::buffer\<close>, whose new bytes are uninitialized
  (\<open>junk\<close>). More than \<^verbatim>\<open>PTRDIFF_MAX\<close> bytes are a \<^verbatim>\<open>length_error\<close>.
\<close>

definition store_at :: "nat \<Rightarrow> byte list \<Rightarrow> byte list \<Rightarrow> byte list result" where
  "store_at p bs buf =
     (if p + length bs \<le> length buf then Inr (take p buf @ bs @ drop (p + length bs) buf)
      else Inl (Undefined OutOfBounds))"

definition buffer_new :: "(nat \<Rightarrow> byte) \<Rightarrow> nat \<Rightarrow> byte list result" where
  "buffer_new junk n = (if n < 2 ^ 63 then Inr (map junk [0..<n]) else Inl LengthError)"

definition buffer_resize :: "(nat \<Rightarrow> byte) \<Rightarrow> nat \<Rightarrow> byte list \<Rightarrow> byte list result" where
  "buffer_resize junk n buf =
     (if n < 2 ^ 63 then Inr (take n buf @ map junk [length buf..<n]) else Inl LengthError)"

definition size_of_buffer :: "byte list \<Rightarrow> 64 word" where
  "size_of_buffer buf = word_of_nat (length buf)"

definition read_prefix :: "nat \<Rightarrow> byte list \<Rightarrow> byte list result" where
  "read_prefix n src = (if n \<le> length src then Inr (take n src) else Inl (Undefined OutOfBounds))"

lemma store_at_0: "length buf = length bs + n \<Longrightarrow> store_at 0 bs buf = Inr (bs @ drop (length bs) buf)"
  by (simp add: store_at_def)

lemma store_after:
  "n = length pre \<Longrightarrow> length bs \<le> length buf \<Longrightarrow>
   store_at n bs (pre @ buf) = Inr (pre @ bs @ drop (length bs) buf)"
  by (simp add: store_at_def)

lemma store_all: "length bs = length buf \<Longrightarrow> store_at 0 bs buf = Inr bs"
  by (simp add: store_at_def)

lemma buffer_new_ok: "n < 2 ^ 63 \<Longrightarrow> buffer_new junk n = Inr (map junk [0..<n])"
  by (simp add: buffer_new_def)

lemma buffer_resize_trunc:
  "n \<le> length buf \<Longrightarrow> n < 2 ^ 63 \<Longrightarrow> buffer_resize junk n buf = Inr (take n buf)"
  by (simp add: buffer_resize_def)

section \<open>zstd\<close>

text \<open>
  \<open>zs_compress cap src level\<close> and \<open>zs_decompress cap src\<close> give the bytes the library stores
  at the destination and the \<^verbatim>\<open>size_t\<close> it returns, a size or an error code.
\<close>

record zstd_lib =
  zs_bound :: "64 word \<Rightarrow> 64 word"
  zs_compress :: "64 word \<Rightarrow> byte list \<Rightarrow> int \<Rightarrow> byte list \<times> 64 word"
  zs_decompress :: "64 word \<Rightarrow> byte list \<Rightarrow> byte list \<times> 64 word"
  zs_is_error :: "64 word \<Rightarrow> bool"

definition zstd_compress :: "zstd_lib \<Rightarrow> (nat \<Rightarrow> byte) \<Rightarrow> byte list \<Rightarrow> byte list result" where
  "zstd_compress lib junk src =
     (let input_size = ucast (size_of_buffer src) :: 32 word;
          bound = ucast (zs_bound lib (scast input_size)) :: 32 word
      in rbind (buffer_new junk (4 + unat bound)) (\<lambda>dst0.
         rbind (store_at 0 (mem_bytes input_size) dst0) (\<lambda>dst1.
           let (out, code) = zs_compress lib (size_of_buffer dst1 - 4) src 2;
               out_size = ucast code :: 32 word
           in rbind (store_at 4 out dst1) (\<lambda>dst2. buffer_resize junk (unat out_size + 4) dst2))))"

definition zstd_decompress :: "zstd_lib \<Rightarrow> (nat \<Rightarrow> byte) \<Rightarrow> byte list \<Rightarrow> byte list result" where
  "zstd_decompress lib junk src =
     rbind (read_prefix 4 src) (\<lambda>pre.
       let out_size = of_mem pre :: 32 word
       in rbind (buffer_new junk (unat out_size)) (\<lambda>dst.
            let (out, res) = zs_decompress lib (scast out_size) (drop 4 src)
            in rbind (store_at 0 out dst) (\<lambda>dst'.
                 if zs_is_error lib res then Inl CodecFailure else Inr dst')))"

text \<open>
  The contract of the library's manual: a destination of \<^verbatim>\<open>ZSTD_compressBound\<close> bytes is enough
  for the compressed data, and decompressing it into enough room gives the data back.
\<close>

definition zstd_inverse :: "zstd_lib \<Rightarrow> byte list \<Rightarrow> byte list \<times> 64 word \<Rightarrow> bool" where
  "zstd_inverse lib src res \<longleftrightarrow>
     unat (snd res) = length (fst res) \<and> unat (snd res) \<le> unat (zs_bound lib (size_of_buffer src)) \<and>
     \<not> zs_is_error lib (size_of_buffer src) \<and>
     (\<forall>cap. length src \<le> unat cap \<longrightarrow> zs_decompress lib cap (fst res) = (src, size_of_buffer src))"

definition zstd_contract :: "zstd_lib \<Rightarrow> bool" where
  "zstd_contract lib \<longleftrightarrow>
     (\<forall>n. unat n < 2 ^ 31 \<longrightarrow> unat (zs_bound lib n) < 2 ^ 32) \<and>
     (\<forall>cap src level. length src < 2 ^ 31 \<and> unat (zs_bound lib (size_of_buffer src)) \<le> unat cap \<longrightarrow>
        zstd_inverse lib src (zs_compress lib cap src level))"

section \<open>lzo\<close>

text \<open>
  The LZO functions take no capacity: they store where they are told to. They give the bytes
  stored, the length they report and whether the status is \<^verbatim>\<open>LZO_E_OK\<close>.
\<close>

record lzo_lib =
  lzo_do_compress :: "byte list \<Rightarrow> byte list \<times> 64 word \<times> bool"
  lzo_do_decompress :: "byte list \<Rightarrow> 64 word \<Rightarrow> byte list \<times> 64 word \<times> bool"

definition max_compressed_size :: "64 word \<Rightarrow> 64 word" where
  "max_compressed_size n = n + n div 16 + 64 + 3"

text \<open>
  A static object initializes the library before \<^verbatim>\<open>main\<close>; \<open>status\<close> is what \<^verbatim>\<open>lzo_init\<close> returns, and
  \<^verbatim>\<open>LZO_E_OK\<close> is zero. Where this has thrown, the program ends.
\<close>

definition lzo_init_helper :: "32 word \<Rightarrow> unit result" where
  "lzo_init_helper status = (if status \<noteq> 0 then Inl CodecFailure else Inr ())"

definition lzo_compress :: "lzo_lib \<Rightarrow> (nat \<Rightarrow> byte) \<Rightarrow> byte list \<Rightarrow> byte list result" where
  "lzo_compress lib junk src =
     (let input_size = size_of_buffer src
      in rbind (buffer_new junk (unat (8 + max_compressed_size input_size))) (\<lambda>dst0.
         rbind (store_at 0 (mem_bytes input_size) dst0) (\<lambda>dst1.
           let (out, out_size, status) = lzo_do_compress lib src
           in rbind (store_at 8 out dst1) (\<lambda>dst2.
                if \<not> status then Inl CodecFailure
                else buffer_resize junk (unat (out_size + 8)) dst2))))"

definition lzo_decompress :: "lzo_lib \<Rightarrow> (nat \<Rightarrow> byte) \<Rightarrow> byte list \<Rightarrow> byte list result" where
  "lzo_decompress lib junk src =
     rbind (read_prefix 8 src) (\<lambda>pre.
       let out_size = of_mem pre :: 64 word
       in rbind (buffer_new junk (unat out_size)) (\<lambda>dst.
            let (out, decompressed_size, status) = lzo_do_decompress lib (drop 8 src) out_size
            in rbind (store_at 0 out dst) (\<lambda>dst'.
                 if \<not> (status \<and> decompressed_size = out_size) then Inl CodecFailure else Inr dst')))"

definition lzo_contract :: "lzo_lib \<Rightarrow> bool" where
  "lzo_contract lib \<longleftrightarrow>
     (\<forall>src. length src < 2 ^ 62 \<longrightarrow>
        (case lzo_do_compress lib src of (out, n, status) \<Rightarrow>
           status \<and> unat n = length out \<and> length out \<le> length src + length src div 16 + 67 \<and>
           lzo_do_decompress lib out (size_of_buffer src) = (src, size_of_buffer src, True)))"

section \<open>lz4\<close>

text \<open>
  LZ4 works with \<^verbatim>\<open>int\<close> sizes. The compressors get the capacity of the whole buffer, not of
  what is left behind the size. \<^verbatim>\<open>LZ4_decompress_fast\<close> knows only the size of the output.
\<close>

record lz4_lib =
  l4_bound :: "32 word \<Rightarrow> 32 word"
  l4_compress_default :: "byte list \<Rightarrow> 32 word \<Rightarrow> byte list \<times> 32 word"
  l4_compress_HC :: "byte list \<Rightarrow> 32 word \<Rightarrow> int \<Rightarrow> byte list \<times> 32 word"
  l4_decompress_fast :: "byte list \<Rightarrow> 32 word \<Rightarrow> byte list \<times> 32 word"

definition LZ4_MAX_INPUT_SIZE :: nat where
  "LZ4_MAX_INPUT_SIZE = 0x7E000000"

definition lz4_compress_with ::
  "lz4_lib \<Rightarrow> (byte list \<Rightarrow> 32 word \<Rightarrow> byte list \<times> 32 word) \<Rightarrow> (nat \<Rightarrow> byte) \<Rightarrow> byte list \<Rightarrow> byte list result" where
  "lz4_compress_with lib run junk src =
     (if length src > LZ4_MAX_INPUT_SIZE then Inl CodecFailure
      else let input_size = ucast (size_of_buffer src) :: 32 word
        in rbind (buffer_new junk (4 + unat (l4_bound lib input_size))) (\<lambda>dst0.
           rbind (store_at 0 (mem_bytes input_size) dst0) (\<lambda>dst1.
             let (out, out_size) = run src (ucast (size_of_buffer dst1))
             in rbind (store_at 4 out dst1) (\<lambda>dst2. buffer_resize junk (unat out_size + 4) dst2))))"

definition lz4_compress :: "lz4_lib \<Rightarrow> (nat \<Rightarrow> byte) \<Rightarrow> byte list \<Rightarrow> byte list result" where
  "lz4_compress lib = lz4_compress_with lib (l4_compress_default lib)"

definition lz4hc_compress :: "lz4_lib \<Rightarrow> (nat \<Rightarrow> byte) \<Rightarrow> byte list \<Rightarrow> byte list result" where
  "lz4hc_compress lib = lz4_compress_with lib (\<lambda>src cap. l4_compress_HC lib src cap 0)"

definition lz4_decompress :: "lz4_lib \<Rightarrow> (nat \<Rightarrow> byte) \<Rightarrow> byte list \<Rightarrow> byte list result" where
  "lz4_decompress lib junk src =
     rbind (read_prefix 4 src) (\<lambda>pre.
       let out_size = of_mem pre :: 32 word
       in rbind (buffer_new junk (unat out_size)) (\<lambda>dst.
            let (out, res) = l4_decompress_fast lib (drop 4 src) out_size
            in rbind (store_at 0 out dst) (\<lambda>dst'.
                 if sint res < 0 then Inl CodecFailure else Inr dst')))"

definition lz4_inverse :: "lz4_lib \<Rightarrow> byte list \<Rightarrow> byte list \<times> 32 word \<Rightarrow> bool" where
  "lz4_inverse lib src run \<longleftrightarrow>
     unat (snd run) = length (fst run) \<and>
     length (fst run) \<le> unat (l4_bound lib (word_of_nat (length src))) \<and>
     fst (l4_decompress_fast lib (fst run) (word_of_nat (length src))) = src \<and>
     0 \<le> sint (snd (l4_decompress_fast lib (fst run) (word_of_nat (length src))))"

definition lz4_contract :: "lz4_lib \<Rightarrow> bool" where
  "lz4_contract lib \<longleftrightarrow>
     (\<forall>n \<le> LZ4_MAX_INPUT_SIZE. unat (l4_bound lib (word_of_nat n)) < 2 ^ 32 - 4) \<and>
     (\<forall>src cap. length src \<le> LZ4_MAX_INPUT_SIZE \<and>
          unat (l4_bound lib (word_of_nat (length src))) \<le> unat cap \<longrightarrow>
        lz4_inverse lib src (l4_compress_default lib src cap) \<and>
        lz4_inverse lib src (l4_compress_HC lib src cap 0))"

section \<open>gipfeli\<close>

record gipfeli_lib =
  gi_bound :: "64 word \<Rightarrow> 64 word"
  gi_compress :: "byte list \<Rightarrow> byte list \<times> 64 word"
  gi_uncompress :: "byte list \<Rightarrow> byte list \<times> bool"

definition gipfeli_compress :: "gipfeli_lib \<Rightarrow> (nat \<Rightarrow> byte) \<Rightarrow> byte list \<Rightarrow> byte list result" where
  "gipfeli_compress lib junk src =
     (let input_size = ucast (size_of_buffer src) :: 32 word;
          bound = ucast (gi_bound lib (scast input_size)) :: 32 word
      in rbind (buffer_new junk (4 + unat bound)) (\<lambda>dst0.
         rbind (store_at 0 (mem_bytes input_size) dst0) (\<lambda>dst1.
           let (out, code) = gi_compress lib src; out_size = ucast code :: 32 word
           in rbind (store_at 4 out dst1) (\<lambda>dst2. buffer_resize junk (unat out_size + 4) dst2))))"

definition gipfeli_decompress :: "gipfeli_lib \<Rightarrow> (nat \<Rightarrow> byte) \<Rightarrow> byte list \<Rightarrow> byte list result" where
  "gipfeli_decompress lib junk src =
     rbind (read_prefix 4 src) (\<lambda>pre.
       let out_size = of_mem pre :: 32 word
       in rbind (buffer_new junk (unat out_size)) (\<lambda>dst.
            let (out, ok) = gi_uncompress lib (drop 4 src)
            in rbind (store_at 0 out dst) (\<lambda>dst'. if \<not> ok then Inl CodecFailure else Inr dst')))"

definition gipfeli_contract :: "gipfeli_lib \<Rightarrow> bool" where
  "gipfeli_contract lib \<longleftrightarrow>
     (\<forall>n. unat n < 2 ^ 31 \<longrightarrow> unat (gi_bound lib n) < 2 ^ 32) \<and>
     (\<forall>src. length src < 2 ^ 31 \<longrightarrow>
        (case gi_compress lib src of (out, code) \<Rightarrow>
           unat code = length out \<and> unat code \<le> unat (gi_bound lib (size_of_buffer src)) \<and>
           gi_uncompress lib out = (src, True)))"

section \<open>A wrapper undoes itself\<close>

lemma buffer_prefix:
  assumes "length pre = p" and "p + b < 2 ^ 63"
  shows "rbind (buffer_new junk (p + b)) (\<lambda>d0. rbind (store_at 0 pre d0) K) = K (pre @ map junk [p..<p + b])"
proof -
  have "drop p (map junk [0..<p + b]) = map junk [p..<p + b]" by (simp add: drop_map)
  then show ?thesis using assms by (simp add: buffer_new_ok store_at_0 [where n = b])
qed

lemma buffer_payload:
  assumes "length pre = p" and "length out \<le> length rest" and "length out + p < 2 ^ 63"
  shows "rbind (store_at p out (pre @ rest)) (buffer_resize junk (length out + p)) = Inr (pre @ out)"
  using assms by (simp add: store_after buffer_resize_trunc)

lemma buffer_filled:
  assumes "length out = n" and "n < 2 ^ 63"
  shows "rbind (buffer_new junk n) (\<lambda>d. rbind (store_at 0 out d) K) = K out"
    and "rbind (buffer_new junk n) (store_at 0 out) = Inr out"
  using assms by (simp_all add: buffer_new_ok store_all)

lemma read_prefix_ok: "length pre = p \<Longrightarrow> read_prefix p (pre @ out) = Inr pre"
  by (simp add: read_prefix_def)

lemma unat_word_of_length: "n < 2 ^ LENGTH('a::len) \<Longrightarrow> unat (word_of_nat n :: 'a word) = n"
  by (rule of_nat_inverse) simp_all

lemma unat_int_size:
  assumes "length buf < 2 ^ 32"
  shows "unat (ucast (size_of_buffer buf) :: 32 word) = length buf"
  using assms by (simp add: size_of_buffer_def unsigned_ucast_eq unat_of_nat take_bit_nat_eq_self_iff)

lemma size_of_buffer_int:
  assumes "length src < 2 ^ 31"
  shows "unat (ucast (size_of_buffer src) :: 32 word) = length src"
    and "scast (ucast (size_of_buffer src) :: 32 word) = size_of_buffer src"
    and "unat (size_of_buffer src) = length src"
proof -
  have lt: "length src < 2 ^ 32" "length src < 2 ^ 64" using assms by simp_all
  have e: "(ucast (size_of_buffer src) :: 32 word) = word_of_nat (length src)"
    using lt by (simp add: size_of_buffer_def unsigned_ucast_eq take_bit_nat_eq_self_iff
        word_unat_eq_iff unat_of_nat)
  show "unat (ucast (size_of_buffer src) :: 32 word) = length src"
    unfolding e using unat_word_of_length [where 'a = 32, of "length src"] lt by simp
  have "sint (word_of_nat (length src) :: 32 word) = int (length src)"
    using assms by (simp add: signed_of_nat signed_take_bit_int_eq_self)
  then show "scast (ucast (size_of_buffer src) :: 32 word) = size_of_buffer src"
    unfolding e by (subst size_of_buffer_def) (metis of_int_of_nat_eq of_int_sint)
  show "unat (size_of_buffer src) = length src"
    unfolding size_of_buffer_def using unat_word_of_length [where 'a = 64, of "length src"] lt by simp
qed

lemma zstd_layout:
  assumes c: "zstd_contract lib" and n: "length src < 2 ^ 31"
  shows "\<exists>out cap. zstd_compress lib junk src = Inr out \<and>
           length out = 4 + length (fst (zs_compress lib cap src 2)) \<and>
           zstd_decompress lib junk' out = Inr src"
proof -
  note sz = size_of_buffer_int [OF n]
  define b where "b = zs_bound lib (size_of_buffer src)"
  have b: "unat b < 2 ^ 32" using c sz n by (auto simp: zstd_contract_def b_def)
  then have ub: "unat (ucast b :: 32 word) = unat b"
    by (simp add: unsigned_ucast_eq take_bit_nat_eq_self_iff)
  define pre where "pre = mem_bytes (ucast (size_of_buffer src) :: 32 word)"
  have pre: "length pre = 4" by (simp add: pre_def)
  define dst1 where "dst1 = pre @ map junk [4..<4 + unat b]"
  have l: "length dst1 = 4 + unat b" using pre by (simp add: dst1_def)
  have cap: "size_of_buffer dst1 - 4 = b"
    by (simp add: size_of_buffer_def l)
  obtain out code where run: "zs_compress lib b src 2 = (out, code)" by fastforce
  have "zstd_inverse lib src (out, code)"
    using c [unfolded zstd_contract_def, THEN conjunct2, rule_format, of src b 2] n run by (simp add: b_def)
  then have code: "unat code = length out" "unat code \<le> unat b"
      and dec: "zs_decompress lib (size_of_buffer src) out = (src, size_of_buffer src)"
        "\<not> zs_is_error lib (size_of_buffer src)"
    using sz by (auto simp: zstd_inverse_def b_def)
  have uc: "unat (ucast code :: 32 word) = length out"
    using code b by (simp add: unsigned_ucast_eq take_bit_nat_eq_self_iff)
  have comp: "zstd_compress lib junk src = Inr (pre @ out)"
    using b ub code uc run cap sz(2)
    by (simp add: zstd_compress_def Let_def buffer_prefix pre flip: b_def pre_def dst1_def)
       (simp add: dst1_def buffer_payload pre)
  have "zstd_decompress lib junk' (pre @ out) = Inr src"
    using dec sz n
    by (simp add: zstd_decompress_def read_prefix_ok pre Let_def)
       (simp add: pre_def buffer_filled)
  moreover have "length (pre @ out) = 4 + length (fst (zs_compress lib b src 2))" using pre run by simp
  ultimately show ?thesis using comp by blast
qed

lemma lzo_layout:
  assumes c: "lzo_contract lib" and n: "length src < 2 ^ 62 - 128"
  shows "\<exists>out. lzo_compress lib junk src = Inr out \<and> length out = 8 + length (fst (lzo_do_compress lib src)) \<and>
           lzo_decompress lib junk' out = Inr src"
proof -
  define sz where "sz = size_of_buffer src"
  have sz: "unat sz = length src"
    using n unat_word_of_length [where 'a = 64, of "length src"] by (simp add: sz_def size_of_buffer_def)
  define b where "b = length src + length src div 16 + 67"
  have b: "8 + b < 2 ^ 63 - 64" using n by (simp add: b_def)
  have "8 + max_compressed_size sz = word_of_nat (8 + b)"
  proof -
    have "sz = word_of_nat (length src)" by (simp add: sz_def size_of_buffer_def)
    moreover have "sz div 16 = word_of_nat (length src div 16)"
      by (rule word_unat_eq_iff [THEN iffD2])
         (use sz n in \<open>simp add: unat_div unat_of_nat\<close>)
    ultimately show ?thesis by (simp add: max_compressed_size_def b_def)
  qed
  then have ub: "unat (8 + max_compressed_size sz) = 8 + b"
    using b unat_word_of_length [where 'a = 64, of "8 + b"] by simp
  define pre where "pre = mem_bytes sz"
  have pre: "length pre = 8" by (simp add: pre_def)
  obtain out k st where run: "lzo_do_compress lib src = (out, k, st)" by (metis prod_cases3)
  have r: "st" "unat k = length out" "length out \<le> b"
      "lzo_do_decompress lib out sz = (src, sz, True)"
    using c [unfolded lzo_contract_def, rule_format, of src] n run by (simp_all add: b_def sz_def)
  have k: "unat (k + 8) = length out + 8"
    using r b by (simp add: unat_plus_simple [THEN iffD1] unat_word_ariths)
  have "lzo_compress lib junk src = Inr (pre @ out)"
    using run r(1,3) ub b k
    by (simp add: lzo_compress_def Let_def buffer_prefix buffer_payload pre flip: sz_def pre_def)
  moreover have "lzo_decompress lib junk' (pre @ out) = Inr src"
    using r sz n by (simp add: lzo_decompress_def read_prefix_ok pre Let_def)
      (simp add: pre_def buffer_filled)
  ultimately show ?thesis using run pre by auto
qed


lemma lz4_roundtrip_with:
  assumes n: "length src \<le> LZ4_MAX_INPUT_SIZE"
    and run: "\<And>cap. unat (l4_bound lib (word_of_nat (length src))) \<le> unat cap \<Longrightarrow>
      lz4_inverse lib src (f src cap)"
    and room: "unat (l4_bound lib (word_of_nat (length src))) < 2 ^ 32 - 4"
  shows "\<exists>out. lz4_compress_with lib f junk src = Inr out \<and> lz4_decompress lib junk' out = Inr src"
proof -
  have n': "length src < 2 ^ 31" using n by (simp add: LZ4_MAX_INPUT_SIZE_def)
  define sz where "sz = (ucast (size_of_buffer src) :: 32 word)"
  have u: "unat sz = length src"
    using size_of_buffer_int [OF n'] by (simp add: sz_def)
  have "sz = word_of_nat (unat sz)" by simp
  with u have sz: "unat sz = length src" "sz = word_of_nat (length src)" by simp_all
  define b where "b = unat (l4_bound lib sz)"
  have b: "4 + b < 2 ^ 32" using room sz by (simp add: b_def)
  define pre where "pre = mem_bytes sz"
  have pre: "length pre = 4" by (simp add: pre_def)
  define dst1 where "dst1 = pre @ map junk [4..<4 + b]"
  define cap where "cap = (ucast (size_of_buffer dst1) :: 32 word)"
  have "length dst1 = 4 + b" using pre by (simp add: dst1_def)
  then have cap: "unat cap = 4 + b"
    using b unat_int_size [of dst1] by (simp add: cap_def)
  obtain out k where f: "f src cap = (out, k)" by fastforce
  obtain res where r: "unat k = length out" "length out \<le> b"
      "l4_decompress_fast lib out sz = (src, res)" "0 \<le> sint res"
    using run [of cap] cap f sz
    by (cases "l4_decompress_fast lib out sz") (auto simp: b_def lz4_inverse_def)
  have "lz4_compress_with lib f junk src = Inr (pre @ out)"
    using n b f r(1,2)
    by (simp add: lz4_compress_with_def Let_def buffer_prefix pre flip: sz_def b_def pre_def cap_def dst1_def)
       (simp add: dst1_def buffer_payload pre)
  moreover have "lz4_decompress lib junk' (pre @ out) = Inr src"
    using r sz n' by (simp add: lz4_decompress_def read_prefix_ok pre Let_def)
      (simp add: pre_def buffer_filled)
  ultimately show ?thesis by blast
qed

lemma lz4_roundtrip:
  assumes "lz4_contract lib" and "length src \<le> LZ4_MAX_INPUT_SIZE"
  shows "\<exists>out. lz4_compress lib junk src = Inr out \<and> lz4_decompress lib junk' out = Inr src"
    and "\<exists>out. lz4hc_compress lib junk src = Inr out \<and> lz4_decompress lib junk' out = Inr src"
  unfolding lz4_compress_def lz4hc_compress_def
  by (rule lz4_roundtrip_with; use assms in \<open>simp add: lz4_contract_def\<close>)+

lemma gipfeli_roundtrip:
  assumes c: "gipfeli_contract lib" and n: "length src < 2 ^ 31"
  shows "\<exists>out. gipfeli_compress lib junk src = Inr out \<and> gipfeli_decompress lib junk' out = Inr src"
proof -
  note sz = size_of_buffer_int [OF n]
  define b where "b = gi_bound lib (size_of_buffer src)"
  have b: "unat b < 2 ^ 32" using c sz n by (auto simp: gipfeli_contract_def b_def)
  then have ub: "unat (ucast b :: 32 word) = unat b"
    by (simp add: unsigned_ucast_eq take_bit_nat_eq_self_iff)
  define pre where "pre = mem_bytes (ucast (size_of_buffer src) :: 32 word)"
  have pre: "length pre = 4" by (simp add: pre_def)
  obtain out code where run: "gi_compress lib src = (out, code)" by fastforce
  have r: "unat code = length out" "unat code \<le> unat b" "gi_uncompress lib out = (src, True)"
    using c [unfolded gipfeli_contract_def, THEN conjunct2, rule_format, of src] n run by (simp_all add: b_def)
  have uc: "unat (ucast code :: 32 word) = length out"
    using r b by (simp add: unsigned_ucast_eq take_bit_nat_eq_self_iff)
  have "gipfeli_compress lib junk src = Inr (pre @ out)"
    using b ub r uc run sz(2)
    by (simp add: gipfeli_compress_def Let_def buffer_prefix buffer_payload pre flip: b_def pre_def)
  moreover have "gipfeli_decompress lib junk' (pre @ out) = Inr src"
    using r sz n by (simp add: gipfeli_decompress_def read_prefix_ok pre Let_def)
      (simp add: pre_def buffer_filled)
  ultimately show ?thesis by blast
qed

section \<open>What decompression checks\<close>

text \<open>A result has the recorded size; a block shorter than the size field is read out of bounds.\<close>

lemma length_store_at: "store_at p bs buf = Inr buf' \<Longrightarrow> length buf' = length buf"
  by (auto simp: store_at_def split: if_splits)

lemma zstd_decompress_size:
  assumes "zstd_decompress lib junk src = Inr out"
  shows "4 \<le> length src \<and> length out = unat (of_mem (take 4 src) :: 32 word)"
  using assms
  by (auto simp: zstd_decompress_def rbind_Inr_iff Let_def read_prefix_def buffer_new_def
      dest!: length_store_at split: if_splits prod.splits)

lemma lzo_decompress_size:
  assumes "lzo_decompress lib junk src = Inr out"
  shows "8 \<le> length src \<and> length out = unat (of_mem (take 8 src) :: 64 word)"
  using assms
  by (auto simp: lzo_decompress_def rbind_Inr_iff Let_def read_prefix_def buffer_new_def
      dest!: length_store_at split: if_splits prod.splits)

lemma decompress_short:
  "length src < 4 \<Longrightarrow> zstd_decompress lib junk src = Inl (Undefined OutOfBounds)"
  "length src < 8 \<Longrightarrow> lzo_decompress lzo junk src = Inl (Undefined OutOfBounds)"
  by (simp_all add: zstd_decompress_def lzo_decompress_def read_prefix_def)

section \<open>A concrete library\<close>

text \<open>
  Run-length coding of constant data, everything else stored: it meets the contracts, so
  they can be met.
\<close>

definition rle_encode :: "byte list \<Rightarrow> byte list" where
  "rle_encode src =
     (case src of
        [] \<Rightarrow> [0]
      | b # _ \<Rightarrow> if src = replicate (length src) b then 1 # b # le_bytes 8 (length src) else 0 # src)"

definition rle_decode :: "byte list \<Rightarrow> byte list" where
  "rle_decode bs =
     (case bs of
        [] \<Rightarrow> []
      | t # rest \<Rightarrow> if t = 0 then rest
          else (case rest of [] \<Rightarrow> [] | b # n \<Rightarrow> replicate (le_val n) b))"

lemma rle_decode_encode: "length src < 2 ^ 64 \<Longrightarrow> rle_decode (rle_encode src) = src"
  by (auto simp: rle_encode_def rle_decode_def le_val_le_bytes split: list.splits)

lemma length_rle_encode: "length (rle_encode src) \<le> length src + 10"
  by (simp add: rle_encode_def split: list.splits)

definition rle_zstd :: zstd_lib where
  "rle_zstd = \<lparr>zs_bound = (\<lambda>n. n + 16),
     zs_compress = (\<lambda>cap src level. (rle_encode src, size_of_buffer (rle_encode src))),
     zs_decompress = (\<lambda>cap bs. (rle_decode bs, size_of_buffer (rle_decode bs))),
     zs_is_error = (\<lambda>n. False)\<rparr>"

definition rle_lzo :: lzo_lib where
  "rle_lzo = \<lparr>lzo_do_compress = (\<lambda>src. (rle_encode src, size_of_buffer (rle_encode src), True)),
     lzo_do_decompress = (\<lambda>bs n. (rle_decode bs, size_of_buffer (rle_decode bs), True))\<rparr>"

lemma unat_size_of_buffer: "length buf < 2 ^ 64 \<Longrightarrow> unat (size_of_buffer buf) = length buf"
  unfolding size_of_buffer_def using unat_word_of_length [where 'a = 64] by simp

lemma rle_zstd_contract: "zstd_contract rle_zstd"
proof -
  have b: "unat (n + 16) = unat n + 16" if "unat n < 2 ^ 31" for n :: "64 word"
    using that by (simp add: unat_word_ariths)
  have "zstd_inverse rle_zstd src (zs_compress rle_zstd cap src level)" if "length src < 2 ^ 31"
    for src cap level
    using that length_rle_encode [of src] b [of "size_of_buffer src"]
    by (simp add: zstd_inverse_def rle_zstd_def rle_decode_encode unat_size_of_buffer)
  then show ?thesis
    unfolding zstd_contract_def using b by (auto simp: rle_zstd_def)
qed

lemma rle_lzo_contract: "lzo_contract rle_lzo"
proof -
  have "unat (size_of_buffer (rle_encode src)) = length (rle_encode src)" if "length src < 2 ^ 62" for src
    using that length_rle_encode [of src] by (intro unat_size_of_buffer) simp
  moreover have "length (rle_encode src) \<le> length src + length src div 16 + 67" for src
    using length_rle_encode [of src] by linarith
  ultimately show ?thesis
    by (simp add: lzo_contract_def rle_lzo_def rle_decode_encode)
qed

definition rle_lz4 :: lz4_lib where
  "rle_lz4 = \<lparr>l4_bound = (\<lambda>n. n + 16),
     l4_compress_default = (\<lambda>src cap. (rle_encode src, word_of_nat (length (rle_encode src)))),
     l4_compress_HC = (\<lambda>src cap level. (rle_encode src, word_of_nat (length (rle_encode src)))),
     l4_decompress_fast = (\<lambda>bs n. (rle_decode bs, 0))\<rparr>"

definition rle_gipfeli :: gipfeli_lib where
  "rle_gipfeli = \<lparr>gi_bound = (\<lambda>n. n + 16),
     gi_compress = (\<lambda>src. (rle_encode src, size_of_buffer (rle_encode src))),
     gi_uncompress = (\<lambda>bs. (rle_decode bs, True))\<rparr>"

lemma rle_lz4_contract: "lz4_contract rle_lz4"
proof -
  have b: "unat (word_of_nat n + 16 :: 32 word) = n + 16" if "n \<le> LZ4_MAX_INPUT_SIZE" for n
    using that unat_word_of_length [where 'a = 32, of "n + 16"] by (simp add: LZ4_MAX_INPUT_SIZE_def)
  have "unat (word_of_nat (length (rle_encode src)) :: 32 word) = length (rle_encode src)"
    if "length src \<le> LZ4_MAX_INPUT_SIZE" for src
    using that length_rle_encode [of src]
    by (intro unat_word_of_length) (simp add: LZ4_MAX_INPUT_SIZE_def)
  moreover have "length src < 2 ^ 64" if "length src \<le> LZ4_MAX_INPUT_SIZE" for src :: "byte list"
    using that by (simp add: LZ4_MAX_INPUT_SIZE_def)
  moreover have "length (rle_encode src) \<le> length src + 16" for src
    using length_rle_encode [of src] by simp
  ultimately have "lz4_inverse rle_lz4 src (rle_encode src, word_of_nat (length (rle_encode src)))"
    if "length src \<le> LZ4_MAX_INPUT_SIZE" for src
    using that b [of "length src"] by (simp add: lz4_inverse_def rle_lz4_def rle_decode_encode)
  moreover have "unat (l4_bound rle_lz4 (word_of_nat n)) < 2 ^ 32 - 4" if "n \<le> LZ4_MAX_INPUT_SIZE" for n
    using that b [of n] by (simp add: rle_lz4_def LZ4_MAX_INPUT_SIZE_def)
  ultimately show ?thesis by (simp add: lz4_contract_def) (simp add: rle_lz4_def)
qed

lemma rle_gipfeli_contract: "gipfeli_contract rle_gipfeli"
proof -
  have b: "unat (n + 16) = unat n + 16" if "unat n < 2 ^ 31" for n :: "64 word"
    using that by (simp add: unat_word_ariths)
  have "length (rle_encode src) < 2 ^ 64" if "length src < 2 ^ 31" for src
    using that length_rle_encode [of src] by simp
  moreover have "length (rle_encode src) \<le> length src + 16" for src
    using length_rle_encode [of src] by simp
  ultimately show ?thesis
    using b by (auto simp: gipfeli_contract_def rle_gipfeli_def rle_decode_encode unat_size_of_buffer)
qed

end
