(* ===== verification/Crc32.thy ===== *)
theory Crc32
  imports Prelude
begin

text \<open>
  CRC-32C (\<^verbatim>\<open>src/pbsf/crc-32.cc\<close>): the table-driven routine, the SSE 4.2 routine with its split
  at aligned addresses, and the choice between them. Memory is a function from addresses,
  pointers are 64-bit words; the instructions \<^verbatim>\<open>_mm_crc32_u8\<close> and \<^verbatim>\<open>_mm_crc32_u64\<close> and the
  result of \<^verbatim>\<open>cpuid\<close> are parameters.
\<close>

unbundle bit_operations_syntax

type_synonym memory = "64 word \<Rightarrow> byte"

definition bytes_at :: "memory \<Rightarrow> 64 word \<Rightarrow> nat \<Rightarrow> byte list" where
  "bytes_at m p n = map (\<lambda>i. m (p + word_of_nat i)) [0..<n]"

section \<open>The code\<close>

definition crc_32_tab :: "32 word list" where
  "crc_32_tab =
  [0x00000000, 0xf26b8303, 0xe13b70f7, 0x1350f3f4, 0xc79a971f, 0x35f1141c, 0x26a1e7e8, 0xd4ca64eb,
   0x8ad958cf, 0x78b2dbcc, 0x6be22838, 0x9989ab3b, 0x4d43cfd0, 0xbf284cd3, 0xac78bf27, 0x5e133c24,
   0x105ec76f, 0xe235446c, 0xf165b798, 0x030e349b, 0xd7c45070, 0x25afd373, 0x36ff2087, 0xc494a384,
   0x9a879fa0, 0x68ec1ca3, 0x7bbcef57, 0x89d76c54, 0x5d1d08bf, 0xaf768bbc, 0xbc267848, 0x4e4dfb4b,
   0x20bd8ede, 0xd2d60ddd, 0xc186fe29, 0x33ed7d2a, 0xe72719c1, 0x154c9ac2, 0x061c6936, 0xf477ea35,
   0xaa64d611, 0x580f5512, 0x4b5fa6e6, 0xb93425e5, 0x6dfe410e, 0x9f95c20d, 0x8cc531f9, 0x7eaeb2fa,
   0x30e349b1, 0xc288cab2, 0xd1d83946, 0x23b3ba45, 0xf779deae, 0x05125dad, 0x1642ae59, 0xe4292d5a,
   0xba3a117e, 0x4851927d, 0x5b016189, 0xa96ae28a, 0x7da08661, 0x8fcb0562, 0x9c9bf696, 0x6ef07595,
   0x417b1dbc, 0xb3109ebf, 0xa0406d4b, 0x522bee48, 0x86e18aa3, 0x748a09a0, 0x67dafa54, 0x95b17957,
   0xcba24573, 0x39c9c670, 0x2a993584, 0xd8f2b687, 0x0c38d26c, 0xfe53516f, 0xed03a29b, 0x1f682198,
   0x5125dad3, 0xa34e59d0, 0xb01eaa24, 0x42752927, 0x96bf4dcc, 0x64d4cecf, 0x77843d3b, 0x85efbe38,
   0xdbfc821c, 0x2997011f, 0x3ac7f2eb, 0xc8ac71e8, 0x1c661503, 0xee0d9600, 0xfd5d65f4, 0x0f36e6f7,
   0x61c69362, 0x93ad1061, 0x80fde395, 0x72966096, 0xa65c047d, 0x5437877e, 0x4767748a, 0xb50cf789,
   0xeb1fcbad, 0x197448ae, 0x0a24bb5a, 0xf84f3859, 0x2c855cb2, 0xdeeedfb1, 0xcdbe2c45, 0x3fd5af46,
   0x7198540d, 0x83f3d70e, 0x90a324fa, 0x62c8a7f9, 0xb602c312, 0x44694011, 0x5739b3e5, 0xa55230e6,
   0xfb410cc2, 0x092a8fc1, 0x1a7a7c35, 0xe811ff36, 0x3cdb9bdd, 0xceb018de, 0xdde0eb2a, 0x2f8b6829,
   0x82f63b78, 0x709db87b, 0x63cd4b8f, 0x91a6c88c, 0x456cac67, 0xb7072f64, 0xa457dc90, 0x563c5f93,
   0x082f63b7, 0xfa44e0b4, 0xe9141340, 0x1b7f9043, 0xcfb5f4a8, 0x3dde77ab, 0x2e8e845f, 0xdce5075c,
   0x92a8fc17, 0x60c37f14, 0x73938ce0, 0x81f80fe3, 0x55326b08, 0xa759e80b, 0xb4091bff, 0x466298fc,
   0x1871a4d8, 0xea1a27db, 0xf94ad42f, 0x0b21572c, 0xdfeb33c7, 0x2d80b0c4, 0x3ed04330, 0xccbbc033,
   0xa24bb5a6, 0x502036a5, 0x4370c551, 0xb11b4652, 0x65d122b9, 0x97baa1ba, 0x84ea524e, 0x7681d14d,
   0x2892ed69, 0xdaf96e6a, 0xc9a99d9e, 0x3bc21e9d, 0xef087a76, 0x1d63f975, 0x0e330a81, 0xfc588982,
   0xb21572c9, 0x407ef1ca, 0x532e023e, 0xa145813d, 0x758fe5d6, 0x87e466d5, 0x94b49521, 0x66df1622,
   0x38cc2a06, 0xcaa7a905, 0xd9f75af1, 0x2b9cd9f2, 0xff56bd19, 0x0d3d3e1a, 0x1e6dcdee, 0xec064eed,
   0xc38d26c4, 0x31e6a5c7, 0x22b65633, 0xd0ddd530, 0x0417b1db, 0xf67c32d8, 0xe52cc12c, 0x1747422f,
   0x49547e0b, 0xbb3ffd08, 0xa86f0efc, 0x5a048dff, 0x8ecee914, 0x7ca56a17, 0x6ff599e3, 0x9d9e1ae0,
   0xd3d3e1ab, 0x21b862a8, 0x32e8915c, 0xc083125f, 0x144976b4, 0xe622f5b7, 0xf5720643, 0x07198540,
   0x590ab964, 0xab613a67, 0xb831c993, 0x4a5a4a90, 0x9e902e7b, 0x6cfbad78, 0x7fab5e8c, 0x8dc0dd8f,
   0xe330a81a, 0x115b2b19, 0x020bd8ed, 0xf0605bee, 0x24aa3f05, 0xd6c1bc06, 0xc5914ff2, 0x37faccf1,
   0x69e9f0d5, 0x9b8273d6, 0x88d28022, 0x7ab90321, 0xae7367ca, 0x5c18e4c9, 0x4f48173d, 0xbd23943e,
   0xf36e6f75, 0x0105ec76, 0x12551f82, 0xe03e9c81, 0x34f4f86a, 0xc69f7b69, 0xd5cf889d, 0x27a40b9e,
   0x79b737ba, 0x8bdcb4b9, 0x988c474d, 0x6ae7c44e, 0xbe2da0a5, 0x4c4623a6, 0x5f16d052, 0xad7d5351]"

fun crc32c_generic_loop :: "memory \<Rightarrow> 64 word \<Rightarrow> nat \<Rightarrow> 32 word \<Rightarrow> 32 word" where
  "crc32c_generic_loop m str 0 crc = crc"
| "crc32c_generic_loop m str (Suc count) crc =
     crc32c_generic_loop m (str + 1) count
       (crc_32_tab ! unat ((crc XOR ucast (m str)) AND 0xff) XOR drop_bit 8 crc)"

definition crc32c_generic :: "memory \<Rightarrow> 64 word \<Rightarrow> 64 word \<Rightarrow> 32 word" where
  "crc32c_generic m str count = NOT (crc32c_generic_loop m str (unat count) 0xFFFFFFFF)"

definition has_sse42 :: "32 word \<Rightarrow> bool" where
  "has_sse42 ecx \<longleftrightarrow> ecx AND push_bit 20 1 \<noteq> 0"

text \<open>The loops compare pointers with \<^verbatim>\<open>!=\<close>; the second one need not hit its end.\<close>

function sse_update_crc32c_8 ::
  "(32 word \<Rightarrow> byte \<Rightarrow> 32 word) \<Rightarrow> memory \<Rightarrow> 32 word \<Rightarrow> 64 word \<Rightarrow> 64 word \<Rightarrow> 32 word" where
  "sse_update_crc32c_8 u8 m acc first stop =
     (if first \<noteq> stop then sse_update_crc32c_8 u8 m (u8 acc (m first)) (first + 1) stop else acc)"
  by pat_completeness auto

lemma distance_decreases: "(first :: 64 word) \<noteq> stop \<Longrightarrow> unat (stop - (first + 1)) < unat (stop - first)"
proof -
  assume "first \<noteq> stop"
  then have "stop - first \<noteq> 0" by simp
  then have "unat (stop - first - 1) < unat (stop - first)"
    by (metis unat_minus_one unat_gt_0 diff_Suc_less One_nat_def)
  then show ?thesis by (simp add: algebra_simps)
qed

termination sse_update_crc32c_8
  by (relation "measure (\<lambda>(u8, m, acc, first, stop). unat (stop - first))") (auto simp: distance_decreases)

declare sse_update_crc32c_8.simps [simp del]

definition load64 :: "memory \<Rightarrow> 64 word \<Rightarrow> 64 word" where
  "load64 m p = of_mem (bytes_at m p 8)"

partial_function (option) sse_update_crc32c_64 ::
  "(64 word \<Rightarrow> 64 word \<Rightarrow> 64 word) \<Rightarrow> memory \<Rightarrow> 32 word \<Rightarrow> 64 word \<Rightarrow> 64 word \<Rightarrow> 32 word option" where
  "sse_update_crc32c_64 u64 m acc first stop =
     (if first \<noteq> stop
      then sse_update_crc32c_64 u64 m (ucast (u64 (ucast acc) (load64 m first))) (first + 8) stop
      else Some acc)"

definition align_ceil :: "64 word \<Rightarrow> 64 word \<Rightarrow> 64 word" where
  "align_ceil align ptr = (ptr + (align - 1)) AND NOT (align - 1)"

definition align_floor :: "64 word \<Rightarrow> 64 word \<Rightarrow> 64 word" where
  "align_floor align ptr = ptr AND NOT (align - 1)"

definition crc32c_sse ::
  "(32 word \<Rightarrow> byte \<Rightarrow> 32 word) \<Rightarrow> (64 word \<Rightarrow> 64 word \<Rightarrow> 64 word) \<Rightarrow> memory \<Rightarrow> 64 word \<Rightarrow> 64 word \<Rightarrow> 32 word option" where
  "crc32c_sse u8 u64 m str count =
     (let first = str; stop = first + count;
          aligned_begin = align_ceil 8 first; aligned_end = align_floor 8 stop;
          acc = 0xFFFFFFFF
      in if aligned_begin > stop then Some (NOT (sse_update_crc32c_8 u8 m acc first stop))
         else map_option (\<lambda>acc. NOT (sse_update_crc32c_8 u8 m acc aligned_end stop))
                (sse_update_crc32c_64 u64 m (sse_update_crc32c_8 u8 m acc first aligned_begin)
                   aligned_begin aligned_end))"

text \<open>\<open>sse = Some ecx\<close> is a build with \<^verbatim>\<open>__SSE4_2__\<close>, running on a machine whose \<^verbatim>\<open>cpuid\<close> gives \<open>ecx\<close>.\<close>

definition crc32c ::
  "32 word option \<Rightarrow> (32 word \<Rightarrow> byte \<Rightarrow> 32 word) \<Rightarrow> (64 word \<Rightarrow> 64 word \<Rightarrow> 64 word) \<Rightarrow>
   memory \<Rightarrow> 64 word \<Rightarrow> 64 word \<Rightarrow> 32 word option" where
  "crc32c sse u8 u64 m str count =
     (case sse of
        Some ecx \<Rightarrow> if has_sse42 ecx then crc32c_sse u8 u64 m str count
                    else Some (crc32c_generic m str count)
      | None \<Rightarrow> Some (crc32c_generic m str count))"

section \<open>The polynomial division\<close>

text \<open>
  Castagnoli's polynomial, bit-reflected, one bit of data at a time; the checksum starts from
  all ones and is complemented at the end.
\<close>

definition crc_bit :: "32 word \<Rightarrow> bool \<Rightarrow> 32 word" where
  "crc_bit c b = drop_bit 1 c XOR (if bit c 0 \<noteq> b then 0x82F63B78 else 0)"

definition crc_bits :: "32 word \<Rightarrow> bool list \<Rightarrow> 32 word" where
  "crc_bits c bs = foldl crc_bit c bs"

definition byte_bits :: "byte \<Rightarrow> bool list" where
  "byte_bits b = map (bit b) [0..<8]"

definition word_bits :: "64 word \<Rightarrow> bool list" where
  "word_bits w = map (bit w) [0..<64]"

definition crc32c_spec :: "byte list \<Rightarrow> 32 word" where
  "crc32c_spec bs = NOT (crc_bits 0xFFFFFFFF (concat (map byte_bits bs)))"

text \<open>What the processor's manual says the two instructions compute.\<close>

definition documented_crc32 :: "(32 word \<Rightarrow> byte \<Rightarrow> 32 word) \<Rightarrow> (64 word \<Rightarrow> 64 word \<Rightarrow> 64 word) \<Rightarrow> bool" where
  "documented_crc32 u8 u64 \<longleftrightarrow>
     (\<forall>acc b. u8 acc b = crc_bits acc (byte_bits b)) \<and>
     (\<forall>acc w. u64 acc w = ucast (crc_bits (ucast acc) (word_bits w)))"

lemma crc_bits_simps [simp]:
  "crc_bits c [] = c"
  "crc_bits c (b # bs) = crc_bits (crc_bit c b) bs"
  "crc_bits c (as @ bs) = crc_bits (crc_bits c as) bs"
  by (simp_all add: crc_bits_def)

section \<open>The table\<close>

definition shift_zero :: "32 word \<Rightarrow> 32 word" where
  "shift_zero c = crc_bit c False"

definition shift_byte :: "32 word \<Rightarrow> 32 word" where
  "shift_byte c = (shift_zero ^^ 8) c"

text \<open>
  The entries at the powers of two determine the others, because the shift is linear.
\<close>

definition tab_basis :: "32 word list" where
  "tab_basis = [0xf26b8303, 0xe13b70f7, 0xc79a971f, 0x8ad958cf, 0x105ec76f, 0x20bd8ede, 0x417b1dbc, 0x82f63b78]"

definition tab_double :: "32 word list \<Rightarrow> 32 word \<Rightarrow> 32 word list" where
  "tab_double T b = T @ map (\<lambda>x. b XOR x) T"

lemma tab_generated: "crc_32_tab = foldl tab_double [0] tab_basis"
  by (simp add: tab_basis_def tab_double_def crc_32_tab_def)

lemma shift_zero_xor: "shift_zero (x XOR y) = shift_zero x XOR shift_zero y"
  by (auto simp: shift_zero_def crc_bit_def bit_xor_iff drop_bit_xor ac_simps)

lemma funpow_xor: "(shift_zero ^^ n) (x XOR y) = (shift_zero ^^ n) x XOR (shift_zero ^^ n) y"
  by (induction n) (simp_all add: shift_zero_xor)

lemma shift_byte_unfold: "shift_byte c =
    shift_zero (shift_zero (shift_zero (shift_zero (shift_zero (shift_zero (shift_zero (shift_zero c)))))))"
  by (simp add: shift_byte_def numeral_eq_Suc)

lemma shift_zero_poly:
  "shift_zero 0x82f63b78 = 0x417b1dbc"
  "shift_zero 0x417b1dbc = 0x20bd8ede"
  "shift_zero 0x20bd8ede = 0x105ec76f"
  "shift_zero 0x105ec76f = 0x8ad958cf"
  "shift_zero 0x8ad958cf = 0xc79a971f"
  "shift_zero 0xc79a971f = 0xe13b70f7"
  "shift_zero 0xe13b70f7 = 0xf26b8303"
  "shift_zero 128 = 64"
  "shift_zero 64 = 32"
  "shift_zero 32 = 16"
  "shift_zero 16 = 8"
  "shift_zero 8 = 4"
  "shift_zero 4 = 2"
  "shift_zero 2 = 1"
  "shift_zero 1 = 0x82f63b78"
  by (simp_all add: shift_zero_def crc_bit_def)

lemma basis_shift: "tab_basis = map (\<lambda>k. shift_byte (2 ^ k)) [0, 1, 2, 3, 4, 5, 6, 7]"
  by (simp add: tab_basis_def shift_byte_unfold shift_zero_poly)

lemma tab_double_entries:
  assumes "length T = 2 ^ k" and "\<And>i. i < 2 ^ k \<Longrightarrow> T ! i = shift_byte (word_of_nat i)" and "k < 8"
  shows "length (tab_double T (shift_byte (2 ^ k))) = 2 ^ Suc k"
    and "i < 2 ^ Suc k \<Longrightarrow> tab_double T (shift_byte (2 ^ k)) ! i = shift_byte (word_of_nat i)"
proof -
  show "length (tab_double T (shift_byte (2 ^ k))) = 2 ^ Suc k" using assms(1) by (simp add: tab_double_def)
  assume i: "i < 2 ^ Suc k"
  show "tab_double T (shift_byte (2 ^ k)) ! i = shift_byte (word_of_nat i)"
  proof (cases "i < 2 ^ k")
    case True
    then show ?thesis using assms by (simp add: tab_double_def nth_append)
  next
    case False
    then obtain j where j: "i = 2 ^ k + j" "j < 2 ^ k" using i by (metis add_less_cancel_left le_Suc_ex leI mult_2 power_Suc)
    have "(word_of_nat i :: 32 word) = 2 ^ k XOR word_of_nat j"
    proof -
      have "\<not> bit j k" using j(2) by (simp add: bit_iff_odd)
      then have "(2 ^ k :: 32 word) AND word_of_nat j = 0"
        by (intro bit_eqI) (auto simp: bit_and_iff bit_exp_iff bit_of_nat_iff)
      then have "(2 ^ k :: 32 word) + word_of_nat j = 2 ^ k XOR word_of_nat j"
        by (rule disjunctive_add_eq_xor)
      then show ?thesis by (simp add: j(1))
    qed
    then show ?thesis using assms j by (simp add: tab_double_def nth_append shift_byte_def funpow_xor)
  qed
qed

lemma foldl_double:
  assumes "k \<le> 8"
  shows "length (foldl tab_double [0] (map (\<lambda>k. shift_byte (2 ^ k)) [0..<k])) = 2 ^ k \<and>
    (\<forall>i < 2 ^ k. foldl tab_double [0] (map (\<lambda>k. shift_byte (2 ^ k)) [0..<k]) ! i = shift_byte (word_of_nat i))"
  using assms
proof (induction k)
  case 0
  have "(shift_zero ^^ n) 0 = 0" for n
    by (induction n) (simp_all add: shift_zero_def crc_bit_def)
  then show ?case by (simp add: shift_byte_def)
next
  case (Suc k)
  then show ?case
    using tab_double_entries [of "foldl tab_double [0] (map (\<lambda>k. shift_byte (2 ^ k)) [0..<k])" k] by auto
qed

lemma crc_tab_nth:
  assumes "i < 256"
  shows "crc_32_tab ! i = shift_byte (word_of_nat i)"
proof -
  have "[0, 1, 2, 3, 4, 5, 6, 7] = [0..<8]" by (simp add: upt_rec)
  then have "crc_32_tab = foldl tab_double [0] (map (\<lambda>k. shift_byte (2 ^ k)) [0..<8])"
    by (simp only: tab_generated basis_shift)
  then show ?thesis using foldl_double [of 8] assms by simp
qed

section \<open>The table-driven routine divides by the polynomial\<close>

lemma crc_bit_xor: "crc_bit c b = shift_zero (c XOR (if b then 1 else 0))"
  by (auto simp: crc_bit_def shift_zero_def bit_xor_iff drop_bit_xor bit_1_iff)

text \<open>A byte of data can be added to the checksum before the eight shifts.\<close>

lemma crc_bits_funpow:
  "n \<le> 8 \<Longrightarrow> crc_bits c (map (bit b) [0..<n]) = (shift_zero ^^ n) (c XOR ucast (take_bit n (b :: byte)))"
proof (induction n)
  case (Suc n)
  have "take_bit (Suc n) b = take_bit n b XOR (if bit b n then 2 ^ n else 0)"
    by (intro bit_eqI) (auto simp: bit_take_bit_iff bit_xor_iff bit_exp_iff less_Suc_eq dest: bit_imp_le_length)
  then have u: "(ucast (take_bit (Suc n) b) :: 32 word) = ucast (take_bit n b) XOR (if bit b n then 2 ^ n else 0)"
    using Suc.prems by (intro bit_eqI) (auto simp: bit_ucast_iff bit_xor_iff bit_exp_iff)
  have p: "(shift_zero ^^ n) (2 ^ n) = 1"
    using Suc.prems
  proof (induction n)
    case (Suc n)
    have "shift_zero (2 ^ Suc n) = 2 ^ n"
      using Suc.prems by (intro bit_eqI) (auto simp: shift_zero_def crc_bit_def bit_drop_bit_eq bit_exp_iff simp del: power_Suc)
    then show ?case using Suc by (simp add: funpow_swap1)
  qed simp
  have "crc_bits c (map (bit b) [0..<Suc n]) =
      shift_zero ((shift_zero ^^ n) (c XOR ucast (take_bit n b)) XOR (if bit b n then 1 else 0))"
    using Suc by (simp add: crc_bit_xor)
  also have "\<dots> = shift_zero ((shift_zero ^^ n) (c XOR ucast (take_bit n b)) XOR
      (shift_zero ^^ n) (if bit b n then 2 ^ n else 0))"
  proof -
    have "(shift_zero ^^ n) 0 = 0"
      by (induction n) (simp_all add: shift_zero_def crc_bit_def)
    then show ?thesis using p by simp
  qed
  also have "\<dots> = (shift_zero ^^ Suc n) (c XOR ucast (take_bit (Suc n) b))"
    by (simp add: u funpow_xor [symmetric] ac_simps)
  finally show ?case .
qed simp

lemma crc_byte: "crc_bits c (byte_bits b) = shift_byte (c XOR ucast b)"
proof -
  have "take_bit 8 b = b" by (rule take_bit_word_eq_self) simp
  then show ?thesis using crc_bits_funpow [of 8 c b] by (simp add: byte_bits_def shift_byte_def)
qed

text \<open>A value whose low byte is clear is only shifted.\<close>

lemma shift_zeros: "(\<And>k. k < n \<Longrightarrow> \<not> bit x k) \<Longrightarrow> (shift_zero ^^ n) x = drop_bit n x"
proof (induction n arbitrary: x)
  case (Suc n)
  have "\<not> bit x 0" using Suc.prems by blast
  then have s: "shift_zero x = drop_bit 1 x" by (simp add: shift_zero_def crc_bit_def)
  have "(shift_zero ^^ n) (drop_bit 1 x) = drop_bit n (drop_bit 1 x)"
    using Suc.prems by (intro Suc.IH) (simp add: bit_drop_bit_eq)
  then show ?case by (simp add: funpow_swap1 [symmetric] funpow_Suc_right s del: funpow.simps)
qed simp

lemma generic_step:
  "crc_32_tab ! unat ((crc XOR ucast b) AND 0xff) XOR drop_bit 8 crc = crc_bits crc (byte_bits b)"
proof -
  let ?x = "crc XOR ucast b"
  have low: "(0xff :: 32 word) = mask 8" by (simp add: mask_eq_exp_minus_1)
  have "unat (?x AND 0xff) = take_bit 8 (unat ?x)"
    by (simp only: low take_bit_eq_mask [symmetric] unsigned_take_bit_eq)
  also have "\<dots> < 2 ^ 8" by (rule take_bit_nat_less_exp)
  finally have lt: "unat (?x AND 0xff) < 256" by simp
  have split: "?x = (?x AND 0xff) XOR (crc AND NOT 0xff)"
    by (intro bit_eqI) (auto simp: low bit_xor_iff bit_and_iff bit_not_iff bit_mask_iff bit_ucast_iff dest: bit_imp_le_length)
  have high: "shift_byte (crc AND NOT 0xff) = drop_bit 8 crc"
  proof -
    have "(shift_zero ^^ 8) (crc AND NOT 0xff) = drop_bit 8 (crc AND NOT 0xff)"
      by (rule shift_zeros) (simp add: low bit_and_iff bit_not_iff bit_mask_iff)
    also have "\<dots> = drop_bit 8 crc"
      by (intro bit_eqI) (auto simp: low bit_drop_bit_eq bit_and_iff bit_not_iff bit_mask_iff dest: bit_imp_le_length)
    finally show ?thesis by (simp add: shift_byte_def)
  qed
  have "crc_bits crc (byte_bits b) = shift_byte (?x AND 0xff) XOR shift_byte (crc AND NOT 0xff)"
    unfolding crc_byte by (subst split) (simp only: shift_byte_def funpow_xor)
  moreover have "crc_32_tab ! unat (?x AND 0xff) = shift_byte (?x AND 0xff)"
    using crc_tab_nth [OF lt] by simp
  ultimately show ?thesis by (simp only: high)
qed

lemma bytes_at_Suc: "bytes_at m p (Suc n) = m p # bytes_at m (p + 1) n"
  by (simp add: bytes_at_def upt_conv_Cons map_Suc_upt [symmetric] algebra_simps del: upt_Suc)

lemma generic_loop_eq:
  "crc32c_generic_loop m str n crc = crc_bits crc (concat (map byte_bits (bytes_at m str n)))"
proof (induction n arbitrary: str crc)
  case (Suc n)
  then show ?case by (simp only: crc32c_generic_loop.simps generic_step bytes_at_Suc list.map concat.simps crc_bits_simps)
qed (simp add: bytes_at_def)

lemma crc32c_generic_spec: "crc32c_generic m str count = crc32c_spec (bytes_at m str (unat count))"
  by (simp add: crc32c_generic_def crc32c_spec_def generic_loop_eq)

section \<open>The split at aligned addresses\<close>

lemma distance_8: "sse_update_crc32c_8 u8 m acc p (p + word_of_nat n) =
    foldl u8 acc (bytes_at m p n)" if "n < 2 ^ 64"
  using that
proof (induction n arbitrary: acc p)
  case 0
  then show ?case by (simp add: sse_update_crc32c_8.simps [of u8 m acc p] bytes_at_def)
next
  case (Suc n)
  have "(word_of_nat (Suc n) :: 64 word) \<noteq> 0"
    using of_nat_inverse [of "Suc n" "0 :: 64 word"] Suc.prems by auto
  then have ne: "p \<noteq> p + word_of_nat (Suc n)" by simp
  have "sse_update_crc32c_8 u8 m acc p (p + word_of_nat (Suc n)) =
      sse_update_crc32c_8 u8 m (u8 acc (m p)) (p + 1) (p + word_of_nat (Suc n))"
    by (subst sse_update_crc32c_8.simps) (simp only: ne if_True not_False_eq_True)
  moreover have "p + word_of_nat (Suc n) = (p + 1) + word_of_nat n" by simp
  ultimately show ?case using Suc by (simp only: bytes_at_Suc foldl_Cons)
qed

lemma bit_le_val: "bit (le_val bs) i \<longleftrightarrow> i div 8 < length bs \<and> bit (bs ! (i div 8)) (i mod 8)"
proof (induction bs arbitrary: i)
  case (Cons b bs)
  have b8: "bit (unat b) j \<Longrightarrow> j < 8" for j
    using bit_imp_le_length [of b j] by (simp add: bit_unsigned_iff)
  then have "unat b AND push_bit 8 (le_val bs) = 0"
    by (intro bit_eqI) (auto simp: bit_and_iff bit_push_bit_iff dest: b8)
  then have "unat b + push_bit 8 (le_val bs) = unat b OR push_bit 8 (le_val bs)"
    by (rule disjunctive_add_eq_or)
  then have "le_val (b # bs) = unat b OR push_bit 8 (le_val bs)"
    by (simp add: push_bit_eq_mult mult.commute)
  then have *: "bit (le_val (b # bs)) i \<longleftrightarrow> bit b i \<or> 8 \<le> i \<and> bit (le_val bs) (i - 8)"
    by (simp add: bit_or_iff bit_push_bit_iff bit_unsigned_iff)
  show ?case
  proof (cases "i < 8")
    case False
    then have "\<not> bit b i" using bit_imp_le_length [of b i] by auto
    moreover have "i div 8 = Suc ((i - 8) div 8)" "i mod 8 = (i - 8) mod 8"
      using False by (simp_all add: le_div_geq le_mod_geq)
    ultimately show ?thesis using * False Cons.IH [of "i - 8"] by simp
  qed (use * in simp)
qed simp

lemma bits_concat:
  "map (\<lambda>i. bit (bs ! (i div 8)) (i mod 8)) [0..<8 * length bs] = concat (map byte_bits (bs :: byte list))"
proof (induction bs rule: rev_induct)
  case (snoc b bs)
  let ?n = "8 * length bs"
  have "[0..<8 * length (bs @ [b])] = [0..<?n] @ map (\<lambda>i. i + ?n) [0..<8]"
    using upt_add_eq_append [of 0 ?n 8] by (simp add: map_add_upt add.commute)
  moreover have "map (\<lambda>i. bit ((bs @ [b]) ! (i div 8)) (i mod 8)) [0..<?n] =
      map (\<lambda>i. bit (bs ! (i div 8)) (i mod 8)) [0..<?n]"
    by (auto simp: nth_append)
  moreover have "map ((\<lambda>i. bit ((bs @ [b]) ! (i div 8)) (i mod 8)) \<circ> (\<lambda>i. i + ?n)) [0..<8] = byte_bits b"
    unfolding byte_bits_def by (intro map_cong refl) (auto simp: nth_append)
  ultimately show ?case using snoc by simp
qed simp

lemma word_bits_load: "word_bits (load64 m p) = concat (map byte_bits (bytes_at m p 8))"
proof -
  have l: "length (bytes_at m p 8) = 8" by (simp add: bytes_at_def)
  have "word_bits (load64 m p) = map (bit (le_val (bytes_at m p 8))) [0..<64]"
    unfolding word_bits_def load64_def of_mem_def
    by (intro map_cong refl) (simp add: bit_of_nat_iff)
  also have "\<dots> = map (\<lambda>i. bit (bytes_at m p 8 ! (i div 8)) (i mod 8)) [0..<8 * length (bytes_at m p 8)]"
    unfolding l by (intro map_cong) (auto simp: bit_le_val l)
  finally show ?thesis by (simp only: bits_concat)
qed

lemma bytes_at_add: "bytes_at m p (i + j) = bytes_at m p i @ bytes_at m (p + word_of_nat i) j"
proof (induction i arbitrary: p)
  case (Suc i)
  then show ?case by (simp add: bytes_at_Suc algebra_simps)
qed (simp add: bytes_at_def)

lemma update_8_spec:
  assumes "documented_crc32 u8 u64" and "n < 2 ^ 64"
  shows "sse_update_crc32c_8 u8 m acc p (p + word_of_nat n) =
    crc_bits acc (concat (map byte_bits (bytes_at m p n)))"
proof -
  have "foldl u8 acc bs = crc_bits acc (concat (map byte_bits bs))" for bs
    using assms(1) by (induction bs arbitrary: acc) (simp_all add: documented_crc32_def)
  then show ?thesis using distance_8 [OF assms(2)] by simp
qed

lemma ucast_up_down: "(ucast (ucast (c :: 32 word) :: 64 word) :: 32 word) = c"
  by (intro bit_eqI) (simp add: bit_ucast_iff)

lemma update_64_spec:
  assumes "documented_crc32 u8 u64" and "8 * k < 2 ^ 64"
  shows "sse_update_crc32c_64 u64 m acc p (p + word_of_nat (8 * k)) =
    Some (crc_bits acc (concat (map byte_bits (bytes_at m p (8 * k)))))"
  using assms(2)
proof (induction k arbitrary: acc p)
  case 0
  then show ?case by (subst sse_update_crc32c_64.simps) (simp add: bytes_at_def)
next
  case (Suc k)
  have "(word_of_nat (8 * Suc k) :: 64 word) \<noteq> 0"
    using of_nat_inverse [of "8 * Suc k" "0 :: 64 word"] Suc.prems by auto
  then have ne: "p \<noteq> p + word_of_nat (8 * Suc k)" by simp
  have next': "p + word_of_nat (8 * Suc k) = (p + 8) + word_of_nat (8 * k)" by simp
  have step: "ucast (u64 (ucast acc) (load64 m p)) = crc_bits acc (concat (map byte_bits (bytes_at m p 8)))"
    using assms(1) by (simp add: documented_crc32_def word_bits_load ucast_up_down)
  have split: "bytes_at m p (8 * Suc k) = bytes_at m p 8 @ bytes_at m (p + 8) (8 * k)"
    using bytes_at_add [of m p 8 "8 * k"] by simp
  have "sse_update_crc32c_64 u64 m acc p (p + word_of_nat (8 * Suc k)) =
      sse_update_crc32c_64 u64 m (crc_bits acc (concat (map byte_bits (bytes_at m p 8)))) (p + 8)
        (p + word_of_nat (8 * Suc k))"
    by (subst sse_update_crc32c_64.simps) (simp only: ne if_True not_False_eq_True step)
  also have "\<dots> = Some (crc_bits acc (concat (map byte_bits (bytes_at m p (8 * Suc k)))))"
    unfolding next' split using Suc by simp
  finally show ?case .
qed

lemma unat_lt_64: "unat (x :: 64 word) < 2 ^ 64"
proof -
  have "unat x < 2 ^ LENGTH(64)" by (rule unsigned_less)
  then show ?thesis by simp
qed

lemma unat_align: "unat (x AND NOT 7 :: 64 word) = 8 * (unat x div 8)"
proof -
  have "(7 :: 64 word) = mask 3" by (simp add: mask_eq_exp_minus_1)
  moreover have "x AND NOT (mask 3) = push_bit 3 (drop_bit 3 x)"
    by (intro bit_eqI) (auto simp: bit_and_iff bit_not_iff bit_mask_iff bit_push_bit_iff bit_drop_bit_eq)
  ultimately have "x AND NOT 7 = push_bit 3 (drop_bit 3 x)" by (simp only:)
  also have "\<dots> = word_of_nat (8 * (unat x div 8))"
  proof -
    have "drop_bit 3 x = word_of_nat (unat (drop_bit 3 x))" by simp
    also have "unat (drop_bit 3 x) = unat x div 8" by (simp only: unat_drop_bit_eq drop_bit_nat_def) simp
    finally show ?thesis by (simp add: push_bit_eq_mult)
  qed
  finally have e: "x AND NOT 7 = word_of_nat (8 * (unat x div 8))" .
  have "8 * (unat x div 8) \<le> unat x" by simp
  then have "8 * (unat x div 8) < 2 ^ 64" using unat_lt_64 [of x] by (rule le_less_trans)
  then show ?thesis by (simp only: e unat_of_nat) simp
qed

lemma address_eq: "unat p \<le> unat q \<Longrightarrow> (q :: 64 word) = p + word_of_nat (unat q - unat p)"
  by (simp add: of_nat_diff)

text \<open>The range must not reach the last seven addresses, where rounding up would wrap.\<close>

lemma crc32c_sse_spec:
  assumes doc: "documented_crc32 u8 u64" and room: "unat str + unat count + 7 < 2 ^ 64"
  shows "crc32c_sse u8 u64 m str count = Some (crc32c_spec (bytes_at m str (unat count)))"
proof -
  let ?P = "unat str" and ?N = "unat count"
  let ?stop = "str + count" and ?a = "align_ceil 8 str" and ?e = "align_floor 8 (str + count)"
  have stop: "unat ?stop = ?P + ?N" using room by (subst unat_word_ariths) simp
  have up: "unat (str + 7) = ?P + 7" using room by (subst unat_word_ariths) simp
  have a: "unat ?a = 8 * ((?P + 7) div 8)" using unat_align [of "str + 7"] by (simp add: align_ceil_def up)
  have e: "unat ?e = 8 * ((?P + ?N) div 8)" using unat_align [of ?stop] by (simp add: align_floor_def stop)
  show ?thesis
  proof (cases "?a > ?stop")
    case True
    have "sse_update_crc32c_8 u8 m 0xFFFFFFFF str (str + word_of_nat ?N) =
        crc_bits 0xFFFFFFFF (concat (map byte_bits (bytes_at m str ?N)))"
      using room by (intro update_8_spec [OF doc]) simp
    then show ?thesis using True by (simp add: crc32c_sse_def crc32c_spec_def Let_def)
  next
    case False
    then have le: "unat ?a \<le> ?P + ?N" using stop by (simp add: word_less_nat_alt)
    define i where "i = unat ?a - ?P"
    define k where "k = (unat ?e - unat ?a) div 8"
    define j where "j = ?P + ?N - unat ?e"
    have pa: "?P \<le> unat ?a" unfolding a by linarith
    have ae: "unat ?a \<le> unat ?e" using le unfolding a e by (simp add: less_eq_div_iff_mult_less_eq mult.commute)
    have ep: "unat ?e \<le> ?P + ?N" unfolding e by simp
    have k8: "unat ?e - unat ?a = 8 * k"
      unfolding k_def a e by (simp add: diff_mult_distrib2 [symmetric])
    have n: "?N = i + (8 * k + j)" using pa ae ep k8 unfolding i_def j_def by linarith
    have wa: "?a = str + word_of_nat i" unfolding i_def by (rule address_eq [OF pa])
    have we: "?e = ?a + word_of_nat (8 * k)" unfolding k8 [symmetric] by (rule address_eq [OF ae])
    have ws: "?stop = ?e + word_of_nat j"
      using address_eq [of ?e ?stop] ep stop unfolding j_def by simp
    have bounds: "i < 2 ^ 64" "8 * k < 2 ^ 64" "j < 2 ^ 64" using n unat_lt_64 [of count] by linarith+
    have u1: "sse_update_crc32c_8 u8 m acc str ?a = crc_bits acc (concat (map byte_bits (bytes_at m str i)))" for acc
      by (subst wa) (rule update_8_spec [OF doc bounds(1)])
    have u2: "sse_update_crc32c_64 u64 m acc ?a ?e = Some (crc_bits acc (concat (map byte_bits (bytes_at m ?a (8 * k)))))" for acc
      by (subst we) (rule update_64_spec [OF doc bounds(2)])
    have u3: "sse_update_crc32c_8 u8 m acc ?e ?stop = crc_bits acc (concat (map byte_bits (bytes_at m ?e j)))" for acc
      by (subst ws) (rule update_8_spec [OF doc bounds(3)])
    have split: "bytes_at m str ?N = bytes_at m str i @ bytes_at m ?a (8 * k) @ bytes_at m ?e j"
      unfolding n bytes_at_add by (simp only: wa [symmetric] we [symmetric] append_assoc)
    show ?thesis
      using False by (simp add: crc32c_sse_def crc32c_spec_def Let_def u1 u2 u3 split)
  qed
qed

lemma crc32c_eq_spec:
  assumes "documented_crc32 u8 u64" and "unat str + unat count + 7 < 2 ^ 64"
  shows "crc32c sse u8 u64 m str count = Some (crc32c_spec (bytes_at m str (unat count)))"
  using crc32c_sse_spec [OF assms, of m] by (auto simp: crc32c_def crc32c_generic_spec split: option.split)

text \<open>The published check value: the checksum of the digits one to nine.\<close>

lemma crc32c_check_value:
  "crc32c_spec [0x31, 0x32, 0x33, 0x34, 0x35, 0x36, 0x37, 0x38, 0x39] = 0xE3069283"
  by (simp add: crc32c_spec_def byte_bits_def upt_rec crc_bit_def)

end
