(* ===== verification/Optional.thy ===== *)
theory Optional
  imports Prelude "HOL-Library.Option_ord"
begin

text \<open>
  \<^verbatim>\<open>pbsu::optional\<close> (\<^verbatim>\<open>utils/optional.hh\<close>) and \<^verbatim>\<open>pbsu::lazy_value\<close> (\<^verbatim>\<open>utils/lazy-value.hh\<close>).
  The union of an empty struct and a value is a slot that holds a live object or none; the
  flag \<^verbatim>\<open>has_value\<close> is kept apart, as in the code, and the invariant ties the two. What a
  moved-from object is left with, and how a \<^verbatim>\<open>T\<close> is constructed from other arguments, are
  parameters.
\<close>

section \<open>The holder\<close>

record 'a optional =
  has_value :: bool
  slot :: "'a option"

definition opt_inv :: "'a optional \<Rightarrow> bool" where
  "opt_inv x \<longleftrightarrow> (has_value x \<longleftrightarrow> slot x \<noteq> None)"

definition opt_empty :: "'a optional" where
  "opt_empty = \<lparr>has_value = False, slot = None\<rparr>"

definition opt_in_place :: "'a \<Rightarrow> 'a optional" where
  "opt_in_place v = \<lparr>has_value = True, slot = Some v\<rparr>"

definition opt_construct :: "'a \<Rightarrow> 'a optional \<Rightarrow> 'a optional" where
  "opt_construct v x = x\<lparr>slot := Some v, has_value := True\<rparr>"

text \<open>Destroying an object that is not there is undefined.\<close>

definition opt_destruct :: "'a optional \<Rightarrow> 'a optional result" where
  "opt_destruct x =
     (if slot x = None then Inl (Undefined ReadIndeterminate)
      else Inr (x\<lparr>slot := None, has_value := False\<rparr>))"

definition opt_value :: "'a optional \<Rightarrow> 'a result" where
  "opt_value x = (case slot x of None \<Rightarrow> Inl (Undefined ReadIndeterminate) | Some v \<Rightarrow> Inr v)"

section \<open>Copy, move and destruction\<close>

definition opt_copy :: "'a optional \<Rightarrow> 'a optional result" where
  "opt_copy other =
     (let x = \<lparr>has_value = has_value other, slot = None\<rparr>
      in if has_value x then rbind (opt_value other) (\<lambda>v. Inr (opt_construct v x)) else Inr x)"

text \<open>The second component is what is left of the source.\<close>

definition opt_move :: "('a \<Rightarrow> 'a) \<Rightarrow> 'a optional \<Rightarrow> ('a optional \<times> 'a optional) result" where
  "opt_move moved other =
     (let x = \<lparr>has_value = has_value other, slot = None\<rparr>
      in if has_value x
         then rbind (opt_value other) (\<lambda>v. Inr (opt_construct v x, other\<lparr>slot := Some (moved v)\<rparr>))
         else Inr (x, other))"

definition opt_destroy :: "'a optional \<Rightarrow> unit result" where
  "opt_destroy x = (if has_value x then rbind (opt_value x) (\<lambda>v. Inr ()) else Inr ())"

text \<open>
  A type whose destructor is trivial has a holder of its own, \<^verbatim>\<open>optional_holder<T, true>\<close>, whose
  operations are written out again. It has no destructor.
\<close>

definition triv_empty :: "'a optional" where
  "triv_empty = \<lparr>has_value = False, slot = None\<rparr>"

definition triv_in_place :: "'a \<Rightarrow> 'a optional" where
  "triv_in_place v = \<lparr>has_value = True, slot = Some v\<rparr>"

definition triv_construct :: "'a \<Rightarrow> 'a optional \<Rightarrow> 'a optional" where
  "triv_construct v x = x\<lparr>slot := Some v, has_value := True\<rparr>"

definition triv_destruct :: "'a optional \<Rightarrow> 'a optional result" where
  "triv_destruct x =
     (if slot x = None then Inl (Undefined ReadIndeterminate)
      else Inr (x\<lparr>slot := None, has_value := False\<rparr>))"

definition triv_copy :: "'a optional \<Rightarrow> 'a optional result" where
  "triv_copy other =
     (let x = \<lparr>has_value = has_value other, slot = None\<rparr>
      in if has_value x then rbind (opt_value other) (\<lambda>v. Inr (triv_construct v x)) else Inr x)"

definition triv_move :: "('a \<Rightarrow> 'a) \<Rightarrow> 'a optional \<Rightarrow> ('a optional \<times> 'a optional) result" where
  "triv_move moved other =
     (let x = \<lparr>has_value = has_value other, slot = None\<rparr>
      in if has_value x
         then rbind (opt_value other) (\<lambda>v. Inr (triv_construct v x, other\<lparr>slot := Some (moved v)\<rparr>))
         else Inr (x, other))"

section \<open>Construction and conversion\<close>

definition opt_bool :: "'a optional \<Rightarrow> bool" where
  "opt_bool x = has_value x"

definition opt_nullopt :: "'a optional" where
  "opt_nullopt = opt_empty"

definition opt_of_value :: "'a \<Rightarrow> 'a optional" where
  "opt_of_value v = opt_in_place v"

definition make_optional :: "'a \<Rightarrow> 'a optional" where
  "make_optional v = opt_of_value v"

section \<open>Assignment\<close>

definition opt_assign_null :: "'a optional \<Rightarrow> 'a optional result" where
  "opt_assign_null x = (if has_value x then opt_destruct x else Inr x)"

definition opt_assign :: "'a optional \<Rightarrow> 'a optional \<Rightarrow> 'a optional result" where
  "opt_assign x other =
     (if has_value x \<and> has_value other
      then rbind (opt_value x) (\<lambda>_. rbind (opt_value other) (\<lambda>v. Inr (x\<lparr>slot := Some v\<rparr>)))
      else if has_value other then rbind (opt_value other) (\<lambda>v. Inr (opt_construct v x))
      else opt_assign_null x)"

definition opt_assign_move :: "('a \<Rightarrow> 'a) \<Rightarrow> 'a optional \<Rightarrow> 'a optional \<Rightarrow> ('a optional \<times> 'a optional) result" where
  "opt_assign_move moved x other =
     (if has_value x \<and> has_value other
      then rbind (opt_value x) (\<lambda>_. rbind (opt_value other) (\<lambda>v.
             Inr (x\<lparr>slot := Some v\<rparr>, other\<lparr>slot := Some (moved v)\<rparr>)))
      else if has_value other
      then rbind (opt_value other) (\<lambda>v. Inr (opt_construct v x, other\<lparr>slot := Some (moved v)\<rparr>))
      else rbind (opt_assign_null x) (\<lambda>x'. Inr (x', other)))"

definition opt_assign_value :: "'a \<Rightarrow> 'a optional \<Rightarrow> 'a optional result" where
  "opt_assign_value u x =
     (if has_value x then rbind (opt_value x) (\<lambda>_. Inr (x\<lparr>slot := Some u\<rparr>))
      else Inr (opt_construct u x))"

definition opt_emplace :: "'a \<Rightarrow> 'a optional \<Rightarrow> 'a optional result" where
  "opt_emplace v x = rbind (opt_assign_null x) (\<lambda>x'. Inr (opt_construct v x'))"

text \<open>
  When only the left side has a value, \<^verbatim>\<open>swap\<close> passes the whole optional, not its value, to the
  constructor of the value type: \<open>conv\<close> is what \<^verbatim>\<open>T(optional<T>&&)\<close> gives.
\<close>

definition opt_swap :: "('a optional \<Rightarrow> 'a) \<Rightarrow> 'a optional \<Rightarrow> 'a optional \<Rightarrow> ('a optional \<times> 'a optional) result" where
  "opt_swap conv x other =
     (if has_value x \<and> has_value other
      then rbind (opt_value x) (\<lambda>v. rbind (opt_value other) (\<lambda>u.
             Inr (x\<lparr>slot := Some u\<rparr>, other\<lparr>slot := Some v\<rparr>)))
      else if has_value x
      then let other' = opt_construct (conv x) other in rbind (opt_destruct x) (\<lambda>x'. Inr (x', other'))
      else if has_value other
      then rbind (opt_value other) (\<lambda>u.
             let x' = opt_construct u x in rbind (opt_destruct other) (\<lambda>other'. Inr (x', other')))
      else Inr (x, other))"

section \<open>Comparison\<close>

text \<open>With \<^verbatim>\<open>nullopt\<close> on either side.\<close>

definition opt_eq_null :: "'a optional \<Rightarrow> bool" where "opt_eq_null x = (\<not> has_value x)"
definition null_eq_opt :: "'a optional \<Rightarrow> bool" where "null_eq_opt x = (\<not> has_value x)"
definition opt_ne_null :: "'a optional \<Rightarrow> bool" where "opt_ne_null x = has_value x"
definition null_ne_opt :: "'a optional \<Rightarrow> bool" where "null_ne_opt x = has_value x"
definition opt_lt_null :: "'a optional \<Rightarrow> bool" where "opt_lt_null x = False"
definition null_lt_opt :: "'a optional \<Rightarrow> bool" where "null_lt_opt x = has_value x"
definition opt_le_null :: "'a optional \<Rightarrow> bool" where "opt_le_null x = (\<not> has_value x)"
definition null_le_opt :: "'a optional \<Rightarrow> bool" where "null_le_opt x = True"
definition opt_gt_null :: "'a optional \<Rightarrow> bool" where "opt_gt_null x = has_value x"
definition null_gt_opt :: "'a optional \<Rightarrow> bool" where "null_gt_opt x = False"
definition opt_ge_null :: "'a optional \<Rightarrow> bool" where "opt_ge_null x = True"
definition null_ge_opt :: "'a optional \<Rightarrow> bool" where "null_ge_opt x = (\<not> has_value x)"

text \<open>The value of an optional that has one; comparisons read it behind a check.\<close>

definition opt_the :: "'a optional \<Rightarrow> 'a" where "opt_the x = the (slot x)"

text \<open>Two optionals, by the value type's \<^verbatim>\<open>==\<close> and \<^verbatim>\<open><\<close>.\<close>

definition opt_eq :: "('a::linorder) optional \<Rightarrow> 'a optional \<Rightarrow> bool" where
  "opt_eq a b = (if has_value a \<and> has_value b then opt_the a = opt_the b else has_value a = has_value b)"
definition opt_ne :: "('a::linorder) optional \<Rightarrow> 'a optional \<Rightarrow> bool" where
  "opt_ne a b = (\<not> opt_eq a b)"
definition opt_lt :: "('a::linorder) optional \<Rightarrow> 'a optional \<Rightarrow> bool" where
  "opt_lt a b = (if has_value a \<and> has_value b then opt_the a < opt_the b else has_value a < has_value b)"
definition opt_le :: "('a::linorder) optional \<Rightarrow> 'a optional \<Rightarrow> bool" where
  "opt_le a b = (\<not> opt_lt b a)"
definition opt_gt :: "('a::linorder) optional \<Rightarrow> 'a optional \<Rightarrow> bool" where
  "opt_gt a b = opt_lt b a"
definition opt_ge :: "('a::linorder) optional \<Rightarrow> 'a optional \<Rightarrow> bool" where
  "opt_ge a b = (\<not> opt_lt a b)"

text \<open>An optional and a value.\<close>

definition opt_eq_val :: "('a::linorder) optional \<Rightarrow> 'a \<Rightarrow> bool" where
  "opt_eq_val x v = (has_value x \<and> opt_the x = v)"
definition val_eq_opt :: "('a::linorder) \<Rightarrow> 'a optional \<Rightarrow> bool" where
  "val_eq_opt v x = (has_value x \<and> opt_the x = v)"
definition opt_ne_val :: "('a::linorder) optional \<Rightarrow> 'a \<Rightarrow> bool" where
  "opt_ne_val x v = (\<not> opt_eq_val x v)"
definition val_ne_opt :: "('a::linorder) \<Rightarrow> 'a optional \<Rightarrow> bool" where
  "val_ne_opt v x = (\<not> opt_eq_val x v)"
definition opt_lt_val :: "('a::linorder) optional \<Rightarrow> 'a \<Rightarrow> bool" where
  "opt_lt_val x v = (\<not> has_value x \<or> opt_the x < v)"
definition val_lt_opt :: "('a::linorder) \<Rightarrow> 'a optional \<Rightarrow> bool" where
  "val_lt_opt v x = (has_value x \<and> v < opt_the x)"
definition opt_le_val :: "('a::linorder) optional \<Rightarrow> 'a \<Rightarrow> bool" where
  "opt_le_val x v = (\<not> val_lt_opt v x)"
definition val_le_opt :: "('a::linorder) \<Rightarrow> 'a optional \<Rightarrow> bool" where
  "val_le_opt v x = (\<not> opt_lt_val x v)"
definition opt_gt_val :: "('a::linorder) optional \<Rightarrow> 'a \<Rightarrow> bool" where
  "opt_gt_val x v = val_lt_opt v x"
definition val_gt_opt :: "('a::linorder) \<Rightarrow> 'a optional \<Rightarrow> bool" where
  "val_gt_opt v x = opt_lt_val x v"
definition opt_ge_val :: "('a::linorder) optional \<Rightarrow> 'a \<Rightarrow> bool" where
  "opt_ge_val x v = (\<not> opt_lt_val x v)"
definition val_ge_opt :: "('a::linorder) \<Rightarrow> 'a optional \<Rightarrow> bool" where
  "val_ge_opt v x = (\<not> val_lt_opt v x)"

section \<open>lazy_value\<close>

text \<open>The computation runs against the outside world, here a state.\<close>

record ('a, 'w) lazy_value =
  computation :: "'w \<Rightarrow> ('a \<times> 'w) result"
  lazy_result :: "'a optional"

definition lazy_new :: "('w \<Rightarrow> ('a \<times> 'w) result) \<Rightarrow> ('a, 'w) lazy_value" where
  "lazy_new run = \<lparr>computation = run, lazy_result = opt_empty\<rparr>"

definition lazy_deref :: "('a, 'w) lazy_value \<Rightarrow> 'w \<Rightarrow> (('a \<times> ('a, 'w) lazy_value) \<times> 'w) result" where
  "lazy_deref z w =
     (if \<not> has_value (lazy_result z)
      then rbind (computation z w) (\<lambda>(v, w').
             rbind (opt_emplace v (lazy_result z)) (\<lambda>r.
             rbind (opt_value r) (\<lambda>u. Inr ((u, z\<lparr>lazy_result := r\<rparr>), w'))))
      else rbind (opt_value (lazy_result z)) (\<lambda>u. Inr ((u, z), w)))"

section \<open>The specification: HOL's option\<close>

definition opt_abs :: "'a optional \<Rightarrow> 'a option" where
  "opt_abs x = (if has_value x then slot x else None)"

lemmas opt_defs = opt_inv_def opt_abs_def opt_empty_def opt_in_place_def opt_construct_def
  opt_destruct_def opt_value_def opt_copy_def opt_move_def opt_destroy_def opt_assign_null_def
  opt_assign_def opt_assign_move_def opt_assign_value_def opt_emplace_def opt_swap_def

lemmas opt_cmp_defs = opt_eq_null_def null_eq_opt_def opt_ne_null_def null_ne_opt_def opt_lt_null_def
  null_lt_opt_def opt_le_null_def null_le_opt_def opt_gt_null_def null_gt_opt_def opt_ge_null_def
  null_ge_opt_def opt_the_def opt_eq_def opt_ne_def opt_lt_def opt_le_def opt_gt_def opt_ge_def
  opt_eq_val_def val_eq_opt_def opt_ne_val_def val_ne_opt_def opt_lt_val_def val_lt_opt_def
  opt_le_val_def val_le_opt_def opt_gt_val_def val_gt_opt_def opt_ge_val_def val_ge_opt_def

lemma opt_inv_cases:
  assumes "opt_inv x"
  obtains "x = opt_empty" | v where "x = opt_in_place v"
  using assms by (cases x) (auto simp: opt_defs)

lemma opt_abs_simps [simp]:
  "opt_abs opt_empty = None" "opt_abs (opt_in_place v) = Some v"
  "opt_inv opt_empty" "opt_inv (opt_in_place v)"
  by (simp_all add: opt_defs)

text \<open>The two holders are the same, but for the destructor.\<close>

lemma triv_construct: "triv_construct = opt_construct"
  by (simp add: triv_construct_def opt_construct_def fun_eq_iff)

lemma triv_holder:
  "triv_empty = opt_empty" "triv_in_place v = opt_in_place v"
  "triv_destruct x = opt_destruct x" "triv_copy x = opt_copy x" "triv_move moved x = opt_move moved x"
  by (simp_all add: triv_empty_def triv_in_place_def triv_construct triv_destruct_def triv_copy_def triv_move_def
      opt_empty_def opt_in_place_def opt_destruct_def opt_copy_def opt_move_def Let_def)

lemma opt_has_value: "opt_inv x \<Longrightarrow> has_value x \<longleftrightarrow> opt_abs x \<noteq> None"
  by (erule opt_inv_cases) (simp_all add: opt_defs)

lemma opt_copy_abs: "opt_inv x \<Longrightarrow> opt_copy x = Inr x"
  by (erule opt_inv_cases) (simp_all add: opt_defs)

lemma opt_assign_abs: "opt_inv x \<Longrightarrow> opt_inv y \<Longrightarrow> opt_assign x y = Inr y"
  by (erule opt_inv_cases; erule opt_inv_cases) (simp_all add: opt_defs)

lemma opt_emplace_abs: "opt_inv x \<Longrightarrow> opt_emplace v x = Inr (opt_in_place v)"
  by (erule opt_inv_cases) (simp_all add: opt_defs)

lemma opt_assign_value_abs: "opt_inv x \<Longrightarrow> opt_assign_value v x = Inr (opt_in_place v)"
  by (erule opt_inv_cases) (simp_all add: opt_defs)

lemma opt_assign_null_abs: "opt_inv x \<Longrightarrow> opt_assign_null x = Inr opt_empty"
  by (erule opt_inv_cases) (simp_all add: opt_defs)

lemma opt_move_cases:
  "opt_move moved opt_empty = Inr (opt_empty, opt_empty)"
  "opt_move moved (opt_in_place v) = Inr (opt_in_place v, opt_in_place (moved v))"
  by (simp_all add: opt_defs Let_def)

lemma opt_move_abs: "opt_inv x \<Longrightarrow>
    \<exists>y. opt_move moved x = Inr (x, y) \<and> opt_inv y \<and> opt_abs y = map_option moved (opt_abs x)"
  by (erule opt_inv_cases) (simp_all add: opt_move_cases)

lemma opt_assign_move_cases:
  "opt_inv x \<Longrightarrow> opt_assign_move moved x opt_empty = Inr (opt_empty, opt_empty)"
  "opt_inv x \<Longrightarrow> opt_assign_move moved x (opt_in_place v) = Inr (opt_in_place v, opt_in_place (moved v))"
  by (erule opt_inv_cases; simp add: opt_defs)+

lemma opt_assign_move_abs: "opt_inv x \<Longrightarrow> opt_inv y \<Longrightarrow>
    \<exists>z. opt_assign_move moved x y = Inr (y, z) \<and> opt_inv z \<and> opt_abs z = map_option moved (opt_abs y)"
  by (rule opt_inv_cases [of y]) (simp_all add: opt_assign_move_cases)

lemma opt_value_abs: "opt_inv x \<Longrightarrow> opt_value x = (case opt_abs x of None \<Rightarrow> Inl (Undefined ReadIndeterminate) | Some v \<Rightarrow> Inr v)"
  by (erule opt_inv_cases) (simp_all add: opt_defs)

text \<open>\<^verbatim>\<open>swap\<close> exchanges the two, but for a right one that is empty.\<close>

lemma opt_swap_cases:
  assumes "opt_inv x" and "opt_inv y"
  shows "opt_swap conv x y =
    Inr (y, if opt_abs x \<noteq> None \<and> opt_abs y = None then opt_in_place (conv x) else x)"
  using assms by (elim opt_inv_cases) (simp_all add: opt_defs)

lemma lazy_deref_first:
  assumes "computation z w = Inr (v, w')" and "lazy_result z = opt_empty"
  shows "lazy_deref z w = Inr ((v, z\<lparr>lazy_result := opt_in_place v\<rparr>), w')"
  using assms by (simp add: lazy_deref_def opt_defs)

lemma lazy_deref_again:
  "lazy_result z = opt_in_place v \<Longrightarrow> lazy_deref z w = Inr ((v, z), w)"
  by (simp add: lazy_deref_def opt_defs)

end
