(* ===== verification/Iterators.thy ===== *)
theory Iterators
  imports Optional Functional Misc
begin

text \<open>
  The iterator adaptors of \<^verbatim>\<open>utils/iter-util.hh\<close>. An iterator type is a record of operations
  over a state type; the adaptors take the operations of the iterator they wrap, as the
  templates do. \<open>'w\<close> is the world an increment may change, such as the stream below a
  \<^verbatim>\<open>parse_iterator\<close>. The locale \<open>input_iterator\<close> says what iterating shows, and every adaptor
  is proved to preserve it.
\<close>

section \<open>Iterators\<close>

record ('i, 'v, 'w) iter_ops =
  it_deref :: "'i \<Rightarrow> ('v \<times> 'i) result"
  it_incr :: "'i \<Rightarrow> 'w \<Rightarrow> ('i \<times> 'w) result"
  it_eq :: "'i \<Rightarrow> 'i \<Rightarrow> bool"

record ('o, 'v) out_ops =
  oi_assign :: "'v \<Rightarrow> 'o \<Rightarrow> 'o result"
  oi_incr :: "'o \<Rightarrow> 'o result"

text \<open>The range-based \<^verbatim>\<open>for\<close> loop, collecting what the body sees.\<close>

fun it_collect :: "nat \<Rightarrow> ('i, 'v, 'w) iter_ops \<Rightarrow> 'i \<Rightarrow> 'i \<Rightarrow> 'w \<Rightarrow> ('v list \<times> 'w) result" where
  "it_collect 0 ops i e w = Inl OutOfFuel"
| "it_collect (Suc k) ops i e w =
     (if it_eq ops i e then Inr ([], w)
      else rbind (it_deref ops i) (\<lambda>(v, i1). rbind (it_incr ops i1 w) (\<lambda>(i2, w').
             rbind (it_collect k ops i2 e w') (\<lambda>(vs, w''). Inr (v # vs, w'')))))"

section \<open>Output iterators\<close>

text \<open>\<^verbatim>\<open>output_iterator_mixin\<close>: dereferencing and incrementing give the iterator itself.\<close>

definition mixin_deref :: "'o \<Rightarrow> 'o" where "mixin_deref it = it"
definition mixin_incr :: "'o \<Rightarrow> 'o result" where "mixin_incr it = Inr it"

record ('f, 'o) transforming_output =
  to_fn :: "'f"
  to_iter :: "'o"

definition transforming_ops :: "('o, 'b) out_ops \<Rightarrow> (('a \<Rightarrow> 'b, 'o) transforming_output, 'a) out_ops" where
  "transforming_ops ops =
     \<lparr>oi_assign = (\<lambda>v it. rbind (oi_assign ops (to_fn it v) (mixin_deref (to_iter it))) (\<lambda>o'. Inr (it\<lparr>to_iter := o'\<rparr>))),
      oi_incr = (\<lambda>it. rbind (oi_incr ops (to_iter it)) (\<lambda>o'. Inr (it\<lparr>to_iter := o'\<rparr>)))\<rparr>"

definition transformed_writer :: "('a \<Rightarrow> 'b) \<Rightarrow> 'o \<Rightarrow> ('a \<Rightarrow> 'b, 'o) transforming_output" where
  "transformed_writer f it = \<lparr>to_fn = f, to_iter = it\<rparr>"

text \<open>
  \<^verbatim>\<open>operator=(T&& v)\<close> of an adaptor forwards \<^verbatim>\<open>v\<close> as it came. A destination that is assigned an
  rvalue may move from it, so that assignment also gives what it leaves of \<^verbatim>\<open>v\<close>; an lvalue is left
  alone. What a function called with an rvalue leaves of it is up to its parameter: \<open>leaves\<close>.
\<close>

type_synonym ('o, 'v) assignment = "'v \<Rightarrow> 'o \<Rightarrow> ('o \<times> 'v) result"

definition assign_lvalue :: "('o, 'v) out_ops \<Rightarrow> ('o, 'v) assignment" where
  "assign_lvalue ops v it = rbind (oi_assign ops v it) (\<lambda>it'. Inr (it', v))"

definition transforming_move :: "('a \<Rightarrow> 'a) \<Rightarrow> ('o, 'b) out_ops \<Rightarrow> (('a \<Rightarrow> 'b, 'o) transforming_output, 'a) assignment" where
  "transforming_move leaves ops v it =
     rbind (oi_assign ops (to_fn it v) (mixin_deref (to_iter it))) (\<lambda>o'. Inr (it\<lparr>to_iter := o'\<rparr>, leaves v))"

text \<open>
  \<^verbatim>\<open>multiplex_output_iterator\<close> assigns the same forwarded \<^verbatim>\<open>v\<close> to one destination after the other,
  so each finds in it what the ones before have left.
\<close>

fun write_to_iter_tuple :: "('o, 'v) assignment list \<Rightarrow> ('o list, 'v) assignment" where
  "write_to_iter_tuple (assign # assigns) v (it # iters) =
     rbind (assign v it) (\<lambda>(it', v'). rbind (write_to_iter_tuple assigns v' iters) (\<lambda>(its, v''). Inr (it' # its, v'')))"
| "write_to_iter_tuple _ v _ = Inr ([], v)"

fun increment_iter_tuple :: "('o, 'v) out_ops list \<Rightarrow> 'o list \<Rightarrow> 'o list result" where
  "increment_iter_tuple (ops # opss) (it # iters) =
     rbind (oi_incr ops it) (\<lambda>it'. rbind (increment_iter_tuple opss iters) (\<lambda>its. Inr (it' # its)))"
| "increment_iter_tuple _ _ = Inr []"

definition multiplex_ops :: "('o, 'v) out_ops list \<Rightarrow> ('o list, 'v) out_ops" where
  "multiplex_ops opss =
     \<lparr>oi_assign = (\<lambda>v its. rbind (write_to_iter_tuple (map assign_lvalue opss) v its) (\<lambda>(its', _). Inr its')),
      oi_incr = increment_iter_tuple opss\<rparr>"

definition multiplex_move :: "('o, 'v) assignment list \<Rightarrow> ('o list, 'v) assignment" where
  "multiplex_move moves v its = write_to_iter_tuple moves v its"

text \<open>
  \<^verbatim>\<open>spread_writer\<close> multiplexes writers that pick a component each: the i-th destination gets the
  i-th component, read through a const reference. A tuple shorter than the destinations does not
  compile.
\<close>

definition spread_writer :: "'o list \<Rightarrow> ('v list \<Rightarrow> 'v, 'o) transforming_output list" where
  "spread_writer its =
     map (\<lambda>i. transformed_writer (\<lambda>t. the (pick1 i t)) (its ! i)) (make_index_sequence (length its))"

definition spread_writer_ops ::
  "('o, 'v) out_ops list \<Rightarrow> (('v list \<Rightarrow> 'v, 'o) transforming_output list, 'v list) out_ops" where
  "spread_writer_ops opss = multiplex_ops (map transforming_ops opss)"

record ('p, 'o) filtering_output =
  fo_pred :: "'p"
  fo_iter :: "'o"

definition filtering_output_ops :: "('o, 'v) out_ops \<Rightarrow> (('v \<Rightarrow> bool, 'o) filtering_output, 'v) out_ops" where
  "filtering_output_ops ops =
     \<lparr>oi_assign = (\<lambda>v it.
        if fo_pred it v
        then rbind (oi_assign ops v (fo_iter it)) (\<lambda>o1. rbind (oi_incr ops o1) (\<lambda>o2. Inr (it\<lparr>fo_iter := o2\<rparr>)))
        else Inr it),
      oi_incr = mixin_incr\<rparr>"

text \<open>The predicate is given \<^verbatim>\<open>v\<close> as an lvalue; where it is false nothing is made of \<^verbatim>\<open>v\<close>.\<close>

definition filtering_move ::
  "('o, 'v) assignment \<Rightarrow> ('o \<Rightarrow> 'o result) \<Rightarrow> (('v \<Rightarrow> bool, 'o) filtering_output, 'v) assignment" where
  "filtering_move move incr v it =
     (if fo_pred it v
      then rbind (move v (fo_iter it)) (\<lambda>(o1, v'). rbind (incr o1) (\<lambda>o2. Inr (it\<lparr>fo_iter := o2\<rparr>, v')))
      else Inr (it, v))"

definition filtering_writer :: "('v \<Rightarrow> bool) \<Rightarrow> 'o \<Rightarrow> ('v \<Rightarrow> bool, 'o) filtering_output" where
  "filtering_writer pred out = \<lparr>fo_pred = pred, fo_iter = out\<rparr>"

text \<open>\<^verbatim>\<open>variadic_insert_iterator\<close> calls the container's \<^verbatim>\<open>insert\<close>.\<close>

definition variadic_insert_ops :: "('v \<Rightarrow> 'c \<Rightarrow> 'c result) \<Rightarrow> ('c, 'v) out_ops" where
  "variadic_insert_ops ins = \<lparr>oi_assign = ins, oi_incr = mixin_incr\<rparr>"

text \<open>\<^verbatim>\<open>std::copy\<close> to an output iterator: assign and increment.\<close>

fun out_copy :: "('o, 'v) out_ops \<Rightarrow> 'v list \<Rightarrow> 'o \<Rightarrow> 'o result" where
  "out_copy ops [] it = Inr it"
| "out_copy ops (v # vs) it =
     rbind (oi_assign ops v it) (\<lambda>it1. rbind (oi_incr ops it1) (\<lambda>it2. out_copy ops vs it2))"

text \<open>Postfix \<^verbatim>\<open>++\<close>: a copy of the iterator, and the iterator moved on.\<close>

definition it_post_incr :: "('i, 'v, 'w) iter_ops \<Rightarrow> 'i \<Rightarrow> 'w \<Rightarrow> ('i \<times> 'i \<times> 'w) result" where
  "it_post_incr ops i w = rbind (it_incr ops i w) (\<lambda>(i', w'). Inr (i, i', w'))"

section \<open>mapping_iterator\<close>

record ('i, 'b) mapping_iterator =
  mi_it :: 'i
  mi_value :: "'b optional"

definition make_mapping_iterator :: "'i \<Rightarrow> ('i, 'b) mapping_iterator" where
  "make_mapping_iterator i = \<lparr>mi_it = i, mi_value = opt_empty\<rparr>"

definition mapping_deref ::
  "('i, 'a, 'w) iter_ops \<Rightarrow> ('a \<Rightarrow> 'b result) \<Rightarrow> ('i, 'b) mapping_iterator \<Rightarrow>
   ('b \<times> ('i, 'b) mapping_iterator) result" where
  "mapping_deref ops f m =
     (if \<not> has_value (mi_value m)
      then rbind (it_deref ops (mi_it m)) (\<lambda>(x, i').
           rbind (f x) (\<lambda>y.
           rbind (opt_emplace y (mi_value m)) (\<lambda>val.
           rbind (opt_value val) (\<lambda>z. Inr (z, m\<lparr>mi_it := i', mi_value := val\<rparr>)))))
      else rbind (opt_value (mi_value m)) (\<lambda>z. Inr (z, m)))"

definition mapping_incr ::
  "bool \<Rightarrow> ('i, 'a, 'w) iter_ops \<Rightarrow> ('a \<Rightarrow> 'b result) \<Rightarrow> ('i, 'b) mapping_iterator \<Rightarrow> 'w \<Rightarrow>
   (('i, 'b) mapping_iterator \<times> 'w) result" where
  "mapping_incr skipUnused ops f m w =
     rbind (if skipUnused then Inr m else rbind (mapping_deref ops f m) (\<lambda>(_, m'). Inr m')) (\<lambda>m1.
     rbind (opt_assign_null (mi_value m1)) (\<lambda>none.
     rbind (it_incr ops (mi_it m1) w) (\<lambda>(i', w'). Inr (m1\<lparr>mi_it := i', mi_value := none\<rparr>, w'))))"

definition mapping_ops ::
  "bool \<Rightarrow> ('i, 'a, 'w) iter_ops \<Rightarrow> ('a \<Rightarrow> 'b result) \<Rightarrow> (('i, 'b) mapping_iterator, 'b, 'w) iter_ops" where
  "mapping_ops skipUnused ops f =
     \<lparr>it_deref = mapping_deref ops f, it_incr = mapping_incr skipUnused ops f,
      it_eq = (\<lambda>a b. it_eq ops (mi_it a) (mi_it b))\<rparr>"

section \<open>ephemeral_mapping_iterator\<close>

text \<open>It stores nothing and hands the random-access operations through.\<close>

record 'i random_access =
  ra_decr :: "'i \<Rightarrow> 'i"
  ra_plus :: "'i \<Rightarrow> int \<Rightarrow> 'i"
  ra_minus :: "'i \<Rightarrow> int \<Rightarrow> 'i"
  ra_diff :: "'i \<Rightarrow> 'i \<Rightarrow> int"
  ra_less :: "'i \<Rightarrow> 'i \<Rightarrow> bool"

definition ephemeral_ops :: "('i, 'a, 'w) iter_ops \<Rightarrow> ('a \<Rightarrow> 'b result) \<Rightarrow> ('i, 'b, 'w) iter_ops" where
  "ephemeral_ops ops f =
     \<lparr>it_deref = (\<lambda>i. rbind (it_deref ops i) (\<lambda>(x, i'). rbind (f x) (\<lambda>y. Inr (y, i')))),
      it_incr = it_incr ops, it_eq = it_eq ops\<rparr>"

definition ephemeral_random_access :: "'i random_access \<Rightarrow> 'i random_access" where
  "ephemeral_random_access ra =
     \<lparr>ra_decr = (\<lambda>i. ra_decr ra i), ra_plus = (\<lambda>i n. ra_plus ra i n), ra_minus = (\<lambda>i n. ra_minus ra i n),
      ra_diff = (\<lambda>a b. ra_diff ra a b), ra_less = (\<lambda>a b. ra_less ra a b)\<rparr>"

definition ephemeral_at :: "('i, 'a, 'w) iter_ops \<Rightarrow> 'i random_access \<Rightarrow> ('a \<Rightarrow> 'b result) \<Rightarrow> 'i \<Rightarrow> int \<Rightarrow> 'b result" where
  "ephemeral_at ops ra f i n =
     rbind (it_deref (ephemeral_ops ops f) (ra_plus (ephemeral_random_access ra) i n)) (\<lambda>(y, i'). Inr y)"

section \<open>filtering_iterator\<close>

record 'i filtering_iterator =
  fi_it :: 'i
  fi_end :: 'i

fun forward_skip ::
  "nat \<Rightarrow> ('i, 'a, 'w) iter_ops \<Rightarrow> ('a \<Rightarrow> bool) \<Rightarrow> 'i filtering_iterator \<Rightarrow> 'w \<Rightarrow>
   ('i filtering_iterator \<times> 'w) result" where
  "forward_skip 0 ops pred m w = Inl OutOfFuel"
| "forward_skip (Suc k) ops pred m w =
     (if it_eq ops (fi_it m) (fi_end m) then Inr (m, w)
      else rbind (it_deref ops (fi_it m)) (\<lambda>(x, i1).
             if pred x then Inr (m\<lparr>fi_it := i1\<rparr>, w)
             else rbind (it_incr ops i1 w) (\<lambda>(i2, w'). forward_skip k ops pred (m\<lparr>fi_it := i2\<rparr>) w')))"

definition make_filtering_iterator ::
  "nat \<Rightarrow> ('i, 'a, 'w) iter_ops \<Rightarrow> ('a \<Rightarrow> bool) \<Rightarrow> 'i \<Rightarrow> 'i \<Rightarrow> 'w \<Rightarrow> ('i filtering_iterator \<times> 'w) result" where
  "make_filtering_iterator k ops pred it e w = forward_skip k ops pred \<lparr>fi_it = it, fi_end = e\<rparr> w"

definition filtering_ops ::
  "nat \<Rightarrow> ('i, 'a, 'w) iter_ops \<Rightarrow> ('a \<Rightarrow> bool) \<Rightarrow> ('i filtering_iterator, 'a, 'w) iter_ops" where
  "filtering_ops k ops pred =
     \<lparr>it_deref = (\<lambda>m. rbind (it_deref ops (fi_it m)) (\<lambda>(x, i'). Inr (x, m\<lparr>fi_it := i'\<rparr>))),
      it_incr = (\<lambda>m w. rbind (it_incr ops (fi_it m) w) (\<lambda>(i', w'). forward_skip k ops pred (m\<lparr>fi_it := i'\<rparr>) w')),
      it_eq = (\<lambda>a b. it_eq ops (fi_it a) (fi_it b))\<rparr>"

section \<open>integral_iterator\<close>

text \<open>Over an unsigned type; differences are of the signed type of the same width.\<close>

definition integral_ops :: "('a::len word, 'a word, 'w) iter_ops" where
  "integral_ops = \<lparr>it_deref = (\<lambda>v. Inr (v, v)), it_incr = (\<lambda>v w. Inr (v + 1, w)), it_eq = (=)\<rparr>"

definition integral_random_access :: "'a::len word random_access" where
  "integral_random_access =
     \<lparr>ra_decr = (\<lambda>v. v - 1), ra_plus = (\<lambda>v n. v + word_of_int n), ra_minus = (\<lambda>v n. v - word_of_int n),
      ra_diff = (\<lambda>a b. sint (a - b)), ra_less = (<)\<rparr>"

definition integral_index :: "'a::len word \<Rightarrow> int \<Rightarrow> 'a word" where
  "integral_index v n = v + word_of_int n"

section \<open>What iterating shows\<close>

text \<open>
  \<open>seq i w e vs\<close>: from iterator \<open>i\<close> in world \<open>w\<close> the elements \<open>vs\<close> are seen before \<open>e\<close>.
\<close>

locale input_iterator =
  fixes ops :: "('i, 'v, 'w) iter_ops" and seq :: "'i \<Rightarrow> 'w \<Rightarrow> 'i \<Rightarrow> 'v list \<Rightarrow> bool"
  assumes at_end: "seq i w e [] \<Longrightarrow> it_eq ops i e"
    and at_more: "seq i w e (v # vs) \<Longrightarrow> \<not> it_eq ops i e"
    and deref: "seq i w e (v # vs) \<Longrightarrow> \<exists>i'. it_deref ops i = Inr (v, i') \<and> seq i' w e (v # vs)"
    and incr: "seq i w e (v # vs) \<Longrightarrow> \<exists>i' w'. it_incr ops i w = Inr (i', w') \<and> seq i' w' e vs"

definition mapping_seq ::
  "('i \<Rightarrow> 'w \<Rightarrow> 'i \<Rightarrow> 'a list \<Rightarrow> bool) \<Rightarrow> ('a \<Rightarrow> 'b result) \<Rightarrow>
   ('i, 'b) mapping_iterator \<Rightarrow> 'w \<Rightarrow> ('i, 'b) mapping_iterator \<Rightarrow> 'b list \<Rightarrow> bool" where
  "mapping_seq seq f m w e vs \<longleftrightarrow>
     (\<exists>us. seq (mi_it m) w (mi_it e) us \<and> map f us = map Inr vs \<and>
        (mi_value m = opt_empty \<or> (\<exists>v vs'. vs = v # vs' \<and> mi_value m = opt_in_place v)))"

definition ephemeral_seq ::
  "('i \<Rightarrow> 'w \<Rightarrow> 'i \<Rightarrow> 'a list \<Rightarrow> bool) \<Rightarrow> ('a \<Rightarrow> 'b result) \<Rightarrow> 'i \<Rightarrow> 'w \<Rightarrow> 'i \<Rightarrow> 'b list \<Rightarrow> bool" where
  "ephemeral_seq seq f i w e vs \<longleftrightarrow> (\<exists>us. seq i w e us \<and> map f us = map Inr vs)"

definition filtering_seq ::
  "nat \<Rightarrow> ('i \<Rightarrow> 'w \<Rightarrow> 'i \<Rightarrow> 'a list \<Rightarrow> bool) \<Rightarrow> ('a \<Rightarrow> bool) \<Rightarrow>
   'i filtering_iterator \<Rightarrow> 'w \<Rightarrow> 'i filtering_iterator \<Rightarrow> 'a list \<Rightarrow> bool" where
  "filtering_seq k seq pred m w e vs \<longleftrightarrow>
     (\<exists>us. seq (fi_it m) w (fi_it e) us \<and> vs = filter pred us \<and> length us < k \<and>
        fi_end m = fi_it e \<and> (us = [] \<or> pred (hd us)))"

context input_iterator begin

lemma collect_all:
  "seq i w e vs \<Longrightarrow> length vs < k \<Longrightarrow> \<exists>w'. it_collect k ops i e w = Inr (vs, w')"
proof (induction vs arbitrary: i w k)
  case Nil
  then show ?case using at_end [OF Nil(1)] by (cases k) auto
next
  case (Cons v vs)
  then obtain k' where k: "k = Suc k'" by (cases k) auto
  obtain i1 where i1: "it_deref ops i = Inr (v, i1)" "seq i1 w e (v # vs)" using deref [OF Cons.prems(1)] by blast
  obtain i2 w2 where i2: "it_incr ops i1 w = Inr (i2, w2)" "seq i2 w2 e vs" using incr [OF i1(2)] by blast
  then show ?case using Cons.IH [OF i2(2), of k'] Cons.prems(2) i1 at_more [OF Cons.prems(1)] k by auto
qed

lemma mapping_deref_seq:
  assumes "mapping_seq seq f m w e (v # vs)"
  shows "\<exists>m'. mapping_deref ops f m = Inr (v, m') \<and> mapping_seq seq f m' w e (v # vs) \<and> mi_value m' = opt_in_place v"
proof -
  obtain u us where u: "seq (mi_it m) w (mi_it e) (u # us)" "f u = Inr v" "map f us = map Inr vs"
      "mi_value m = opt_empty \<or> mi_value m = opt_in_place v"
    using assms by (auto simp: mapping_seq_def map_eq_Cons_conv)
  obtain i' where i': "it_deref ops (mi_it m) = Inr (u, i')" "seq i' w (mi_it e) (u # us)"
    using deref [OF u(1)] by blast
  show ?thesis
  proof (cases "mi_value m = opt_empty")
    case True
    then have "mapping_deref ops f m = Inr (v, m\<lparr>mi_it := i', mi_value := opt_in_place v\<rparr>)"
      using i' u(2) by (simp add: mapping_deref_def opt_emplace_abs opt_value_abs) (simp add: opt_empty_def)
    then show ?thesis using i'(2) u(2,3) by (auto simp: mapping_seq_def intro!: exI [of _ "u # us"])
  next
    case False
    then have "mi_value m = opt_in_place v" using u(4) by simp
    then have "mapping_deref ops f m = Inr (v, m)"
      by (simp add: mapping_deref_def opt_value_abs) (simp add: opt_in_place_def)
    then show ?thesis using assms u(4) False by auto
  qed
qed

lemma mapping_incr_seq:
  assumes "mapping_seq seq f m w e (v # vs)"
  shows "\<exists>m' w'. mapping_incr skipUnused ops f m w = Inr (m', w') \<and> mapping_seq seq f m' w' e vs"
proof -
  have step: "\<exists>m' w'. rbind (opt_assign_null (mi_value m1)) (\<lambda>none.
      rbind (it_incr ops (mi_it m1) w) (\<lambda>(i', w'). Inr (m1\<lparr>mi_it := i', mi_value := none\<rparr>, w'))) = Inr (m', w') \<and>
      mapping_seq seq f m' w' e vs"
    if m1: "mapping_seq seq f m1 w e (v # vs)" for m1
  proof -
    obtain u us where u: "seq (mi_it m1) w (mi_it e) (u # us)" "map f us = map Inr vs" "opt_inv (mi_value m1)"
      using m1 by (auto simp: mapping_seq_def map_eq_Cons_conv)
    obtain i' w' where "it_incr ops (mi_it m1) w = Inr (i', w')" "seq i' w' (mi_it e) us"
      using incr [OF u(1)] by blast
    then show ?thesis using u by (auto simp: opt_assign_null_abs mapping_seq_def)
  qed
  obtain m' where "mapping_deref ops f m = Inr (v, m')" "mapping_seq seq f m' w e (v # vs)"
    using mapping_deref_seq [OF assms] by blast
  then show ?thesis using step [of m'] step [OF assms]
    by (cases skipUnused) (simp_all add: mapping_incr_def)
qed

lemma mapping_iterator_seq: "input_iterator (mapping_ops skipUnused ops f) (mapping_seq seq f)"
proof unfold_locales
  fix m w e v vs
  show "mapping_seq seq f m w e [] \<Longrightarrow> it_eq (mapping_ops skipUnused ops f) m e"
    by (auto simp: mapping_seq_def mapping_ops_def dest: at_end)
  show "mapping_seq seq f m w e (v # vs) \<Longrightarrow> \<not> it_eq (mapping_ops skipUnused ops f) m e"
    by (auto simp: mapping_seq_def mapping_ops_def map_eq_Cons_conv dest: at_more)
  show "mapping_seq seq f m w e (v # vs) \<Longrightarrow>
      \<exists>m'. it_deref (mapping_ops skipUnused ops f) m = Inr (v, m') \<and> mapping_seq seq f m' w e (v # vs)"
    using mapping_deref_seq by (force simp: mapping_ops_def)
  show "mapping_seq seq f m w e (v # vs) \<Longrightarrow>
      \<exists>m' w'. it_incr (mapping_ops skipUnused ops f) m w = Inr (m', w') \<and> mapping_seq seq f m' w' e vs"
    using mapping_incr_seq by (force simp: mapping_ops_def)
qed

lemma ephemeral_iterator_seq: "input_iterator (ephemeral_ops ops f) (ephemeral_seq seq f)"
proof unfold_locales
  fix i w e v vs
  show "ephemeral_seq seq f i w e [] \<Longrightarrow> it_eq (ephemeral_ops ops f) i e"
    by (auto simp: ephemeral_seq_def ephemeral_ops_def dest: at_end)
  show "ephemeral_seq seq f i w e (v # vs) \<Longrightarrow> \<not> it_eq (ephemeral_ops ops f) i e"
    by (auto simp: ephemeral_seq_def ephemeral_ops_def map_eq_Cons_conv dest: at_more)
  assume "ephemeral_seq seq f i w e (v # vs)"
  then obtain u us where u: "seq i w e (u # us)" "f u = Inr v" "map f us = map Inr vs"
    by (auto simp: ephemeral_seq_def map_eq_Cons_conv)
  obtain i' where i': "it_deref ops i = Inr (u, i')" "seq i' w e (u # us)" using deref [OF u(1)] by blast
  show "\<exists>i'. it_deref (ephemeral_ops ops f) i = Inr (v, i') \<and> ephemeral_seq seq f i' w e (v # vs)"
    using i' u by (auto simp: ephemeral_ops_def ephemeral_seq_def intro!: exI [of _ "u # us"])
  obtain i'' w'' where "it_incr ops i w = Inr (i'', w'')" "seq i'' w'' e us" using incr [OF u(1)] by blast
  then show "\<exists>i' w'. it_incr (ephemeral_ops ops f) i w = Inr (i', w') \<and> ephemeral_seq seq f i' w' e vs"
    using u by (auto simp: ephemeral_ops_def ephemeral_seq_def)
qed

lemma forward_skip_seq:
  assumes "seq (fi_it m) w e us" and "fi_end m = e" and "length us < k"
  shows "\<exists>m' w' us'. forward_skip k ops pred m w = Inr (m', w') \<and> seq (fi_it m') w' e us' \<and>
    fi_end m' = e \<and> filter pred us' = filter pred us \<and> length us' \<le> length us \<and> (us' = [] \<or> pred (hd us'))"
  using assms
proof (induction us arbitrary: m w k)
  case Nil
  then show ?case using at_end [OF Nil(1)] by (cases k) auto
next
  case (Cons u us)
  then obtain k' where k: "k = Suc k'" by (cases k) auto
  have ne: "\<not> it_eq ops (fi_it m) (fi_end m)" using at_more [OF Cons.prems(1)] Cons.prems(2) by simp
  obtain i1 where i1: "it_deref ops (fi_it m) = Inr (u, i1)" "seq i1 w e (u # us)" using deref [OF Cons.prems(1)] by blast
  show ?case
  proof (cases "pred u")
    case True
    then show ?thesis using ne i1 k Cons.prems(2) by (auto intro!: exI [of _ "u # us"])
  next
    case False
    obtain i2 w2 where i2: "it_incr ops i1 w = Inr (i2, w2)" "seq i2 w2 e us" using incr [OF i1(2)] by blast
    from Cons.IH [of "m\<lparr>fi_it := i2\<rparr>" w2 k'] i2 Cons.prems(2,3) k
    obtain m' w' us' where "forward_skip k' ops pred (m\<lparr>fi_it := i2\<rparr>) w2 = Inr (m', w')" "seq (fi_it m') w' e us'"
      "fi_end m' = e" "filter pred us' = filter pred us" "length us' \<le> length us" "us' = [] \<or> pred (hd us')" by auto
    then show ?thesis using False ne i1 i2 k by (auto intro!: exI [of _ us'])
  qed
qed

lemma skip_filtering:
  assumes "seq (fi_it m) w e us" and "fi_end m = e" and "length us < k" and "fi_it fe = e"
  shows "\<exists>m' w'. forward_skip k ops pred m w = Inr (m', w') \<and> filtering_seq k seq pred m' w' fe (filter pred us)"
proof -
  obtain m' w' us' where s: "forward_skip k ops pred m w = Inr (m', w')"
    "seq (fi_it m') w' e us'" "fi_end m' = e" "filter pred us' = filter pred us" "length us' \<le> length us"
    "us' = [] \<or> pred (hd us')"
    using forward_skip_seq [OF assms(1-3)] by blast
  then have "filtering_seq k seq pred m' w' fe (filter pred us)"
    using assms unfolding filtering_seq_def by (intro exI [of _ us']) simp
  with s(1) show ?thesis by blast
qed

lemma filtering_iterator_seq: "input_iterator (filtering_ops k ops pred) (filtering_seq k seq pred)"
proof unfold_locales
  fix m w e v vs
  show "filtering_seq k seq pred m w e [] \<Longrightarrow> it_eq (filtering_ops k ops pred) m e"
  proof -
    assume "filtering_seq k seq pred m w e []"
    then obtain us where us: "seq (fi_it m) w (fi_it e) us" "filter pred us = []" "us = [] \<or> pred (hd us)"
      by (auto simp: filtering_seq_def)
    then have "us = []" by (cases us) auto
    then show ?thesis using at_end us(1) by (simp add: filtering_ops_def)
  qed
  assume h: "filtering_seq k seq pred m w e (v # vs)"
  then obtain us0 where us0: "seq (fi_it m) w (fi_it e) us0" "v # vs = filter pred us0" "length us0 < k"
      "fi_end m = fi_it e" "us0 = [] \<or> pred (hd us0)"
    by (auto simp: filtering_seq_def)
  then obtain us where "us0 = v # us" by (cases us0) auto
  then have u: "seq (fi_it m) w (fi_it e) (v # us)" "vs = filter pred us" "pred v"
      "Suc (length us) < k" "fi_end m = fi_it e"
    using us0 by auto
  show "\<not> it_eq (filtering_ops k ops pred) m e"
    using at_more [OF u(1)] by (simp add: filtering_ops_def)
  obtain i' where "it_deref ops (fi_it m) = Inr (v, i')" "seq i' w (fi_it e) (v # us)" using deref [OF u(1)] by blast
  then show "\<exists>m'. it_deref (filtering_ops k ops pred) m = Inr (v, m') \<and> filtering_seq k seq pred m' w e (v # vs)"
    using u by (auto simp: filtering_ops_def filtering_seq_def intro!: exI [of _ "v # us"])
  obtain i2 w2 where i2: "it_incr ops (fi_it m) w = Inr (i2, w2)" "seq i2 w2 (fi_it e) us" using incr [OF u(1)] by blast
  from skip_filtering [of "m\<lparr>fi_it := i2\<rparr>" w2 "fi_it e" us k e pred] i2 u
  show "\<exists>m' w'. it_incr (filtering_ops k ops pred) m w = Inr (m', w') \<and> filtering_seq k seq pred m' w' e vs"
    by (simp add: filtering_ops_def)
qed

lemma make_filtering_seq:
  assumes "seq i w e us" and "length us < k" and "fi_it fe = e"
  shows "\<exists>m w'. make_filtering_iterator k ops pred i e w = Inr (m, w') \<and> filtering_seq k seq pred m w' fe (filter pred us)"
  using skip_filtering [of "\<lparr>fi_it = i, fi_end = e\<rparr>" w e us k fe pred] assms
  by (simp add: make_filtering_iterator_def)

end

section \<open>integral_iterator meets the contract\<close>

definition integral_seq :: "'a::len word \<Rightarrow> 'w \<Rightarrow> 'a word \<Rightarrow> 'a word list \<Rightarrow> bool" where
  "integral_seq i w e vs \<longleftrightarrow> i \<le> e \<and> vs = map word_of_nat [unat i..<unat e]"

lemma integral_seq_Cons:
  assumes "integral_seq i w e (v # vs)"
  shows "v = i" and "i < e" and "integral_seq (i + 1) w' e vs"
proof -
  have lt: "unat i < unat e"
    using assms by (cases "unat i < unat e") (auto simp: integral_seq_def)
  then show l: "i < e" by (simp add: word_less_nat_alt)
  have "[unat i..<unat e] = unat i # [Suc (unat i)..<unat e]" using lt by (rule upt_conv_Cons)
  then show "v = i" using assms by (simp add: integral_seq_def)
  have "unat e < 2 ^ LENGTH('a)" by (rule unsigned_less)
  then have "Suc (unat i) < 2 ^ LENGTH('a)" using lt by linarith
  then have u: "unat (i + 1) = Suc (unat i)"
    by (subst unat_word_ariths) (simp add: unat_1 mod_less)
  then show "integral_seq (i + 1) w' e vs"
    using assms lt \<open>[unat i..<unat e] = unat i # [Suc (unat i)..<unat e]\<close>
    by (simp add: integral_seq_def word_le_nat_alt)
qed

interpretation integral: input_iterator "integral_ops :: ('a::len word, 'a word, 'w) iter_ops" integral_seq
proof unfold_locales
  fix i e v :: "'a word" and w :: 'w and vs
  show "integral_seq i w e [] \<Longrightarrow> it_eq integral_ops i e"
    by (auto simp: integral_seq_def integral_ops_def word_le_nat_alt word_unat_eq_iff)
  assume h: "integral_seq i w e (v # vs)"
  note c = integral_seq_Cons [OF h]
  show "\<not> it_eq integral_ops i e" using c(2) by (auto simp: integral_ops_def)
  show "\<exists>i'. it_deref integral_ops i = Inr (v, i') \<and> integral_seq i' w e (v # vs)"
    using c(1) h by (simp add: integral_ops_def)
  show "\<exists>i' w'. it_incr integral_ops i w = Inr (i', w') \<and> integral_seq i' w' e vs"
    using c(3) by (simp add: integral_ops_def)
qed

end
