(* ===== verification/Ranges.thy ===== *)
theory Ranges
  imports Iterators
begin

text \<open>
  Ranges (\<^verbatim>\<open>utils/range.hh\<close>) and the range utilities (\<^verbatim>\<open>utils/range-util.hh\<close>): zip, map,
  filter, reduce and copy, over the iterators of theory Iterators. A container's own
  iterator is a position in a list.
\<close>

section \<open>Containers\<close>

definition vec_ops :: "'v list \<Rightarrow> (nat, 'v, 'w) iter_ops" where
  "vec_ops xs =
     \<lparr>it_deref = (\<lambda>i. if i < length xs then Inr (xs ! i, i) else Inl (Undefined OutOfBounds)),
      it_incr = (\<lambda>i w. Inr (Suc i, w)), it_eq = (=)\<rparr>"

definition vec_random_access :: "nat random_access" where
  "vec_random_access =
     \<lparr>ra_decr = (\<lambda>i. i - 1), ra_plus = (\<lambda>i n. nat (int i + n)), ra_minus = (\<lambda>i n. nat (int i - n)),
      ra_diff = (\<lambda>i j. int i - int j), ra_less = (<)\<rparr>"

definition vec_seq :: "'v list \<Rightarrow> nat \<Rightarrow> 'w \<Rightarrow> nat \<Rightarrow> 'v list \<Rightarrow> bool" where
  "vec_seq xs i w e vs \<longleftrightarrow> i \<le> e \<and> e \<le> length xs \<and> vs = map (\<lambda>j. xs ! j) [i..<e]"

section \<open>range\<close>

record 'i range =
  rg_begin :: 'i
  rg_end :: 'i

definition make_range :: "'i \<Rightarrow> 'i \<Rightarrow> 'i range" where
  "make_range b e = \<lparr>rg_begin = b, rg_end = e\<rparr>"

definition range_bool :: "('i, 'v, 'w) iter_ops \<Rightarrow> 'i range \<Rightarrow> bool" where
  "range_bool ops r \<longleftrightarrow> \<not> it_eq ops (rg_begin r) (rg_end r)"

definition range_empty :: "('i, 'v, 'w) iter_ops \<Rightarrow> 'i range \<Rightarrow> bool" where
  "range_empty ops r \<longleftrightarrow> \<not> range_bool ops r"

definition range_size :: "config \<Rightarrow> 'i random_access \<Rightarrow> 'i range \<Rightarrow> 64 word result" where
  "range_size cfg ra r = to_unsigned cfg (word_of_int (ra_diff ra (rg_end r) (rg_begin r)))"

definition range_index ::
  "config \<Rightarrow> ('i, 'v, 'w) iter_ops \<Rightarrow> 'i random_access \<Rightarrow> 'i range \<Rightarrow> 64 word \<Rightarrow> 'v result" where
  "range_index cfg ops ra r i =
     rbind (to_signed cfg i) (\<lambda>n. rbind (it_deref ops (ra_plus ra (rg_begin r) (sint n))) (\<lambda>(v, i'). Inr v))"

definition range_elems :: "nat \<Rightarrow> ('i, 'v, 'w) iter_ops \<Rightarrow> 'i range \<Rightarrow> 'w \<Rightarrow> ('v list \<times> 'w) result" where
  "range_elems k ops r w = it_collect k ops (rg_begin r) (rg_end r) w"

text \<open>\<^verbatim>\<open>std::copy\<close> reads an element and writes it before it moves on.\<close>

fun copy_loop ::
  "nat \<Rightarrow> ('i, 'v, 'w) iter_ops \<Rightarrow> ('o, 'v) out_ops \<Rightarrow> 'i \<Rightarrow> 'i \<Rightarrow> 'w \<Rightarrow> 'o \<Rightarrow> ('o \<times> 'w) result" where
  "copy_loop 0 ops oops i e w out = Inl OutOfFuel"
| "copy_loop (Suc k) ops oops i e w out =
     (if it_eq ops i e then Inr (out, w)
      else rbind (it_deref ops i) (\<lambda>(v, i1).
           rbind (oi_assign oops v out) (\<lambda>out1.
           rbind (oi_incr oops out1) (\<lambda>out2.
           rbind (it_incr ops i1 w) (\<lambda>(i2, w'). copy_loop k ops oops i2 e w' out2)))))"

definition range_copy ::
  "nat \<Rightarrow> ('i, 'v, 'w) iter_ops \<Rightarrow> ('o, 'v) out_ops \<Rightarrow> 'i range \<Rightarrow> 'w \<Rightarrow> 'o \<Rightarrow> ('o \<times> 'w) result" where
  "range_copy k ops oops r w out = copy_loop k ops oops (rg_begin r) (rg_end r) w out"

section \<open>zip\<close>

record 'i zip_iterator =
  z_begins :: "'i list"
  z_ends :: "'i list"

fun tuple_any_equal :: "('i \<Rightarrow> 'i \<Rightarrow> bool) \<Rightarrow> 'i list \<Rightarrow> 'i list \<Rightarrow> bool" where
  "tuple_any_equal eq (a # as) (b # bs) = (eq a b \<or> tuple_any_equal eq as bs)"
| "tuple_any_equal eq _ _ = False"

definition check_end :: "('i \<Rightarrow> 'i \<Rightarrow> bool) \<Rightarrow> 'i zip_iterator \<Rightarrow> 'i zip_iterator" where
  "check_end eq z = (if tuple_any_equal eq (z_begins z) (z_ends z) then z\<lparr>z_begins := z_ends z\<rparr> else z)"

definition make_zip_iterator :: "('i \<Rightarrow> 'i \<Rightarrow> bool) \<Rightarrow> 'i list \<Rightarrow> 'i list \<Rightarrow> 'i zip_iterator" where
  "make_zip_iterator eq b e = check_end eq \<lparr>z_begins = b, z_ends = e\<rparr>"

fun deref_all :: "('i, 'v, 'w) iter_ops \<Rightarrow> 'i list \<Rightarrow> ('v list \<times> 'i list) result" where
  "deref_all ops [] = Inr ([], [])"
| "deref_all ops (i # is) =
     rbind (it_deref ops i) (\<lambda>(v, i'). rbind (deref_all ops is) (\<lambda>(vs, is'). Inr (v # vs, i' # is')))"

fun incr_all :: "('i, 'v, 'w) iter_ops \<Rightarrow> 'i list \<Rightarrow> 'w \<Rightarrow> ('i list \<times> 'w) result" where
  "incr_all ops [] w = Inr ([], w)"
| "incr_all ops (i # is) w =
     rbind (it_incr ops i w) (\<lambda>(i', w'). rbind (incr_all ops is w') (\<lambda>(is', w''). Inr (i' # is', w'')))"

definition zip_eq :: "('i, 'v, 'w) iter_ops \<Rightarrow> 'i zip_iterator \<Rightarrow> 'i zip_iterator \<Rightarrow> bool" where
  "zip_eq ops a b = list_all2 (it_eq ops) (z_begins a) (z_begins b)"

definition zip_ops :: "('i, 'v, 'w) iter_ops \<Rightarrow> ('i zip_iterator, 'v list, 'w) iter_ops" where
  "zip_ops ops =
     \<lparr>it_deref = (\<lambda>z. rbind (deref_all ops (z_begins z)) (\<lambda>(vs, is). Inr (vs, z\<lparr>z_begins := is\<rparr>))),
      it_incr = (\<lambda>z w. rbind (incr_all ops (z_begins z) w) (\<lambda>(is, w'). Inr (check_end (it_eq ops) (z\<lparr>z_begins := is\<rparr>), w'))),
      it_eq = zip_eq ops\<rparr>"

text \<open>The random-access operations; only \<^verbatim>\<open>+=\<close> looks for an end. Tuples compare lexicographically.\<close>

fun tuple_less :: "('i \<Rightarrow> 'i \<Rightarrow> bool) \<Rightarrow> 'i list \<Rightarrow> 'i list \<Rightarrow> bool" where
  "tuple_less lt (a # as) (b # bs) = (lt a b \<or> (\<not> lt b a \<and> tuple_less lt as bs))"
| "tuple_less lt _ _ = False"

definition zip_random_access :: "('i \<Rightarrow> 'i \<Rightarrow> bool) \<Rightarrow> 'i random_access \<Rightarrow> 'i zip_iterator random_access" where
  "zip_random_access eq ra =
     \<lparr>ra_decr = (\<lambda>z. z\<lparr>z_begins := map (ra_decr ra) (z_begins z)\<rparr>),
      ra_plus = (\<lambda>z n. check_end eq (z\<lparr>z_begins := map (\<lambda>i. ra_plus ra i n) (z_begins z)\<rparr>)),
      ra_minus = (\<lambda>z n. z\<lparr>z_begins := map (\<lambda>i. ra_minus ra i n) (z_begins z)\<rparr>),
      ra_diff = (\<lambda>b a. ra_diff ra (hd (z_begins b)) (hd (z_begins a))),
      ra_less = (\<lambda>a b. tuple_less (ra_less ra) (z_begins a) (z_begins b))\<rparr>"

definition zip_at ::
  "('i, 'v, 'w) iter_ops \<Rightarrow> 'i random_access \<Rightarrow> 'i zip_iterator \<Rightarrow> int \<Rightarrow> 'v list result" where
  "zip_at ops ra z n =
     rbind (it_deref (zip_ops ops) (ra_plus (zip_random_access (it_eq ops) ra) z n)) (\<lambda>(vs, z'). Inr vs)"

definition zip_range :: "('i \<Rightarrow> 'i \<Rightarrow> bool) \<Rightarrow> 'i range list \<Rightarrow> 'i zip_iterator range" where
  "zip_range eq ranges =
     make_range (make_zip_iterator eq (map rg_begin ranges) (map rg_end ranges))
                (make_zip_iterator eq (map rg_end ranges) (map rg_end ranges))"

section \<open>map, filter, reduce\<close>

definition map_range :: "'i range \<Rightarrow> ('i, 'b) mapping_iterator range" where
  "map_range r = make_range (make_mapping_iterator (rg_begin r)) (make_mapping_iterator (rg_end r))"

text \<open>\<^verbatim>\<open>map_skipping\<close> differs in the \<^verbatim>\<open>skipUnused\<close> of its iterators' operations, \<^verbatim>\<open>map_ephemeral\<close> stores nothing.\<close>

definition make_skipping_mapping_iterator :: "'i \<Rightarrow> ('i, 'b) mapping_iterator" where
  "make_skipping_mapping_iterator i = \<lparr>mi_it = i, mi_value = opt_empty\<rparr>"

definition map_skipping_range :: "'i range \<Rightarrow> ('i, 'b) mapping_iterator range" where
  "map_skipping_range r =
     make_range (make_skipping_mapping_iterator (rg_begin r)) (make_skipping_mapping_iterator (rg_end r))"

definition map_ephemeral_range :: "'i range \<Rightarrow> 'i range" where
  "map_ephemeral_range r = make_range (rg_begin r) (rg_end r)"

text \<open>A tuple of iterators of two types is a list over their sum.\<close>

definition either_ops ::
  "('i, 'v, 'w) iter_ops \<Rightarrow> ('j, 'u, 'w) iter_ops \<Rightarrow> ('i + 'j, 'v + 'u, 'w) iter_ops" where
  "either_ops ops1 ops2 =
     \<lparr>it_deref = (\<lambda>s. case s of
        Inl i \<Rightarrow> rbind (it_deref ops1 i) (\<lambda>(v, i'). Inr (Inl v, Inl i'))
      | Inr j \<Rightarrow> rbind (it_deref ops2 j) (\<lambda>(u, j'). Inr (Inr u, Inr j'))),
      it_incr = (\<lambda>s w. case s of
        Inl i \<Rightarrow> rbind (it_incr ops1 i w) (\<lambda>(i', w'). Inr (Inl i', w'))
      | Inr j \<Rightarrow> rbind (it_incr ops2 j w) (\<lambda>(j', w'). Inr (Inr j', w'))),
      it_eq = (\<lambda>s t. case (s, t) of
        (Inl i, Inl i') \<Rightarrow> it_eq ops1 i i'
      | (Inr j, Inr j') \<Rightarrow> it_eq ops2 j j'
      | _ \<Rightarrow> False)\<rparr>"

fun apply_indexed :: "('v \<Rightarrow> 64 word \<Rightarrow> 'b result) \<Rightarrow> ('v + 64 word) list \<Rightarrow> 'b result" where
  "apply_indexed f [Inl v, Inr n] = f v n"
| "apply_indexed f _ = Inl (Undefined OutOfBounds)"

definition map_indexed_ops ::
  "('i, 'v, 'w) iter_ops \<Rightarrow> ('v \<Rightarrow> 64 word \<Rightarrow> 'b result) \<Rightarrow>
   ((('i + 64 word) zip_iterator, 'b) mapping_iterator, 'b, 'w) iter_ops" where
  "map_indexed_ops ops f = mapping_ops False (zip_ops (either_ops ops integral_ops)) (spread (apply_indexed f))"

definition map_indexed ::
  "('i, 'v, 'w) iter_ops \<Rightarrow> 'i range \<Rightarrow> (('i + 64 word) zip_iterator, 'b) mapping_iterator range" where
  "map_indexed ops r =
     map_range (zip_range (it_eq (either_ops ops (integral_ops :: (64 word, 64 word, 'w) iter_ops)))
       [make_range (Inl (rg_begin r)) (Inl (rg_end r)), make_range (Inr 0) (Inr (- 1))])"

definition filter_range ::
  "nat \<Rightarrow> ('i, 'v, 'w) iter_ops \<Rightarrow> ('v \<Rightarrow> bool) \<Rightarrow> 'i range \<Rightarrow> 'w \<Rightarrow> ('i filtering_iterator range \<times> 'w) result" where
  "filter_range k ops pred r w =
     rbind (make_filtering_iterator k ops pred (rg_begin r) (rg_end r) w) (\<lambda>(b, w1).
     rbind (make_filtering_iterator k ops pred (rg_end r) (rg_end r) w1) (\<lambda>(e, w2).
       Inr (make_range b e, w2)))"

fun accumulate ::
  "nat \<Rightarrow> ('i, 'v, 'w) iter_ops \<Rightarrow> ('a \<Rightarrow> 'v \<Rightarrow> 'a) \<Rightarrow> 'a \<Rightarrow> 'i \<Rightarrow> 'i \<Rightarrow> 'w \<Rightarrow> ('a \<times> 'w) result" where
  "accumulate 0 ops f acc i e w = Inl OutOfFuel"
| "accumulate (Suc k) ops f acc i e w =
     (if it_eq ops i e then Inr (acc, w)
      else rbind (it_deref ops i) (\<lambda>(v, i1). rbind (it_incr ops i1 w) (\<lambda>(i2, w').
             accumulate k ops f (f acc v) i2 e w')))"

definition reduce_init ::
  "nat \<Rightarrow> ('i, 'v, 'w) iter_ops \<Rightarrow> ('a \<Rightarrow> 'v \<Rightarrow> 'a) \<Rightarrow> 'a \<Rightarrow> 'i range \<Rightarrow> 'w \<Rightarrow> ('a \<times> 'w) result" where
  "reduce_init k ops f init r w = accumulate k ops f init (rg_begin r) (rg_end r) w"

text \<open>
  Without an initial value \<^verbatim>\<open>reduce\<close> binds a reference to the first element, moves the
  iterator on, and then initializes the parameter of \<^verbatim>\<open>std::accumulate\<close> from
  \<^verbatim>\<open>std::move(init)\<close>. What the reference refers to depends on the iterators: an element of the
  underlying container, which a move changes (\<open>Element mv\<close>, where \<open>mv i c\<close> is the container after
  a move from the element at \<open>i\<close>; that of a constant container, or of a type without a move
  constructor, is copied and \<open>mv i c\<close> is \<open>c\<close>), a temporary the reference keeps alive, or an object
  in the iterator itself, which holds what \<open>rd\<close> finds there by then. The operations of the
  iterators read the container as it is at the time.
\<close>

datatype ('i, 'v, 'c) referent = Element "'i \<Rightarrow> 'c \<Rightarrow> 'c" | Temporary | Inside "'i \<Rightarrow> 'v result"

fun move_init :: "('i, 'v, 'c) referent \<Rightarrow> 'v \<Rightarrow> 'i \<Rightarrow> 'i \<Rightarrow> 'c \<Rightarrow> ('v \<times> 'c) result" where
  "move_init (Element mv) v i1 i2 c = Inr (v, mv i1 c)"
| "move_init Temporary v i1 i2 c = Inr (v, c)"
| "move_init (Inside rd) v i1 i2 c = rbind (rd i2) (\<lambda>v'. Inr (v', c))"

definition reduce ::
  "nat \<Rightarrow> ('c \<Rightarrow> ('i, 'v, 'w) iter_ops) \<Rightarrow> ('i, 'v, 'c) referent \<Rightarrow> ('v \<Rightarrow> 'v \<Rightarrow> 'v) \<Rightarrow> 'i range \<Rightarrow> 'c \<Rightarrow> 'w \<Rightarrow>
   (('v \<times> 'c) \<times> 'w) result" where
  "reduce k ops home f r c w =
     (if it_eq (ops c) (rg_begin r) (rg_end r) then Inl OutOfRange
      else rbind (it_deref (ops c) (rg_begin r)) (\<lambda>(v, i1).
           rbind (it_incr (ops c) i1 w) (\<lambda>(i2, w1).
           rbind (move_init home v i1 i2 c) (\<lambda>(init, c').
           rbind (accumulate k (ops c') f init i2 (rg_end r) w1) (\<lambda>(res, w2). Inr ((res, c'), w2))))))"

text \<open>On a container; \<open>moved\<close> is what the move constructor of the element type leaves of its source.\<close>

definition reduce_vector :: "('v \<Rightarrow> 'v) \<Rightarrow> ('v \<Rightarrow> 'v \<Rightarrow> 'v) \<Rightarrow> 'v list \<Rightarrow> ('v \<times> 'v list) result" where
  "reduce_vector moved f xs =
     rbind (reduce (Suc (length xs)) vec_ops (Element (\<lambda>i ys. ys[i := moved (ys ! i)])) f (make_range 0 (length xs)) xs ())
       (\<lambda>(res, u). Inr res)"

definition reduce_const_vector :: "('v \<Rightarrow> 'v \<Rightarrow> 'v) \<Rightarrow> 'v list \<Rightarrow> ('v \<times> 'v list) result" where
  "reduce_const_vector f xs =
     rbind (reduce (Suc (length xs)) vec_ops (Element (\<lambda>i ys. ys)) f (make_range 0 (length xs)) xs ()) (\<lambda>(res, u). Inr res)"

section \<open>most_derived_common_base\<close>

text \<open>
  The type trait behind the iterator categories: \<open>base a b\<close> is \<^verbatim>\<open>std::is_base_of<a, b>\<close>.
\<close>

fun most_derived_common_base :: "('t \<Rightarrow> 't \<Rightarrow> bool) \<Rightarrow> 't list \<Rightarrow> 't option" where
  "most_derived_common_base base [] = None"
| "most_derived_common_base base [t] = Some t"
| "most_derived_common_base base (t # ts) =
     (case most_derived_common_base base ts of
        None \<Rightarrow> None
      | Some rest \<Rightarrow> Some (if base t rest then t else rest))"

lemma common_base_meet:
  fixes rank :: "'t \<Rightarrow> nat"
  assumes "most_derived_common_base (\<lambda>a b. rank a \<le> rank b) ts = Some t"
  shows "t \<in> set ts \<and> (\<forall>u \<in> set ts. rank t \<le> rank u)"
  using assms
proof (induction ts arbitrary: t rule: induct_list012)
  case (3 a b ts)
  obtain rest where rest: "most_derived_common_base (\<lambda>a b. rank a \<le> rank b) (b # ts) = Some rest"
      and t: "t = (if rank a \<le> rank rest then a else rest)"
    using 3(3) by (cases "most_derived_common_base (\<lambda>a b. rank a \<le> rank b) (b # ts)") simp_all
  have IH: "rest \<in> set (b # ts)" "\<forall>u \<in> set (b # ts). rank rest \<le> rank u"
    using 3(2) [OF rest] by blast+
  show ?case
  proof (cases "rank a \<le> rank rest")
    case True
    then have "t = a" using t by simp
    then show ?thesis using True IH(2) order_trans by fastforce
  next
    case False
    then have "t = rest" using t by simp
    then show ?thesis using False IH by auto
  qed
qed simp_all

section \<open>Containers meet the iterator contract\<close>

lemma vec_seq_Cons:
  assumes "vec_seq xs i w e (v # vs)"
  shows "i < e" and "v = xs ! i" and "i < length xs" and "vec_seq xs (Suc i) w' e vs"
proof -
  show lt: "i < e" using assms by (cases "i < e") (auto simp: vec_seq_def)
  then have "[i..<e] = i # [Suc i..<e]" by (rule upt_conv_Cons)
  then show "v = xs ! i" and "i < length xs" and "vec_seq xs (Suc i) w' e vs"
    using assms lt by (auto simp: vec_seq_def)
qed

interpretation vec: input_iterator "vec_ops xs :: (nat, 'v, 'w) iter_ops" "vec_seq xs"
proof unfold_locales
  fix i e and w :: 'w and v vs
  show "vec_seq xs i w e [] \<Longrightarrow> it_eq (vec_ops xs) i e" by (auto simp: vec_seq_def vec_ops_def)
  assume h: "vec_seq xs i w e (v # vs)"
  note c = vec_seq_Cons [OF h]
  show "\<not> it_eq (vec_ops xs) i e" using c(1) by (simp add: vec_ops_def)
  show "\<exists>i'. it_deref (vec_ops xs) i = Inr (v, i') \<and> vec_seq xs i' w e (v # vs)"
    using c h by (simp add: vec_ops_def)
  show "\<exists>i' w'. it_incr (vec_ops xs) i w = Inr (i', w') \<and> vec_seq xs i' w' e vs"
    using c(4) by (simp add: vec_ops_def)
qed

lemma vec_seq_all: "vec_seq xs 0 w (length xs) xs"
  by (simp add: vec_seq_def map_nth)

section \<open>Reductions\<close>

context input_iterator begin

lemma accumulate_foldl:
  "seq i w e vs \<Longrightarrow> length vs < k \<Longrightarrow> \<exists>w'. accumulate k ops f acc i e w = Inr (foldl f acc vs, w')"
proof (induction vs arbitrary: i w k acc)
  case Nil
  then show ?case using at_end [OF Nil(1)] by (cases k) auto
next
  case (Cons v vs)
  then obtain k' where k: "k = Suc k'" by (cases k) auto
  obtain i1 where i1: "it_deref ops i = Inr (v, i1)" "seq i1 w e (v # vs)" using deref [OF Cons.prems(1)] by blast
  obtain i2 w2 where i2: "it_incr ops i1 w = Inr (i2, w2)" "seq i2 w2 e vs" using incr [OF i1(2)] by blast
  then show ?case using Cons.IH [OF i2(2), of k' "f acc v"] Cons.prems(2) i1 at_more [OF Cons.prems(1)] k by auto
qed

lemma reduce_foldl:
  assumes "seq (rg_begin r) w (rg_end r) (v # vs)" and "length vs < k"
  shows "\<exists>w'. reduce k (\<lambda>_. ops) Temporary f r c w = Inr ((foldl f v vs, c), w')"
proof -
  obtain i1 where i1: "it_deref ops (rg_begin r) = Inr (v, i1)" "seq i1 w (rg_end r) (v # vs)"
    using deref [OF assms(1)] by blast
  obtain i2 w2 where i2: "it_incr ops i1 w = Inr (i2, w2)" "seq i2 w2 (rg_end r) vs"
    using incr [OF i1(2)] by blast
  show ?thesis
    using accumulate_foldl [OF i2(2) assms(2), of f v] i1 i2 at_more [OF assms(1)] by (auto simp: reduce_def)
qed

text \<open>An element kept in the iterator is read after the iterator has moved on.\<close>

lemma reduce_own:
  assumes "seq (rg_begin r) w (rg_end r) (v # vs)"
  shows "\<exists>i w'. seq i w' (rg_end r) vs \<and>
    reduce k (\<lambda>_. ops) (Inside rd) f r c w =
      rbind (rd i) (\<lambda>init. rbind (accumulate k ops f init i (rg_end r) w') (\<lambda>(res, w2). Inr ((res, c), w2)))"
proof -
  obtain i1 where i1: "it_deref ops (rg_begin r) = Inr (v, i1)" "seq i1 w (rg_end r) (v # vs)"
    using deref [OF assms(1)] by blast
  obtain i2 w2 where i2: "it_incr ops i1 w = Inr (i2, w2)" "seq i2 w2 (rg_end r) vs"
    using incr [OF i1(2)] by blast
  have "rbind (rbind (rd i2) (\<lambda>v'. Inr (v', c))) (\<lambda>(u, c'). Q u c') = rbind (rd i2) (\<lambda>u. Q u c)" for Q
    by (cases "rd i2") simp_all
  then show ?thesis using i1 i2 at_more [OF assms(1)] by (auto simp: reduce_def)
qed

lemma reduce_empty: "seq (rg_begin r) w (rg_end r) [] \<Longrightarrow> reduce k (\<lambda>_. ops) home f r c w = Inl OutOfRange"
  using at_end by (simp add: reduce_def)

end

section \<open>zip stops at the shortest range\<close>

text \<open>
  Zipped iterators advance one after the other. \<open>apart\<close> says that two of them do not disturb each
  other: incrementing the one does not change what the other sees. Iterators that do not depend on
  the world always are apart; readers of different files are.
\<close>

locale zippable = input_iterator ops seq
  for ops :: "('i, 'v, 'w) iter_ops" and seq :: "'i \<Rightarrow> 'w \<Rightarrow> 'i \<Rightarrow> 'v list \<Rightarrow> bool" +
  fixes apart :: "'i \<Rightarrow> 'i \<Rightarrow> bool"
  assumes end_refl: "it_eq ops i i"
    and apart_sym: "apart i j \<Longrightarrow> apart j i"
    and apart_deref: "apart i j \<Longrightarrow> it_deref ops i = Inr (v, i') \<Longrightarrow> apart i' j"
    and apart_incr: "apart i j \<Longrightarrow> it_incr ops i w = Inr (i', w') \<Longrightarrow> apart i' j"
    and frame: "apart i j \<Longrightarrow> it_incr ops i w = Inr (i', w') \<Longrightarrow> seq j w e vs \<Longrightarrow> seq j w' e vs"

locale pure_iterator = input_iterator ops seq
  for ops :: "('i, 'v, 'w) iter_ops" and seq :: "'i \<Rightarrow> 'w \<Rightarrow> 'i \<Rightarrow> 'v list \<Rightarrow> bool" +
  assumes world: "seq i w e vs \<Longrightarrow> seq i w' e vs"
    and pure_end_refl: "it_eq ops i i"

lemma sorted_wrt_apart [simp]: "sorted_wrt (\<lambda>i j. True) xs"
  by (induction xs) simp_all

sublocale pure_iterator \<subseteq> zippable ops seq "\<lambda>i j. True"
  by unfold_locales (auto intro: world pure_end_refl)

context pure_iterator begin

lemma pure_zippable: "zippable ops seq (\<lambda>i j. True)"
  by (rule zippable_axioms)

end

fun zip_lists :: "'v list list \<Rightarrow> 'v list list" where
  "zip_lists [] = []"
| "zip_lists ([] # uss) = []"
| "zip_lists ((u # us) # uss) =
     (if list_all (\<lambda>us. us \<noteq> []) uss then (u # map hd uss) # zip_lists (us # map tl uss) else [])"

definition zip_seq ::
  "('i \<Rightarrow> 'i \<Rightarrow> bool) \<Rightarrow> ('i \<Rightarrow> 'w \<Rightarrow> 'i \<Rightarrow> 'v list \<Rightarrow> bool) \<Rightarrow>
   'i zip_iterator \<Rightarrow> 'w \<Rightarrow> 'i zip_iterator \<Rightarrow> 'v list list \<Rightarrow> bool" where
  "zip_seq apart seq z w e vs \<longleftrightarrow> z_ends z = z_begins e \<and>
     (if vs = [] then z_begins z = z_begins e
      else \<exists>uss. uss \<noteq> [] \<and> list_all2 (\<lambda>(i, e) us. seq i w e us) (zip (z_begins z) (z_begins e)) uss \<and>
        length (z_begins z) = length (z_begins e) \<and> sorted_wrt apart (z_begins z) \<and> [] \<notin> set uss \<and>
        vs = zip_lists uss)"

lemma zip_lists_Nil: "[] \<in> set uss \<Longrightarrow> zip_lists uss = []"
proof (induction uss rule: zip_lists.induct)
  case (3 u us uss)
  then have "\<not> list_all (\<lambda>us. us \<noteq> []) uss" by (auto simp: list_all_iff)
  then show ?case by (simp only: zip_lists.simps if_False)
qed simp_all

lemma zip_lists_Cons:
  "uss \<noteq> [] \<Longrightarrow> [] \<notin> set uss \<Longrightarrow> zip_lists uss = map hd uss # zip_lists (map tl uss)"
proof (cases uss rule: zip_lists.cases)
  case (3 u us uss')
  assume "[] \<notin> set uss"
  then have "list_all (\<lambda>us. us \<noteq> []) uss'" using 3 by (auto simp: list_all_iff)
  then show ?thesis using 3 by simp
qed auto

context zippable begin

abbreviation "all_seq w is es uss \<equiv> length is = length es \<and> list_all2 (\<lambda>(i, e) us. seq i w e us) (zip is es) uss"

lemma any_equal_iff: "all_seq w is es uss \<Longrightarrow> tuple_any_equal (it_eq ops) is es \<longleftrightarrow> [] \<in> set uss"
proof (induction "is" arbitrary: es uss)
  case (Cons i "is")
  then obtain e es' us uss' where e: "es = e # es'" "uss = us # uss'" "seq i w e us" "all_seq w is es' uss'"
    by (cases es; cases uss) auto
  moreover have "it_eq ops i e \<longleftrightarrow> us = []"
    using at_end [of i w e] at_more [of i w e] e(3) by (cases us) auto
  ultimately show ?case using Cons.IH [OF e(4)] by auto
qed simp

lemma deref_all_apart:
  "deref_all ops is = Inr (vs, is') \<Longrightarrow> \<forall>i \<in> set is. apart i j \<Longrightarrow> \<forall>i \<in> set is'. apart i j"
  by (induction "is" arbitrary: vs is') (auto simp: rbind_Inr_iff dest: apart_deref)

lemma incr_all_apart:
  "incr_all ops is w = Inr (is', w') \<Longrightarrow> \<forall>i \<in> set is. apart i j \<Longrightarrow> \<forall>i \<in> set is'. apart i j"
  by (induction "is" arbitrary: w is' w') (auto simp: rbind_Inr_iff dest: apart_incr)

lemma incr_all_frame:
  "incr_all ops is w = Inr (is', w') \<Longrightarrow> \<forall>i \<in> set is. apart i j \<Longrightarrow> seq j w e vs \<Longrightarrow> seq j w' e vs"
  by (induction "is" arbitrary: w is' w') (auto simp: rbind_Inr_iff dest: frame)

lemma deref_all_seq:
  "all_seq w is es uss \<Longrightarrow> [] \<notin> set uss \<Longrightarrow> sorted_wrt apart is \<Longrightarrow>
   \<exists>is'. deref_all ops is = Inr (map hd uss, is') \<and> all_seq w is' es uss \<and> sorted_wrt apart is'"
proof (induction "is" arbitrary: es uss)
  case (Cons i "is")
  then obtain e es' us uss' where e: "es = e # es'" "uss = us # uss'" "seq i w e us" "all_seq w is es' uss'" "us \<noteq> []"
    by (cases es; cases uss) auto
  then obtain u us' where u: "us = u # us'" by (cases us) auto
  obtain i' where i': "it_deref ops i = Inr (u, i')" "seq i' w e us" using deref e(3) u by blast
  obtain is' where is': "deref_all ops is = Inr (map hd uss', is')" "all_seq w is' es' uss'" "sorted_wrt apart is'"
    using Cons.IH [OF e(4)] Cons.prems e by auto
  have "apart i j" if "j \<in> set is" for j using Cons.prems(3) that by simp
  then have "\<forall>j \<in> set is. apart j i'" using apart_sym apart_deref [OF _ i'(1)] by blast
  then have "\<forall>j \<in> set is'. apart i' j" using deref_all_apart [OF is'(1)] apart_sym by blast
  with i' is' e u show ?case by auto
qed simp

lemma incr_all_seq:
  "all_seq w is es uss \<Longrightarrow> [] \<notin> set uss \<Longrightarrow> sorted_wrt apart is \<Longrightarrow>
   \<exists>is' w'. incr_all ops is w = Inr (is', w') \<and> all_seq w' is' es (map tl uss) \<and> sorted_wrt apart is'"
proof (induction "is" arbitrary: es uss w)
  case (Cons i "is")
  then obtain e es' us uss' where e: "es = e # es'" "uss = us # uss'" "seq i w e us" "all_seq w is es' uss'" "us \<noteq> []"
    by (cases es; cases uss) auto
  then obtain u us' where u: "us = u # us'" by (cases us) auto
  obtain i' w1 where i': "it_incr ops i w = Inr (i', w1)" "seq i' w1 e us'" using incr e(3) u by blast
  have ap: "apart i j" if "j \<in> set is" for j using Cons.prems(3) that by simp
  have "list_all2 (\<lambda>(i, e) us. seq i w1 e us) (zip is es') uss'"
    using conjunct2 [OF e(4)]
  proof (rule list.rel_mono_strong)
    fix ie us
    assume h: "ie \<in> set (zip is es')" "(\<lambda>(i, e) us. seq i w e us) ie us"
    obtain j e where ie: "ie = (j, e)" by fastforce
    then have "apart i j" using ap set_zip_leftD h(1) by metis
    then show "(\<lambda>(i, e) us. seq i w1 e us) ie us" using frame [OF _ i'(1)] h(2) ie by simp
  qed
  then have w1: "all_seq w1 is es' uss'" using e(4) by simp
  then obtain is' w2 where i2: "incr_all ops is w1 = Inr (is', w2)" "all_seq w2 is' es' (map tl uss')" "sorted_wrt apart is'"
    using Cons.IH [OF w1] Cons.prems e by auto
  have ap': "\<forall>j \<in> set is. apart j i'" using ap apart_sym apart_incr [OF _ i'(1)] by blast
  then have "\<forall>j \<in> set is'. apart i' j" using incr_all_apart [OF i2(1)] apart_sym by blast
  moreover have "seq i' w2 e us'" by (rule incr_all_frame [OF i2(1) ap' i'(2)])
  ultimately show ?case using i' i2 e u by auto
qed simp

lemma check_end_seq:
  assumes "all_seq w is es uss" and "uss \<noteq> []" and "z_begins e = es" and "sorted_wrt apart is"
  shows "zip_seq apart seq (check_end (it_eq ops) \<lparr>z_begins = is, z_ends = es\<rparr>) w e (zip_lists uss)"
proof (cases "[] \<in> set uss")
  case True
  then show ?thesis using any_equal_iff [OF assms(1)] assms(3)
    by (simp add: check_end_def zip_seq_def zip_lists_Nil)
next
  case False
  then have "zip_lists uss \<noteq> []" using zip_lists_Cons [OF assms(2)] by simp
  then show ?thesis using False any_equal_iff [OF assms(1)] assms
    by (auto simp: check_end_def zip_seq_def)
qed

lemma zip_iterator_seq: "input_iterator (zip_ops ops) (zip_seq apart seq)"
proof unfold_locales
  fix z w e v vs
  have "list_all2 (it_eq ops) xs xs" for xs by (simp add: list_all2_same end_refl)
  then show "zip_seq apart seq z w e [] \<Longrightarrow> it_eq (zip_ops ops) z e"
    by (simp add: zip_seq_def zip_ops_def zip_eq_def)
  assume "zip_seq apart seq z w e (v # vs)"
  then obtain uss where u: "uss \<noteq> []" "all_seq w (z_begins z) (z_begins e) uss" "[] \<notin> set uss"
      "v # vs = zip_lists uss" "z_ends z = z_begins e" "sorted_wrt apart (z_begins z)"
    by (auto simp: zip_seq_def)
  have v: "v = map hd uss" "vs = zip_lists (map tl uss)" using zip_lists_Cons [OF u(1,3)] u(4) by auto
  have "\<not> tuple_any_equal (it_eq ops) (z_begins z) (z_begins e)" using any_equal_iff [OF u(2)] u(3) by simp
  moreover have "z_begins z \<noteq> []" using u(1,2) by (auto simp: list_all2_conv_all_nth)
  ultimately show "\<not> it_eq (zip_ops ops) z e"
    using u(2) by (cases "z_begins z"; cases "z_begins e") (auto simp: zip_ops_def zip_eq_def)
  obtain is' where i': "deref_all ops (z_begins z) = Inr (v, is')" "all_seq w is' (z_begins e) uss" "sorted_wrt apart is'"
    using deref_all_seq [OF u(2,3,6)] v by auto
  then show "\<exists>z'. it_deref (zip_ops ops) z = Inr (v, z') \<and> zip_seq apart seq z' w e (v # vs)"
    using u by (auto simp: zip_ops_def zip_seq_def)
  obtain is'' w' where "incr_all ops (z_begins z) w = Inr (is'', w')" "all_seq w' is'' (z_begins e) (map tl uss)"
      "sorted_wrt apart is''"
    using incr_all_seq [OF u(2,3,6)] by blast
  moreover from this(2) have "zip_seq apart seq (check_end (it_eq ops) \<lparr>z_begins = is'', z_ends = z_begins e\<rparr>) w' e vs"
    unfolding v by (rule check_end_seq) (use u(1) calculation(3) in simp_all)
  moreover have "z\<lparr>z_begins := is''\<rparr> = \<lparr>z_begins = is'', z_ends = z_begins e\<rparr>" using u(5) by simp
  ultimately show "\<exists>z' w'. it_incr (zip_ops ops) z w = Inr (z', w') \<and> zip_seq apart seq z' w' e vs"
    by (auto simp: zip_ops_def)
qed

end

interpretation vec: pure_iterator "vec_ops xs :: (nat, 'v, 'w) iter_ops" "vec_seq xs"
  by unfold_locales (simp_all add: vec_seq_def vec_ops_def)

interpretation integral: pure_iterator "integral_ops :: ('a::len word, 'a word, 'w) iter_ops" integral_seq
  by unfold_locales (simp_all add: integral_seq_def integral_ops_def)

end
