(* ===== verification/DataBlock.thy ===== *)
theory DataBlock
  imports PbssTheorems Codec Crc32 Iterators Ranges
begin

text \<open>
  Data blocks (include/bs3/pbsf: defs.hh, realm.hh, data-block.hh; src/pbsf/data-block.cc): the
  realm that numbers the types, the encoded block with its checksum, encoding and decoding
  through the compression wrappers, writing a block to a stream, and the iterators that
  write blocks of any type and read the blocks of one type.
\<close>

section \<open>The environment of the library\<close>

text \<open>
  The build configuration, the compression libraries, the contents of uninitialized memory, the
  processor (see Crc32) with the address where a buffer lies, and the value of the environment
  variable \<^verbatim>\<open>PBSF_COMPRESSION\<close> when the choice of the encoding is first made (it is remembered).
\<close>

record environment =
  env_cfg :: config
  env_zstd :: zstd_lib
  env_lzo :: lzo_lib
  env_junk :: "nat \<Rightarrow> byte"
  env_sse :: "32 word option"
  env_u8 :: "32 word \<Rightarrow> byte \<Rightarrow> 32 word"
  env_u64 :: "64 word \<Rightarrow> 64 word \<Rightarrow> 64 word"
  env_addr :: "64 word"
  env_pref :: "string option"

section \<open>defs.hh\<close>

definition PBSF_ENCODING_IDENTITY :: "16 word" where "PBSF_ENCODING_IDENTITY = 1"
definition PBSF_ENCODING_LZO :: "16 word" where "PBSF_ENCODING_LZO = 2"
definition PBSF_ENCODING_ZSTD :: "16 word" where "PBSF_ENCODING_ZSTD = 5"

lemmas encoding_defs = PBSF_ENCODING_IDENTITY_def PBSF_ENCODING_LZO_def PBSF_ENCODING_ZSTD_def

definition char_word :: "char \<Rightarrow> 32 word" where
  "char_word c = word_of_nat (of_char c)"

definition magic :: "32 word" where
  "magic = char_word (CHR ''p'') OR push_bit 8 (char_word (CHR ''b'') OR
     push_bit 8 (char_word (CHR ''s'') OR push_bit 8 (char_word (CHR ''3''))))"

record file_header =
  fh_magic :: "32 word"
  fh_realm :: "32 word"

definition header_ty :: ty where
  "header_ty = TMembers [TPrim Num4, TPrim Num4] [Indet, Indet]"

definition header_val :: "file_header \<Rightarrow> val" where
  "header_val h = VRec [VPrim (P4 (fh_magic h)), VPrim (P4 (fh_realm h))]"

definition header_of :: "val \<Rightarrow> file_header" where
  "header_of v = (case v of
     VRec [VPrim (P4 m), VPrim (P4 r)] \<Rightarrow> \<lparr>fh_magic = m, fh_realm = r\<rparr> | _ \<Rightarrow> \<lparr>fh_magic = 0, fh_realm = 0\<rparr>)"

definition header_eq :: "file_header \<Rightarrow> file_header \<Rightarrow> bool" where
  "header_eq a b \<longleftrightarrow> fh_magic a = fh_magic b \<and> fh_realm a = fh_realm b"

record encoded_block =
  contentType :: "16 word"
  contentEncoding :: "16 word"
  contentChecksum :: "32 word"
  content :: "byte list"

definition block_eq :: "encoded_block \<Rightarrow> encoded_block \<Rightarrow> bool" where
  "block_eq a b \<longleftrightarrow> contentType a = contentType b \<and> contentEncoding a = contentEncoding b \<and>
     contentChecksum a = contentChecksum b \<and> content a = content b"

definition new_block :: encoded_block where
  "new_block = \<lparr>contentType = 1, contentEncoding = 1, contentChecksum = 0, content = []\<rparr>"

text \<open>The object as pbss sees it. \<^verbatim>\<open>pbss::buffer\<close> is a vector of \<^verbatim>\<open>uninitialized_byte\<close>.\<close>

definition buffer_ty :: ty where
  "buffer_ty = TSeq (SeqVec (2 ^ 63 - 1)) TByte"

definition byte_val :: "byte \<Rightarrow> val" where
  "byte_val b = VPrim (P1 b)"

definition byte_of :: "val \<Rightarrow> byte" where
  "byte_of v = (case v of VPrim (P1 b) \<Rightarrow> b | _ \<Rightarrow> 0)"

definition block_ty :: ty where
  "block_ty = TMembers [TPrim Num2, TPrim Num2, TPrim Num4, buffer_ty]
     [VPrim (P2 1), VPrim (P2 1), VPrim (P4 0), VSeq []]"

definition block_val :: "encoded_block \<Rightarrow> val" where
  "block_val b = VRec [VPrim (P2 (contentType b)), VPrim (P2 (contentEncoding b)),
     VPrim (P4 (contentChecksum b)), VSeq (map byte_val (content b))]"

definition block_of :: "val \<Rightarrow> encoded_block" where
  "block_of v = (case v of
     VRec [VPrim (P2 ct), VPrim (P2 ce), VPrim (P4 crc), VSeq bs] \<Rightarrow>
       \<lparr>contentType = ct, contentEncoding = ce, contentChecksum = crc, content = map byte_of bs\<rparr>
   | _ \<Rightarrow> new_block)"

section \<open>realm.hh\<close>

text \<open>
  A C++ type has a name and, for pbss, a structure. A realm inherits from its type entries, and
  \<^verbatim>\<open>lookup_id\<close> and \<^verbatim>\<open>lookup_type\<close> are resolved by deducing the base class: they compile when
  exactly one entry fits.
\<close>

record ctype =
  c_name :: string
  c_ty :: ty

record realm =
  rl_id :: "32 word"
  rl_entries :: "(16 word \<times> ctype) list"

definition deduce_base :: "('a \<Rightarrow> bool) \<Rightarrow> 'a list \<Rightarrow> 'a option" where
  "deduce_base P entries = (case filter P entries of [e] \<Rightarrow> Some e | _ \<Rightarrow> None)"

definition lookup_id :: "ctype \<Rightarrow> (16 word \<times> ctype) list \<Rightarrow> 16 word option" where
  "lookup_id T entries = map_option fst (deduce_base (\<lambda>e. c_name (snd e) = c_name T) entries)"

definition lookup_type :: "16 word \<Rightarrow> (16 word \<times> ctype) list \<Rightarrow> ctype option" where
  "lookup_type i entries = map_option snd (deduce_base (\<lambda>e. fst e = i) entries)"

section \<open>data-block.cc\<close>

definition tolower_char :: "char \<Rightarrow> char" where
  "tolower_char c =
     (let n = of_char c :: nat in if 65 \<le> n \<and> n \<le> 90 then char_of (n + 32) else c)"

definition env_preferred_encoding :: "environment \<Rightarrow> 16 word" where
  "env_preferred_encoding env =
     (case env_pref env of
        None \<Rightarrow> PBSF_ENCODING_ZSTD
      | Some ppref \<Rightarrow>
          let pref = map tolower_char ppref
          in if pref = ''identity'' then PBSF_ENCODING_IDENTITY
             else if pref = ''lzo'' then PBSF_ENCODING_LZO
             else if pref = ''zstd'' then PBSF_ENCODING_ZSTD
             else PBSF_ENCODING_ZSTD)"

text \<open>\<^verbatim>\<open>crc32c(buf)\<close> on the buffer where it lies in memory.\<close>

definition memory_of :: "64 word \<Rightarrow> byte list \<Rightarrow> memory" where
  "memory_of addr buf = (\<lambda>a. if unat (a - addr) < length buf then buf ! unat (a - addr) else 0)"

definition crc32c_buffer :: "environment \<Rightarrow> byte list \<Rightarrow> 32 word result" where
  "crc32c_buffer env buf =
     (case crc32c (env_sse env) (env_u8 env) (env_u64 env) (memory_of (env_addr env) buf)
             (env_addr env) (size_of_buffer buf) of
        Some crc \<Rightarrow> Inr crc | None \<Rightarrow> Inl OutOfFuel)"

definition block_with :: "environment \<Rightarrow> 16 word \<Rightarrow> 16 word \<Rightarrow> byte list \<Rightarrow> encoded_block result" where
  "block_with env i enc bs = rbind (crc32c_buffer env bs) (\<lambda>crc.
     Inr \<lparr>contentType = i, contentEncoding = enc, contentChecksum = crc, content = bs\<rparr>)"

function encode_block :: "environment \<Rightarrow> 16 word \<Rightarrow> byte list \<Rightarrow> 16 word \<Rightarrow> encoded_block result" where
  "encode_block env i raw encoding =
     (if encoding = PBSF_ENCODING_IDENTITY then block_with env i PBSF_ENCODING_IDENTITY raw
      else if encoding = PBSF_ENCODING_LZO then
        rbind (lzo_compress (env_lzo env) (env_junk env) raw) (\<lambda>compressed.
          if length compressed > length raw then block_with env i PBSF_ENCODING_IDENTITY raw
          else block_with env i PBSF_ENCODING_LZO compressed)
      else if encoding = PBSF_ENCODING_ZSTD then
        rbind (zstd_compress (env_zstd env) (env_junk env) raw) (\<lambda>compressed.
          if length compressed > length raw then block_with env i PBSF_ENCODING_IDENTITY raw
          else block_with env i PBSF_ENCODING_ZSTD compressed)
      else encode_block env i raw PBSF_ENCODING_ZSTD)"
  by pat_completeness auto

termination encode_block
  by (relation "measure (\<lambda>(env, i, raw, e). if e = PBSF_ENCODING_ZSTD then 0 else 1)") auto

declare encode_block.simps [simp del]

definition decode_block :: "environment \<Rightarrow> encoded_block \<Rightarrow> byte list result" where
  "decode_block env b =
     rbind (crc32c_buffer env (content b)) (\<lambda>crc.
       if contentChecksum b \<noteq> crc then Inl BadChecksum
       else if contentEncoding b = PBSF_ENCODING_IDENTITY then Inr (content b)
       else if contentEncoding b = PBSF_ENCODING_LZO then lzo_decompress (env_lzo env) (env_junk env) (content b)
       else if contentEncoding b = PBSF_ENCODING_ZSTD then zstd_decompress (env_zstd env) (env_junk env) (content b)
       else Inl UnknownEncoding)"

section \<open>data-block.hh\<close>

text \<open>
  \<^verbatim>\<open>write_block\<close> is instantiated only for types of the realm, where \<^verbatim>\<open>lookup_id\<close> compiles.
\<close>

definition type_id :: "ctype \<Rightarrow> (16 word \<times> ctype) list \<Rightarrow> 16 word" where
  "type_id T entries = the (lookup_id T entries)"

definition write_block ::
  "environment \<Rightarrow> 'w outstream \<Rightarrow> (16 word \<times> ctype) list \<Rightarrow> ctype \<Rightarrow> val \<Rightarrow> 'w \<Rightarrow> 'w result" where
  "write_block env ops entries T v w =
     rbind (serialize_to_buffer (env_cfg env) (env_junk env) (c_ty T) v) (\<lambda>raw.
     rbind (encode_block env (type_id T entries) raw (env_preferred_encoding env)) (\<lambda>b.
       serialize (env_cfg env) ops block_ty (block_val b) w))"

definition heterogeneous_write_ops ::
  "environment \<Rightarrow> 'w outstream \<Rightarrow> (16 word \<times> ctype) list \<Rightarrow> ('w, ctype \<times> val) out_ops" where
  "heterogeneous_write_ops env ops entries =
     \<lparr>oi_assign = (\<lambda>(T, v) w. write_block env ops entries T v w), oi_incr = mixin_incr\<rparr>"

text \<open>The iterator of \<^verbatim>\<open>parse_all\<close> as an iterator type.\<close>

definition parse_iterator_ops ::
  "config \<Rightarrow> 's instream \<Rightarrow> ty \<Rightarrow> (parse_iter, val, 's) iter_ops" where
  "parse_iterator_ops cfg ops t =
     \<lparr>it_deref = (\<lambda>i. Inr (pi_value i, i)), it_incr = parse_iter_incr cfg ops t,
      it_eq = (\<lambda>a b. pi_live a = pi_live b)\<rparr>"

definition check_id :: "16 word \<Rightarrow> val \<Rightarrow> bool" where
  "check_id i v \<longleftrightarrow> contentType (block_of v) = i"

text \<open>
  The block is moved from, but only once: the mapping iterator keeps the value and the next
  increment parses a new block.
\<close>

definition parse_from_block :: "environment \<Rightarrow> ctype \<Rightarrow> val \<Rightarrow> val result" where
  "parse_from_block env T v =
     rbind (decode_block env (block_of v)) (\<lambda>buf. parse_from_buffer (env_cfg env) (c_ty T) buf)"

type_synonym skipping_read_iterator = "(parse_iter filtering_iterator, val) mapping_iterator"

definition skipping_read_ops ::
  "environment \<Rightarrow> 's instream \<Rightarrow> (16 word \<times> ctype) list \<Rightarrow> ctype \<Rightarrow> (skipping_read_iterator, val, 's) iter_ops" where
  "skipping_read_ops env ops entries T =
     mapping_ops True
       (filtering_ops (fuel (env_cfg env)) (parse_iterator_ops (env_cfg env) ops block_ty)
          (check_id (type_id T entries)))
       (parse_from_block env T)"

definition parse_end :: parse_iter where
  "parse_end = \<lparr>pi_live = False, pi_value = block_val new_block\<rparr>"

definition skipping_read_end :: skipping_read_iterator where
  "skipping_read_end = make_mapping_iterator \<lparr>fi_it = parse_end, fi_end = parse_end\<rparr>"

definition skipping_read_begin ::
  "environment \<Rightarrow> 's instream \<Rightarrow> (16 word \<times> ctype) list \<Rightarrow> ctype \<Rightarrow> 's \<Rightarrow> (skipping_read_iterator \<times> 's) result" where
  "skipping_read_begin env ops entries T s =
     rbind (parse_iter_begin (env_cfg env) ops block_ty s) (\<lambda>(it, s1).
     rbind (make_filtering_iterator (fuel (env_cfg env)) (parse_iterator_ops (env_cfg env) ops block_ty)
              (check_id (type_id T entries)) it parse_end s1) (\<lambda>(fit, s2).
       Inr (make_mapping_iterator fit, s2)))"

end
