(* ===== verification/ErrorDetection.thy ===== *)
theory ErrorDetection
  imports Crc32
begin

text \<open>
  What the checksum of a data block detects: every change of the data that is confined to
  four consecutive bytes. The state after at most 32 bits of data determines the state before
  them up to those bits.
\<close>

lemma poly_top: "bit (0x82F63B78 :: 32 word) 31"
  by (simp add: bit_numeral_rec)

lemma bit_crc_bit:
  "i < 32 \<Longrightarrow> bit (crc_bit c b) i =
     (bit c (Suc i) \<noteq> ((bit c 0 \<noteq> b) \<and> bit (0x82F63B78 :: 32 word) i))"
  by (simp add: crc_bit_def bit_xor_iff bit_drop_bit_eq)

lemma bit_crc_bit_top: "bit (crc_bit c b) 31 = (bit c 0 \<noteq> b)"
  using bit_crc_bit [of 31 c b] poly_top by (simp add: bit_word_iff_drop_bit_and)

lemma crc_bits_determines:
  "crc_bits c bs = crc_bits c' bs' \<Longrightarrow> length bs = n \<Longrightarrow> length bs' = n \<Longrightarrow> n \<le> 32 \<Longrightarrow>
   (\<forall>i < n. (bit c i \<noteq> bs ! i) = (bit c' i \<noteq> bs' ! i)) \<and> (\<forall>i < 32. n \<le> i \<longrightarrow> bit c i = bit c' i)"
proof (induction n arbitrary: c c' bs bs')
  case 0
  then show ?case by simp
next
  case (Suc n)
  obtain b ds b' ds' where bs: "bs = b # ds" "bs' = b' # ds'" "length ds = n" "length ds' = n"
    using Suc.prems by (metis length_Suc_conv)
  have IH: "\<forall>i < n. (bit (crc_bit c b) i \<noteq> ds ! i) = (bit (crc_bit c' b') i \<noteq> ds' ! i)"
      "\<forall>i < 32. n \<le> i \<longrightarrow> bit (crc_bit c b) i = bit (crc_bit c' b') i"
    using Suc.IH [of "crc_bit c b" ds "crc_bit c' b'" ds'] Suc.prems bs by simp_all
  have top: "(bit c 0 \<noteq> b) = (bit c' 0 \<noteq> b')"
    using IH(2) [rule_format, of 31] Suc.prems(4) by (simp add: bit_crc_bit_top)
  have lo: "(bit c (Suc i) \<noteq> ds ! i) = (bit c' (Suc i) \<noteq> ds' ! i)" if "i < n" for i
    using IH(1) that Suc.prems(4) top bit_crc_bit [of i c b] bit_crc_bit [of i c' b'] by auto
  have hi: "bit c (Suc i) = bit c' (Suc i)" if "n \<le> i" "i < 32" for i
    using IH(2) that top bit_crc_bit [of i c b] bit_crc_bit [of i c' b'] by auto
  show ?case
  proof (intro conjI allI impI)
    fix i
    show "i < Suc n \<Longrightarrow> (bit c i \<noteq> bs ! i) = (bit c' i \<noteq> bs' ! i)"
      using top lo bs by (cases i) simp_all
    show "i < 32 \<Longrightarrow> Suc n \<le> i \<Longrightarrow> bit c i = bit c' i"
      using hi by (cases i) simp_all
  qed
qed

lemma crc_bits_inj: "crc_bits c bs = crc_bits c' bs \<Longrightarrow> c = c'"
proof (induction bs arbitrary: c c')
  case (Cons b bs)
  then have "crc_bits c [b] = crc_bits c' [b]" by auto
  from crc_bits_determines [OF this, of 1]
  have h: "bit c 0 = bit c' 0" "\<And>i. i < 32 \<Longrightarrow> 1 \<le> i \<Longrightarrow> bit c i = bit c' i" by auto
  show ?case
  proof (rule bit_word_eqI)
    fix i :: nat
    assume "i < LENGTH(32)"
    then show "bit c i = bit c' i" using h by (cases "i = 0") simp_all
  qed
qed simp

lemma crc_bits_burst:
  assumes "crc_bits c bs = crc_bits c bs'" and "length bs = length bs'" and "length bs \<le> 32"
  shows "bs = bs'"
  using crc_bits_determines [OF assms(1) _ assms(2) [symmetric]] assms(2,3)
  by (intro nth_equalityI) auto

lemma byte_bits_inj: "byte_bits a = byte_bits b \<Longrightarrow> a = b"
  by (auto simp: byte_bits_def intro!: bit_word_eqI)

lemma concat_byte_bits_inj:
  "concat (map byte_bits x) = concat (map byte_bits y) \<Longrightarrow> length x = length y \<Longrightarrow> x = y"
proof (induction x y rule: list_induct2')
  case (4 a x b y)
  have "length (byte_bits a) = length (byte_bits b)" by (simp add: byte_bits_def)
  with 4 show ?case using byte_bits_inj by (auto simp: append_eq_append_conv)
qed simp_all

lemma length_byte_bits: "length (concat (map byte_bits x)) = 8 * length x"
  by (induction x) (simp_all add: byte_bits_def)

lemma crc32c_burst:
  assumes "length x = length y" and "length x \<le> 4" and "x \<noteq> y"
  shows "crc32c_spec (p @ x @ s) \<noteq> crc32c_spec (p @ y @ s)"
proof
  let ?f = "\<lambda>z. concat (map byte_bits z)"
  assume "crc32c_spec (p @ x @ s) = crc32c_spec (p @ y @ s)"
  then have "crc_bits (crc_bits (crc_bits 0xFFFFFFFF (?f p)) (?f x)) (?f s) =
      crc_bits (crc_bits (crc_bits 0xFFFFFFFF (?f p)) (?f y)) (?f s)"
    by (simp add: crc32c_spec_def)
  then have "crc_bits (crc_bits 0xFFFFFFFF (?f p)) (?f x) = crc_bits (crc_bits 0xFFFFFFFF (?f p)) (?f y)"
    by (rule crc_bits_inj)
  then have "?f x = ?f y" by (rule crc_bits_burst) (use assms in \<open>simp_all add: length_byte_bits\<close>)
  then show False using concat_byte_bits_inj assms by blast
qed

end
