(* ===== verification/FileStream.thy ===== *)
theory FileStream
  imports PbssTheorems
begin

text \<open>
  The standard file streams (\<^verbatim>\<open>std::ifstream\<close>, \<^verbatim>\<open>std::fstream\<close>) as the pbsf code uses them,
  from the C++20 standard's description: the state bits, the sentry of the unformatted input
  and output functions, the exception mask, positioning, and the open modes. The buffer of
  the file is transparent: \<open>fs_data\<close> is what the file holds once the stream is closed.
\<close>

section \<open>State\<close>

text \<open>
  A file buffer has one joint position for reading and writing; it may lie beyond the end.
  \<open>fs_throw\<close> is the exception mask \<^verbatim>\<open>failbit | badbit\<close> (badbit is an I/O error of the
  operating system and never raised here). \<open>fs_app\<close> is the append mode.
\<close>

record fstream =
  fs_data :: "byte list"
  fs_pos :: nat
  fs_eof :: bool
  fs_fail :: bool
  fs_throw :: bool
  fs_app :: bool

definition fs_good :: "fstream \<Rightarrow> bool" where
  "fs_good s \<longleftrightarrow> \<not> fs_eof s \<and> \<not> fs_fail s"

definition fs_rem :: "fstream \<Rightarrow> byte list" where
  "fs_rem s = drop (fs_pos s) (fs_data s)"

text \<open>\<^verbatim>\<open>setstate\<close> throws when a bit of the mask is set afterwards.\<close>

definition fs_setstate :: "bool \<Rightarrow> bool \<Rightarrow> fstream \<Rightarrow> fstream result" where
  "fs_setstate e f s =
     (let s' = s\<lparr>fs_eof := fs_eof s \<or> e, fs_fail := fs_fail s \<or> f\<rparr>
      in if fs_throw s' \<and> fs_fail s' then Inl IosFailure else Inr s')"

definition fs_exceptions :: "fstream \<Rightarrow> fstream result" where
  "fs_exceptions s = fs_setstate False False (s\<lparr>fs_throw := True\<rparr>)"

definition fs_sentry :: "fstream \<Rightarrow> (bool \<times> fstream) result" where
  "fs_sentry s =
     (if fs_good s then Inr (True, s) else rbind (fs_setstate False True s) (\<lambda>s'. Inr (False, s')))"

section \<open>Unformatted input\<close>

definition fs_get :: "fstream \<Rightarrow> (byte option \<times> fstream) result" where
  "fs_get s = rbind (fs_sentry s) (\<lambda>(go, s1).
     if \<not> go then Inr (None, s1)
     else case fs_rem s1 of
       b # _ \<Rightarrow> Inr (Some b, s1\<lparr>fs_pos := Suc (fs_pos s1)\<rparr>)
     | [] \<Rightarrow> rbind (fs_setstate True True s1) (\<lambda>s2. Inr (None, s2)))"

definition fs_peek :: "fstream \<Rightarrow> (byte option \<times> fstream) result" where
  "fs_peek s = rbind (fs_sentry s) (\<lambda>(go, s1).
     if \<not> go then Inr (None, s1)
     else case fs_rem s1 of
       b # _ \<Rightarrow> Inr (Some b, s1)
     | [] \<Rightarrow> rbind (fs_setstate True False s1) (\<lambda>s2. Inr (None, s2)))"

text \<open>The standard gives \<^verbatim>\<open>read\<close> of a negative count no meaning.\<close>

definition fs_read :: "64 word \<Rightarrow> fstream \<Rightarrow> (byte list \<times> fstream) result" where
  "fs_read count s =
     (if sint count < 0 then Inl (Undefined OutOfBounds)
      else rbind (fs_sentry s) (\<lambda>(go, s1).
        if \<not> go then Inr ([], s1)
        else let n = unat count; bs = take n (fs_rem s1); s2 = s1\<lparr>fs_pos := fs_pos s1 + length bs\<rparr>
          in if length bs = n then Inr (bs, s2)
             else rbind (fs_setstate True True s2) (\<lambda>s3. Inr (bs, s3))))"

text \<open>
  \<^verbatim>\<open>ignore\<close> extracts to the end for the largest count and nothing for a negative one; running
  into the end sets \<^verbatim>\<open>eofbit\<close> only.
\<close>

definition fs_ignore :: "64 word \<Rightarrow> fstream \<Rightarrow> fstream result" where
  "fs_ignore count s = rbind (fs_sentry s) (\<lambda>(go, s1).
     if \<not> go \<or> sint count \<le> 0 then Inr s1
     else let bs = fs_rem s1
       in if unat count \<le> length bs \<and> sint count \<noteq> 2 ^ 63 - 1
          then Inr (s1\<lparr>fs_pos := fs_pos s1 + unat count\<rparr>)
          else fs_setstate True False (s1\<lparr>fs_pos := fs_pos s1 + length bs\<rparr>))"

definition fs_ops :: "fstream instream" where
  "fs_ops = \<lparr>s_get = fs_get, s_peek = fs_peek, s_read = fs_read, s_eof = fs_eof, s_ignore = fs_ignore\<rparr>"

section \<open>Unformatted output\<close>

text \<open>Writing beyond the end fills the gap with zeros; in append mode every write goes to the end.\<close>

definition fs_store :: "byte list \<Rightarrow> fstream \<Rightarrow> fstream" where
  "fs_store bs s =
     (let d = fs_data s; p = (if fs_app s then length d else fs_pos s)
      in s\<lparr>fs_data := take p d @ replicate (p - length d) 0 @ bs @ drop (p + length bs) d,
           fs_pos := p + length bs\<rparr>)"

definition fs_put :: "byte \<Rightarrow> fstream \<Rightarrow> fstream result" where
  "fs_put b s = rbind (fs_sentry s) (\<lambda>(go, s1). Inr (if go then fs_store [b] s1 else s1))"

definition fs_write :: "byte list \<Rightarrow> 64 word \<Rightarrow> fstream \<Rightarrow> fstream result" where
  "fs_write src count s =
     (if sint count < 0 \<or> length src < unat count then Inl (Undefined OutOfBounds)
      else rbind (fs_sentry s) (\<lambda>(go, s1). Inr (if go then fs_store (take (unat count) src) s1 else s1)))"

definition fs_out_ops :: "fstream outstream" where
  "fs_out_ops = \<lparr>o_put = fs_put, o_write = fs_write\<rparr>"

section \<open>Positioning\<close>

text \<open>
  Offsets are \<^verbatim>\<open>std::streamoff\<close>. A position before the start of the file is refused with
  \<^verbatim>\<open>failbit\<close>. \<^verbatim>\<open>seekg\<close> clears \<^verbatim>\<open>eofbit\<close> first; \<^verbatim>\<open>tellg\<close> is an input function and has its sentry.
\<close>

definition fs_place :: "int \<Rightarrow> fstream \<Rightarrow> fstream result" where
  "fs_place target s =
     (if fs_fail s then Inr s
      else if target < 0 then fs_setstate False True s
      else Inr (s\<lparr>fs_pos := nat target\<rparr>))"

definition fs_seekg :: "int \<Rightarrow> fstream \<Rightarrow> fstream result" where
  "fs_seekg p s =
     rbind (fs_sentry (s\<lparr>fs_eof := False\<rparr>)) (\<lambda>(go, s1). fs_place p s1)"

definition fs_seekg_end :: "int \<Rightarrow> fstream \<Rightarrow> fstream result" where
  "fs_seekg_end off s =
     rbind (fs_sentry (s\<lparr>fs_eof := False\<rparr>)) (\<lambda>(go, s1). fs_place (int (length (fs_data s)) + off) s1)"

definition fs_seekp_end :: "int \<Rightarrow> fstream \<Rightarrow> fstream result" where
  "fs_seekp_end off s = fs_place (int (length (fs_data s)) + off) s"

definition fs_tellg :: "fstream \<Rightarrow> (int \<times> fstream) result" where
  "fs_tellg s = rbind (fs_sentry s) (\<lambda>(go, s1). Inr (if fs_fail s1 then - 1 else int (fs_pos s1), s1))"

definition fs_tellp :: "fstream \<Rightarrow> int" where
  "fs_tellp s = (if fs_fail s then - 1 else int (fs_pos s))"

section \<open>Opening\<close>

text \<open>
  The file system is seen through the one file that is opened: \<open>None\<close> when there is no such
  file. An \<^verbatim>\<open>ifstream\<close> opened on a missing file starts with \<^verbatim>\<open>failbit\<close>. The modes
  \<^verbatim>\<open>in|out|ate|trunc\<close> and \<^verbatim>\<open>in|out|ate|app\<close> create the file.
\<close>

definition ifstream_open :: "byte list option \<Rightarrow> fstream" where
  "ifstream_open file =
     \<lparr>fs_data = (case file of Some d \<Rightarrow> d | None \<Rightarrow> []), fs_pos = 0, fs_eof = False,
      fs_fail = (file = None), fs_throw = False, fs_app = False\<rparr>"

definition fstream_open :: "bool \<Rightarrow> byte list option \<Rightarrow> fstream" where
  "fstream_open overwrite file =
     (let d = (if overwrite then [] else case file of Some d \<Rightarrow> d | None \<Rightarrow> [])
      in \<lparr>fs_data = d, fs_pos = length d, fs_eof = False, fs_fail = False, fs_throw = False,
          fs_app = \<not> overwrite\<rparr>)"

section \<open>File streams meet the stream contracts\<close>

text \<open>
  Reading past the end throws \<^verbatim>\<open>ios_base::failure\<close> with the mask on and is reported through
  the eof bit, hence as \<^verbatim>\<open>early_eof_error\<close>, with the mask off. A file is smaller than the
  count that makes \<^verbatim>\<open>ignore\<close> unlimited. Reading leaves the contents \<open>d\<close> alone.
\<close>

lemmas fs_defs = fs_good_def fs_sentry_def fs_setstate_def Let_def

definition fs_ok :: "byte list \<Rightarrow> fstream \<Rightarrow> bool" where
  "fs_ok d s \<longleftrightarrow> fs_good s \<and> fs_data s = d \<and> length d < 2 ^ 63 - 1"

definition fs_past :: "fstream \<Rightarrow> bool" where
  "fs_past s \<longleftrightarrow> fs_eof s"

lemma fs_sentry_good [simp]: "fs_good s \<Longrightarrow> fs_sentry s = Inr (True, s)"
  by (simp add: fs_sentry_def)

lemma fs_sentry_past:
  "fs_eof s \<Longrightarrow> fs_sentry s = Inl IosFailure \<or>
     (\<exists>s'. fs_sentry s = Inr (False, s') \<and> fs_eof s')"
  by (auto simp: fs_defs)

lemma fs_rem_drop: "drop n (fs_rem s) = fs_rem (s\<lparr>fs_pos := fs_pos s + n\<rparr>)"
  by (simp add: fs_rem_def add.commute)

lemma fs_good_pos [simp]: "fs_good (s\<lparr>fs_pos := p\<rparr>) = fs_good s"
  by (simp add: fs_good_def)

lemma fs_rem_Suc: "fs_rem s = b # bs \<Longrightarrow> fs_rem (s\<lparr>fs_pos := Suc (fs_pos s)\<rparr>) = bs"
  using fs_rem_drop [of 1 s] by simp

interpretation fs: ending_stream fs_ops "fs_ok d" fs_rem fs_past "{EarlyEof, IosFailure}"
proof unfold_locales
  fix s b bs
  assume "fs_ok d s" "fs_rem s = b # bs"
  then show "\<exists>s'. s_get fs_ops s = Inr (Some b, s') \<and> fs_ok d s' \<and> fs_rem s' = bs"
    and "\<exists>s'. s_peek fs_ops s = Inr (Some b, s') \<and> fs_ok d s' \<and> fs_rem s' = b # bs"
    by (simp_all add: fs_ops_def fs_get_def fs_peek_def fs_ok_def fs_rem_Suc)
next
  fix s and n :: "64 word"
  assume h: "fs_ok d s" "0 \<le> sint n" "unat n \<le> length (fs_rem s)"
  then show "\<exists>s'. s_read fs_ops n s = Inr (take (unat n) (fs_rem s), s') \<and> \<not> s_eof fs_ops s' \<and>
      fs_ok d s' \<and> fs_rem s' = drop (unat n) (fs_rem s)"
    by (simp add: fs_ops_def fs_read_def fs_ok_def Let_def fs_rem_drop min_absorb2)
       (simp add: fs_good_def)
  have "unat n < 2 ^ 63 - 1" using h by (auto simp: fs_ok_def fs_rem_def)
  then have "int (unat n) < int (2 ^ 63 - 1)" by (simp only: of_nat_less_iff)
  moreover have "int (2 ^ 63 - 1) = 2 ^ 63 - 1" by simp
  ultimately have max: "sint n \<noteq> 2 ^ 63 - 1" using sint_unat [OF h(2)] by linarith
  show "\<exists>s'. s_ignore fs_ops n s = Inr s' \<and> fs_ok d s' \<and> fs_rem s' = drop (unat n) (fs_rem s)"
  proof (cases "n = 0")
    case True
    then show ?thesis using h by (simp add: fs_ops_def fs_ignore_def fs_ok_def)
  next
    case False
    then have "0 < unat n" by (metis unsigned_eq_0_iff gr0I)
    then have "\<not> sint n \<le> 0" using sint_unat [OF h(2)] by linarith
    then show ?thesis using h max
      by (simp add: fs_ops_def fs_ignore_def fs_ok_def Let_def fs_rem_drop)
  qed
next
  fix s
  assume "fs_ok d s" "fs_rem s = []"
  then show "\<exists>s'. s_peek fs_ops s = Inr (None, s')"
    by (simp add: fs_ops_def fs_peek_def fs_ok_def) (simp add: fs_defs)
next
  fix s
  assume "fs_ok d s \<and> fs_rem s = [] \<or> fs_past s"
  then show "(\<exists>e\<in>{EarlyEof, IosFailure}. s_get fs_ops s = Inl e) \<or>
      (\<exists>s'. s_get fs_ops s = Inr (None, s') \<and> fs_past s')"
    by (auto simp: fs_ops_def fs_get_def fs_ok_def fs_past_def fs_defs)
next
  fix s and n :: "64 word"
  assume h: "fs_ok d s \<and> length (fs_rem s) < unat n \<or> fs_past s" and n: "0 \<le> sint n"
  then show "(\<exists>e\<in>{EarlyEof, IosFailure}. s_read fs_ops n s = Inl e) \<or>
      (\<exists>bs s'. s_read fs_ops n s = Inr (bs, s') \<and> s_eof fs_ops s' \<and> fs_past s')"
    by (auto simp: fs_ops_def fs_read_def fs_ok_def fs_past_def fs_defs)
  show "(\<exists>e\<in>{EarlyEof, IosFailure}. s_ignore fs_ops n s = Inl e) \<or>
      (\<exists>s'. s_ignore fs_ops n s = Inr s' \<and> fs_past s')"
  proof (cases "fs_eof s")
    case True
    then show ?thesis
      by (auto simp: fs_ops_def fs_ignore_def fs_past_def fs_defs)
  next
    case False
    then have ok: "fs_good s" "length (fs_rem s) < unat n" using h by (auto simp: fs_past_def fs_ok_def)
    then have "\<not> sint n \<le> 0" using sint_unat [OF n] by linarith
    then show ?thesis using ok
      by (simp add: fs_ops_def fs_ignore_def fs_past_def Let_def) (simp add: fs_defs)
  qed
qed simp

text \<open>Writing at the end of a file appends.\<close>

definition fs_appending :: "fstream \<Rightarrow> bool" where
  "fs_appending s \<longleftrightarrow> fs_good s \<and> (fs_app s \<or> fs_pos s = length (fs_data s))"

definition fs_cap :: "fstream \<Rightarrow> nat \<Rightarrow> bool" where
  "fs_cap s n \<longleftrightarrow> length (fs_data s) + n < 2 ^ 63 - 1"

lemma fs_store_append:
  assumes "fs_appending s"
  shows "fs_data (fs_store bs s) = fs_data s @ bs" and "fs_appending (fs_store bs s)"
    and "fs_pos (fs_store bs s) = length (fs_data s) + length bs"
  using assms by (auto simp: fs_appending_def fs_store_def Let_def fs_good_def)

interpretation fs_out: output_stream fs_out_ops fs_appending fs_data fs_cap
proof unfold_locales
  fix s b n
  assume "fs_appending s" "fs_cap s (Suc n)"
  then show "\<exists>s'. o_put fs_out_ops b s = Inr s' \<and> fs_appending s' \<and> fs_data s' = fs_data s @ [b] \<and> fs_cap s' n"
    using fs_store_append [of s "[b]"]
    by (simp add: fs_out_ops_def fs_put_def fs_cap_def) (simp add: fs_appending_def)
next
  fix s and bs :: "byte list" and n and k :: "64 word"
  assume "fs_appending s" "fs_cap s (length bs + n)" "unat k = length bs" "0 \<le> sint k"
  then show "\<exists>s'. o_write fs_out_ops bs k s = Inr s' \<and> fs_appending s' \<and> fs_data s' = fs_data s @ bs \<and> fs_cap s' n"
    using fs_store_append [of s bs]
    by (simp add: fs_out_ops_def fs_write_def fs_cap_def) (simp add: fs_appending_def)
qed

end
