(* ===== verification/DataBlockFacts.thy ===== *)
theory DataBlockFacts
  imports DataBlock ErrorDetection FileStream
begin

text \<open>
  Data blocks: a block decodes to what was encoded whatever encoding was chosen, a damaged one
  is refused, \<^verbatim>\<open>write_block\<close> emits a block and a stream of blocks is read back, type by type.
\<close>

section \<open>The checksum of a buffer\<close>

definition good_env :: "environment \<Rightarrow> bool" where
  "good_env env \<longleftrightarrow> documented_crc32 (env_u8 env) (env_u64 env) \<and> unat (env_addr env) < 2 ^ 63 \<and>
     fuel_enough (env_cfg env) \<and> zstd_contract (env_zstd env) \<and> lzo_contract (env_lzo env)"

lemma bytes_at_memory_of:
  assumes "length buf < 2 ^ 64"
  shows "bytes_at (memory_of a buf) a (length buf) = buf"
proof (rule nth_equalityI)
  fix i
  assume i: "i < length (bytes_at (memory_of a buf) a (length buf))"
  then have "i < length buf" by (simp add: bytes_at_def)
  moreover from this have "unat (word_of_nat i :: 64 word) = i"
    using assms unat_word_of_length [where 'a = 64, of i] by simp
  ultimately show "bytes_at (memory_of a buf) a (length buf) ! i = buf ! i"
    by (simp add: bytes_at_def memory_of_def)
qed (simp add: bytes_at_def)

lemma crc32c_buffer_ok:
  assumes "good_env env" and "length buf < 2 ^ 62"
  shows "crc32c_buffer env buf = Inr (crc32c_spec buf)"
proof -
  have u: "unat (size_of_buffer buf) = length buf" using assms(2) by (intro unat_size_of_buffer) simp
  have "unat (env_addr env) + unat (size_of_buffer buf) + 7 < 2 ^ 64"
    using assms u by (simp add: good_env_def)
  from crc32c_eq_spec [OF _ this, of "env_u8 env" "env_u64 env"] assms u show ?thesis
    by (simp add: crc32c_buffer_def good_env_def bytes_at_memory_of)
qed

lemma block_with_ok:
  assumes "good_env env" and "length bs < 2 ^ 62"
  shows "block_with env i enc bs =
    Inr \<lparr>contentType = i, contentEncoding = enc, contentChecksum = crc32c_spec bs, content = bs\<rparr>"
  using assms by (simp add: block_with_def crc32c_buffer_ok)

section \<open>Encoding and decoding\<close>

definition stores :: "environment \<Rightarrow> 16 word \<Rightarrow> byte list \<Rightarrow> encoded_block \<Rightarrow> bool" where
  "stores env i raw b \<longleftrightarrow> contentType b = i \<and> length (content b) \<le> length raw \<and>
     contentChecksum b = crc32c_spec (content b) \<and> decode_block env b = Inr raw"

lemma stores_identity:
  assumes "good_env env" and "length raw < 2 ^ 62"
  shows "stores env i raw \<lparr>contentType = i, contentEncoding = PBSF_ENCODING_IDENTITY,
           contentChecksum = crc32c_spec raw, content = raw\<rparr>"
  using assms by (simp add: stores_def decode_block_def crc32c_buffer_ok)

lemma encode_lzo:
  assumes "good_env env" and "length raw < 2 ^ 31"
  shows "\<exists>b. encode_block env i raw PBSF_ENCODING_LZO = Inr b \<and> stores env i raw b"
proof -
  have "length raw < 2 ^ 62 - 128" using assms(2) by simp
  then obtain out where out: "lzo_compress (env_lzo env) (env_junk env) raw = Inr out"
      "lzo_decompress (env_lzo env) (env_junk env) out = Inr raw"
    using lzo_layout [of "env_lzo env" raw "env_junk env" "env_junk env"] assms by (auto simp: good_env_def)
  show ?thesis
  proof (cases "length out > length raw")
    case True
    then show ?thesis using stores_identity [OF assms(1), of raw i] assms out
      by (simp add: encode_block.simps encoding_defs block_with_ok)
  next
    case False
    then show ?thesis using assms out
      by (simp add: encode_block.simps encoding_defs block_with_ok stores_def decode_block_def crc32c_buffer_ok)
  qed
qed

lemma encode_zstd:
  assumes "good_env env" and "length raw < 2 ^ 31"
  shows "\<exists>b. encode_block env i raw PBSF_ENCODING_ZSTD = Inr b \<and> stores env i raw b"
proof -
  obtain out where out: "zstd_compress (env_zstd env) (env_junk env) raw = Inr out"
      "zstd_decompress (env_zstd env) (env_junk env) out = Inr raw"
    using zstd_layout [of "env_zstd env" raw "env_junk env" "env_junk env"] assms by (auto simp: good_env_def)
  show ?thesis
  proof (cases "length out > length raw")
    case True
    then show ?thesis using stores_identity [OF assms(1), of raw i] assms out
      by (simp add: encode_block.simps encoding_defs block_with_ok)
  next
    case False
    then show ?thesis using assms out
      by (simp add: encode_block.simps encoding_defs block_with_ok stores_def decode_block_def crc32c_buffer_ok)
  qed
qed

lemma encode_stores:
  assumes "good_env env" and "length raw < 2 ^ 31"
  shows "\<exists>b. encode_block env i raw encoding = Inr b \<and> stores env i raw b"
proof -
  consider "encoding = PBSF_ENCODING_IDENTITY" | "encoding = PBSF_ENCODING_LZO"
    | "encoding \<noteq> PBSF_ENCODING_IDENTITY" "encoding \<noteq> PBSF_ENCODING_LZO" by blast
  then show ?thesis
  proof cases
    case 1
    then show ?thesis using stores_identity [OF assms(1), of raw i] assms
      by (simp add: encode_block.simps block_with_ok)
  next
    case 2
    then show ?thesis using encode_lzo [OF assms] by simp
  next
    case 3
    have "encode_block env i raw encoding = encode_block env i raw PBSF_ENCODING_ZSTD"
      by (subst encode_block.simps) (use 3 in \<open>simp add: encode_block.simps encoding_defs\<close>)
    then show ?thesis using encode_zstd [OF assms] by simp
  qed
qed

lemma decode_damaged:
  assumes "good_env env" and "length c' < 2 ^ 62" and "contentChecksum b \<noteq> crc32c_spec c'"
  shows "decode_block env (b\<lparr>content := c'\<rparr>) = Inl BadChecksum"
  using assms by (simp add: decode_block_def crc32c_buffer_ok)

section \<open>Blocks as objects\<close>

lemma byte_of_val [simp]: "byte_of (byte_val b) = b"
  by (simp add: byte_of_def byte_val_def)

lemma block_of_val [simp]: "block_of (block_val b) = b"
  by (simp add: block_of_def block_val_def comp_def)

lemma encode_bytes: "concat (map (encode TByte) (map byte_val bs)) = bs"
  by (induction bs) (simp_all add: byte_val_def prim_val_bytes_def)

definition block_bytes :: "encoded_block \<Rightarrow> byte list" where
  "block_bytes b = mem_bytes (contentType b) @ mem_bytes (contentEncoding b) @
     mem_bytes (contentChecksum b) @ vuint_bytes (length (content b)) @ content b"

lemma encode_block_val: "encode block_ty (block_val b) = block_bytes b"
  unfolding block_ty_def block_val_def buffer_ty_def block_bytes_def
  using encode_bytes by (simp add: enc_all_def apply_each_def elems_of_def prim_val_bytes_def)

lemma block_encodable:
  assumes "length (content b) < 2 ^ 62"
  shows "encodable block_ty (block_val b)"
proof -
  have "length (vuint_bytes (length (content b))) \<le> 10"
    by (rule length_vuint_64) (use assms in simp)
  then have "length (encode block_ty (block_val b)) < 2 ^ 63"
    using assms by (simp add: encode_block_val block_bytes_def)
  then show ?thesis
    using assms by (simp add: encodable_def block_ty_def block_val_def buffer_ty_def has_type.simps
        apply_each_def list_all_iff byte_val_def)
qed

section \<open>Writing a block\<close>

definition storable :: "ctype \<Rightarrow> val \<Rightarrow> bool" where
  "storable T v \<longleftrightarrow> encodable (c_ty T) v \<and> length (encode (c_ty T) v) < 2 ^ 31"

definition stored_block :: "environment \<Rightarrow> (16 word \<times> ctype) list \<Rightarrow> ctype \<Rightarrow> val \<Rightarrow> encoded_block" where
  "stored_block env entries T v =
     projr (encode_block env (type_id T entries) (encode (c_ty T) v) (env_preferred_encoding env))"

definition stored_bytes :: "environment \<Rightarrow> (16 word \<times> ctype) list \<Rightarrow> ctype \<times> val \<Rightarrow> byte list" where
  "stored_bytes env entries item = block_bytes (stored_block env entries (fst item) (snd item))"

lemma stored_block_ok:
  assumes "good_env env" and "storable T v"
  shows "encode_block env (type_id T entries) (encode (c_ty T) v) (env_preferred_encoding env) =
      Inr (stored_block env entries T v)"
    and "stores env (type_id T entries) (encode (c_ty T) v) (stored_block env entries T v)"
  using encode_stores [OF assms(1), of "encode (c_ty T) v" "type_id T entries" "env_preferred_encoding env"]
    assms(2) by (auto simp: stored_block_def storable_def)

lemma stored_block_encodable:
  assumes "good_env env" and "storable T v"
  shows "encodable block_ty (block_val (stored_block env entries T v))"
  using stored_block_ok(2) [OF assms, of entries] assms(2)
  by (intro block_encodable) (simp add: stores_def storable_def)

context output_stream begin

lemma emits_write_block:
  assumes "good_env env" and "storable T v"
  shows "emits ok out cap (write_block env ops entries T v) (stored_bytes env entries (T, v))"
proof -
  have "write_block env ops entries T v =
      serialize (env_cfg env) ops block_ty (block_val (stored_block env entries T v))"
    using stored_block_ok(1) [OF assms, of entries] to_buffer_encode [of "c_ty T" v] assms(2)
    by (simp add: write_block_def [abs_def] storable_def)
  then show ?thesis
    using emits_serialize [OF stored_block_encodable [OF assms, of entries], of "env_cfg env"]
    by (simp add: stored_bytes_def encode_block_val)
qed

end

section \<open>Reading blocks\<close>

text \<open>
  The iterator over the objects of a stream shows the object it holds and then the ones left
  in the stream.
\<close>

definition parse_iter_seq ::
  "('s \<Rightarrow> bool) \<Rightarrow> ('s \<Rightarrow> byte list) \<Rightarrow> ty \<Rightarrow> parse_iter \<Rightarrow> 's \<Rightarrow> parse_iter \<Rightarrow> val list \<Rightarrow> bool" where
  "parse_iter_seq ok rem t i w e vs \<longleftrightarrow> \<not> pi_live e \<and>
     (if pi_live i
      then \<exists>us. vs = pi_value i # us \<and> ok w \<and> rem w = concat (map (encode t) us) \<and> (\<forall>u \<in> set us. encodable t u)
      else vs = [])"

lemma parse_iter_live: "pi_live i \<Longrightarrow> i = \<lparr>pi_live = True, pi_value = pi_value i\<rparr>"
  by simp

context ending_stream begin

lemma parse_incr_seq:
  assumes "fuel_enough cfg" and "ok w" and "rem w = concat (map (encode t) us)"
    and "\<forall>u \<in> set us. encodable t u" and "\<not> pi_live e"
  shows "\<exists>i' w'. parse_iter_incr cfg ops t \<lparr>pi_live = True, pi_value = x\<rparr> w = Inr (i', w') \<and>
           parse_iter_seq ok rem t i' w' e us"
proof (cases us)
  case Nil
  then obtain w' where "parse_iter_incr cfg ops t \<lparr>pi_live = True, pi_value = x\<rparr> w =
      Inr (\<lparr>pi_live = False, pi_value = x\<rparr>, w')"
    using iter_incr_end [of w cfg t x] assms by auto
  then show ?thesis using Nil assms(5) by (simp add: parse_iter_seq_def)
next
  case (Cons u us')
  then obtain w' where "parse_iter_incr cfg ops t \<lparr>pi_live = True, pi_value = x\<rparr> w =
      Inr (\<lparr>pi_live = True, pi_value = u\<rparr>, w') \<and> ok w' \<and> rem w' = concat (map (encode t) us')"
    using iter_incr_next [of cfg t u w "concat (map (encode t) us')" x] assms by auto
  then show ?thesis using Cons assms(4,5) by (simp add: parse_iter_seq_def)
qed

lemma parse_iterator_seq:
  assumes "fuel_enough cfg"
  shows "input_iterator (parse_iterator_ops cfg ops t) (parse_iter_seq ok rem t)"
proof unfold_locales
  fix i w e v vs
  show "parse_iter_seq ok rem t i w e [] \<Longrightarrow> it_eq (parse_iterator_ops cfg ops t) i e"
    by (auto simp: parse_iter_seq_def parse_iterator_ops_def split: if_splits)
  assume h: "parse_iter_seq ok rem t i w e (v # vs)"
  then have live: "pi_live i" "\<not> pi_live e" "pi_value i = v" "ok w" "rem w = concat (map (encode t) vs)"
      "\<forall>u \<in> set vs. encodable t u"
    by (auto simp: parse_iter_seq_def split: if_splits)
  show "\<not> it_eq (parse_iterator_ops cfg ops t) i e"
    using live by (simp add: parse_iterator_ops_def)
  show "\<exists>i'. it_deref (parse_iterator_ops cfg ops t) i = Inr (v, i') \<and> parse_iter_seq ok rem t i' w e (v # vs)"
    using live h by (simp add: parse_iterator_ops_def)
  show "\<exists>i' w'. it_incr (parse_iterator_ops cfg ops t) i w = Inr (i', w') \<and> parse_iter_seq ok rem t i' w' e vs"
    using parse_incr_seq [OF assms live(4,5,6,2), of v] parse_iter_live [OF live(1)]
    by (simp add: parse_iterator_ops_def live(3))
qed

end

lemma length_stored_bytes:
  assumes "good_env env" and "storable T v"
  shows "length (stored_bytes env entries (T, v)) < 2 ^ 32"
proof -
  let ?b = "stored_block env entries T v"
  have c: "length (content ?b) < 2 ^ 31"
    using stored_block_ok(2) [OF assms, of entries] assms(2) by (simp add: stores_def storable_def)
  then have "length (vuint_bytes (length (content ?b))) \<le> 10" by (intro length_vuint_64) simp
  with c show ?thesis by (simp add: stored_bytes_def block_bytes_def)
qed

section \<open>Realms\<close>

definition realm_ok :: "(16 word \<times> ctype) list \<Rightarrow> bool" where
  "realm_ok entries \<longleftrightarrow> distinct (map fst entries) \<and> distinct (map (\<lambda>e. c_name (snd e)) entries)"

lemma deduce_base_unique:
  assumes "distinct (map f entries)" and "e \<in> set entries"
  shows "deduce_base (\<lambda>x. f x = f e) entries = Some e"
proof -
  have "filter (\<lambda>x. f x = f e) entries = [e]"
    using assms
  proof (induction entries)
    case (Cons a entries)
    then show ?case by (cases "a = e") (auto simp: filter_empty_conv image_iff)
  qed simp
  then show ?thesis by (simp add: deduce_base_def)
qed

lemma lookup_id_entry:
  assumes "realm_ok entries" and "(i, T) \<in> set entries"
  shows "lookup_id T entries = Some i" and "type_id T entries = i" and "lookup_type i entries = Some T"
proof -
  show "lookup_id T entries = Some i"
    using deduce_base_unique [of "\<lambda>e. c_name (snd e)" entries "(i, T)"] assms
    by (simp add: lookup_id_def realm_ok_def)
  then show "type_id T entries = i" by (simp add: type_id_def)
  show "lookup_type i entries = Some T"
    using deduce_base_unique [of fst entries "(i, T)"] assms by (simp add: lookup_type_def realm_ok_def)
qed

lemma type_id_inj:
  assumes "realm_ok entries" and "T \<in> snd ` set entries" and "U \<in> snd ` set entries"
  shows "type_id T entries = type_id U entries \<longleftrightarrow> T = U"
proof -
  obtain i j where "(i, T) \<in> set entries" "(j, U) \<in> set entries" using assms(2,3) by auto
  then show ?thesis using lookup_id_entry [OF assms(1)] by (metis option.inject)
qed

section \<open>A stream of blocks\<close>

lemma parse_from_stored_block:
  assumes "good_env env" and "storable T v"
  shows "parse_from_block env T (block_val (stored_block env entries T v)) = Inr v"
  using stored_block_ok(2) [OF assms, of entries] assms
    from_string_encode [of "c_ty T" v "env_cfg env" "[]"]
  by (simp add: parse_from_block_def stores_def good_env_def storable_def from_buffer_string)

lemma check_id_stored:
  assumes "good_env env" and "storable U v" and "realm_ok entries"
    and "T \<in> snd ` set entries" and "U \<in> snd ` set entries"
  shows "check_id (type_id T entries) (block_val (stored_block env entries U v)) \<longleftrightarrow> U = T"
  using stored_block_ok(2) [OF assms(1,2), of entries] type_id_inj [OF assms(3,5,4)]
  by (simp add: check_id_def stores_def)

definition items_ok :: "(16 word \<times> ctype) list \<Rightarrow> (ctype \<times> val) list \<Rightarrow> bool" where
  "items_ok entries items \<longleftrightarrow> (\<forall>(U, v) \<in> set items. U \<in> snd ` set entries \<and> storable U v)"

definition items_of :: "ctype \<Rightarrow> (ctype \<times> val) list \<Rightarrow> val list" where
  "items_of T items = map snd (filter (\<lambda>item. fst item = T) items)"

definition stored_val :: "environment \<Rightarrow> (16 word \<times> ctype) list \<Rightarrow> ctype \<times> val \<Rightarrow> val" where
  "stored_val env entries item = block_val (stored_block env entries (fst item) (snd item))"

lemma stored_vals_bytes:
  "concat (map (encode block_ty) (map (stored_val env entries) items)) = concat (map (stored_bytes env entries) items)"
  by (simp add: stored_val_def stored_bytes_def [abs_def] encode_block_val comp_def)

lemma stored_val_pair: "stored_val env entries (U, v) = block_val (stored_block env entries U v)"
  by (simp add: stored_val_def)

lemma items_of_Cons: "items_of T ((U, v) # items) = (if U = T then v # items_of T items else items_of T items)"
  by (simp add: items_of_def)

lemma filter_stored:
  assumes "good_env env" and "realm_ok entries" and "T \<in> snd ` set entries" and "items_ok entries items"
  shows "map (parse_from_block env T)
           (filter (check_id (type_id T entries)) (map (stored_val env entries) items)) =
         map Inr (items_of T items)"
  using assms(4)
proof (induction items)
  case (Cons item items)
  obtain U v where item: "item = (U, v)" by fastforce
  then have U: "U \<in> snd ` set entries" "storable U v" using Cons.prems by (auto simp: items_ok_def)
  have "map (parse_from_block env T)
           (filter (check_id (type_id T entries)) (map (stored_val env entries) items)) =
         map Inr (items_of T items)"
    using Cons by (simp add: items_ok_def)
  then show ?case
    using check_id_stored [OF assms(1) U(2) assms(2,3) U(1)] parse_from_stored_block [OF assms(1) U(2)]
    by (cases "U = T") (simp_all add: item items_of_Cons stored_val_pair)
qed (simp add: items_of_def)

definition skipping_seq ::
  "('s \<Rightarrow> bool) \<Rightarrow> ('s \<Rightarrow> byte list) \<Rightarrow> environment \<Rightarrow> (16 word \<times> ctype) list \<Rightarrow> ctype \<Rightarrow>
   skipping_read_iterator \<Rightarrow> 's \<Rightarrow> skipping_read_iterator \<Rightarrow> val list \<Rightarrow> bool" where
  "skipping_seq ok rem env entries T =
     mapping_seq (filtering_seq (fuel (env_cfg env)) (parse_iter_seq ok rem block_ty) (check_id (type_id T entries)))
       (parse_from_block env T)"

context ending_stream begin

lemma skipping_iterator:
  assumes "good_env env"
  shows "input_iterator (skipping_read_ops env ops entries T) (skipping_seq ok rem env entries T)"
proof -
  have "fuel_enough (env_cfg env)" using assms by (simp add: good_env_def)
  note pit = parse_iterator_seq [OF this, of block_ty]
  show ?thesis
    unfolding skipping_read_ops_def skipping_seq_def
    by (rule input_iterator.mapping_iterator_seq [OF input_iterator.filtering_iterator_seq [OF pit]])
qed

lemma skipping_read_start:
  assumes env: "good_env env" and "realm_ok entries" and "T \<in> snd ` set entries"
    and items: "items_ok entries items" and s: "ok s" "rem s = concat (map (stored_bytes env entries) items)"
    and fuel: "length items < fuel (env_cfg env)"
  shows "\<exists>i s1. skipping_read_begin env ops entries T s = Inr (i, s1) \<and>
      skipping_seq ok rem env entries T i s1 skipping_read_end (items_of T items)"
proof -
  let ?cfg = "env_cfg env" and ?vals = "map (stored_val env entries) items"
  let ?seq = "parse_iter_seq ok rem block_ty" and ?pops = "parse_iterator_ops (env_cfg env) ops block_ty"
  let ?pred = "check_id (type_id T entries)" and ?k = "fuel (env_cfg env)"
  have cfg: "fuel_enough ?cfg" using env by (simp add: good_env_def)
  have enc: "\<forall>u \<in> set ?vals. encodable block_ty u"
    using items stored_block_encodable [OF env] by (auto simp: items_ok_def stored_val_def)
  have bytes: "rem s = concat (map (encode block_ty) ?vals)" by (simp only: stored_vals_bytes s(2))
  have "\<not> pi_live parse_end" by (simp add: parse_end_def)
  from parse_incr_seq [OF cfg s(1) bytes enc this, of "value_init block_ty"]
  obtain it s1 where it: "parse_iter_begin ?cfg ops block_ty s = Inr (it, s1)" "?seq it s1 parse_end ?vals"
    by (auto simp: parse_iter_begin_def)
  let ?fe = "\<lparr>fi_it = parse_end, fi_end = parse_end\<rparr>"
  have "length ?vals < ?k" using fuel by simp
  from input_iterator.make_filtering_seq [OF parse_iterator_seq [OF cfg] it(2) this, of ?fe ?pred]
  obtain fit s2 where fit: "make_filtering_iterator ?k ?pops ?pred it parse_end s1 = Inr (fit, s2)"
      "filtering_seq ?k ?seq ?pred fit s2 ?fe (filter ?pred ?vals)" by auto
  have "skipping_seq ok rem env entries T (make_mapping_iterator fit) s2 skipping_read_end (items_of T items)"
    using fit(2) filter_stored [OF env assms(2,3) items]
    by (auto simp: skipping_seq_def mapping_seq_def skipping_read_end_def make_mapping_iterator_def)
  then show ?thesis using it fit by (simp add: skipping_read_begin_def)
qed

lemma skipping_read_seq:
  assumes "good_env env" and "realm_ok entries" and "T \<in> snd ` set entries"
    and "items_ok entries items" and "ok s" and "rem s = concat (map (stored_bytes env entries) items)"
    and "length items < fuel (env_cfg env)" and "length items < k"
  shows "\<exists>i s1 s2. skipping_read_begin env ops entries T s = Inr (i, s1) \<and>
      it_collect k (skipping_read_ops env ops entries T) i skipping_read_end s1 = Inr (items_of T items, s2)"
proof -
  obtain i s1 where i: "skipping_read_begin env ops entries T s = Inr (i, s1)"
      "skipping_seq ok rem env entries T i s1 skipping_read_end (items_of T items)"
    using skipping_read_start [OF assms(1-7)] by blast
  have "length (items_of T items) < k" using le_less_trans [OF length_filter_le assms(8)] by (simp add: items_of_def)
  from input_iterator.collect_all [OF skipping_iterator [OF assms(1)] i(2) this] i(1) show ?thesis by blast
qed

end

end
