(* ===== verification/SequentialFile.thy ===== *)
theory SequentialFile
  imports DataBlockFacts
begin

text \<open>
  Sequential files (include/bs3/pbsf: file-header.hh, range-api.hh): a file is a header with the
  magic number and the realm, followed by blocks. Opening for reading and for writing, with and
  without overwriting, the iterators over a file, and what a file holds after writing sessions.
\<close>

section \<open>file-header.hh\<close>

definition check_file :: "environment \<Rightarrow> 's instream \<Rightarrow> realm \<Rightarrow> 's \<Rightarrow> (bool \<times> 's) result" where
  "check_file env ops r s =
     rbind (parse (env_cfg env) ops header_ty s) (\<lambda>(v, s').
       Inr (header_eq \<lparr>fh_magic = magic, fh_realm = rl_id r\<rparr> (header_of v), s'))"

definition write_header :: "environment \<Rightarrow> 'w outstream \<Rightarrow> realm \<Rightarrow> 'w \<Rightarrow> 'w result" where
  "write_header env ops r w =
     serialize (env_cfg env) ops header_ty (header_val \<lparr>fh_magic = magic, fh_realm = rl_id r\<rparr>) w"

section \<open>range-api.hh\<close>

text \<open>
  A \<^verbatim>\<open>sequential_file\<close> is a shared pointer to its stream: the state of the stream is the state of
  the file. The overloads on \<^verbatim>\<open>std::istream\<close> and \<^verbatim>\<open>std::ostream\<close> get a stream opened by the caller.
\<close>

definition open_sequential_input_stream :: "environment \<Rightarrow> fstream \<Rightarrow> realm \<Rightarrow> fstream result" where
  "open_sequential_input_stream env s r =
     rbind (fs_exceptions s) (\<lambda>s1.
     rbind (check_file env fs_ops r s1) (\<lambda>(same, s2).
       if \<not> same then Inl UnknownRealm else Inr s2))"

definition open_sequential_input_file :: "environment \<Rightarrow> byte list option \<Rightarrow> realm \<Rightarrow> fstream result" where
  "open_sequential_input_file env file r =
     rbind (fs_exceptions (ifstream_open file)) (\<lambda>s1.
     rbind (check_file env fs_ops r s1) (\<lambda>(same, s2).
       if \<not> same then Inl UnknownRealm else Inr s2))"

definition open_sequential_output_file ::
  "environment \<Rightarrow> byte list option \<Rightarrow> realm \<Rightarrow> bool \<Rightarrow> fstream result" where
  "open_sequential_output_file env file r overwrite =
     rbind (fs_exceptions (fstream_open overwrite file)) (\<lambda>s1.
     rbind (fs_tellg s1) (\<lambda>(p, s2).
       if p = 0 then write_header env fs_out_ops r s2
       else rbind (fs_seekg 0 s2) (\<lambda>s3.
            rbind (check_file env fs_ops r s3) (\<lambda>(same, s4).
              if \<not> same then Inl UnknownRealm else fs_seekp_end 0 s4))))"

definition open_sequential_output_stream :: "environment \<Rightarrow> fstream \<Rightarrow> realm \<Rightarrow> fstream result" where
  "open_sequential_output_stream env s r = rbind (fs_exceptions s) (write_header env fs_out_ops r)"

definition read_one_type ::
  "environment \<Rightarrow> realm \<Rightarrow> ctype \<Rightarrow> fstream \<Rightarrow> (skipping_read_iterator range \<times> fstream) result" where
  "read_one_type env r T s =
     rbind (skipping_read_begin env fs_ops (rl_entries r) T s) (\<lambda>(i, s').
       Inr (make_range i skipping_read_end, s'))"

definition write_iterator_ops :: "environment \<Rightarrow> realm \<Rightarrow> (fstream, ctype \<times> val) out_ops" where
  "write_iterator_ops env r = heterogeneous_write_ops env fs_out_ops (rl_entries r)"

section \<open>Whole sessions\<close>

text \<open>Open a file, write the items and close it; open a file and read all objects of a type.\<close>

definition write_session ::
  "environment \<Rightarrow> realm \<Rightarrow> bool \<Rightarrow> (ctype \<times> val) list \<Rightarrow> byte list option \<Rightarrow> byte list result" where
  "write_session env r overwrite items file =
     rbind (open_sequential_output_file env file r overwrite) (\<lambda>s.
     rbind (out_copy (write_iterator_ops env r) items s) (\<lambda>s'. Inr (fs_data s')))"

definition read_session :: "environment \<Rightarrow> realm \<Rightarrow> ctype \<Rightarrow> byte list option \<Rightarrow> val list result" where
  "read_session env r T file =
     rbind (open_sequential_input_file env file r) (\<lambda>s.
     rbind (read_one_type env r T s) (\<lambda>(rg, s1).
     rbind (range_elems (fuel (env_cfg env)) (skipping_read_ops env fs_ops (rl_entries r) T) rg s1) (\<lambda>(vs, s2).
       Inr vs)))"

text \<open>Sessions one after the other; the first may find no file.\<close>

fun write_sessions ::
  "environment \<Rightarrow> realm \<Rightarrow> (bool \<times> (ctype \<times> val) list) list \<Rightarrow> byte list option \<Rightarrow> byte list option result" where
  "write_sessions env r [] file = Inr file"
| "write_sessions env r ((overwrite, items) # rest) file =
     rbind (write_session env r overwrite items file) (\<lambda>d. write_sessions env r rest (Some d))"

text \<open>What they leave behind: the items since the last session that overwrote the file.\<close>

fun left_behind :: "(bool \<times> 'a list) list \<Rightarrow> 'a list \<Rightarrow> 'a list" where
  "left_behind [] old = old"
| "left_behind ((overwrite, items) # rest) old = left_behind rest ((if overwrite then [] else old) @ items)"

section \<open>The header\<close>

definition header_bytes :: "32 word \<Rightarrow> byte list" where
  "header_bytes i = mem_bytes magic @ mem_bytes i"

lemma length_header_bytes [simp]: "length (header_bytes i) = 8"
  by (simp add: header_bytes_def)

lemma encode_header: "encode header_ty (header_val \<lparr>fh_magic = magic, fh_realm = i\<rparr>) = header_bytes i"
  by (simp add: header_ty_def header_val_def header_bytes_def apply_each_def enc_all_def elems_of_def prim_val_bytes_def)

lemma header_encodable: "encodable header_ty (header_val \<lparr>fh_magic = magic, fh_realm = i\<rparr>)"
proof -
  have "length (encode header_ty (header_val \<lparr>fh_magic = magic, fh_realm = i\<rparr>)) < 2 ^ 63"
    by (simp add: encode_header)
  then show ?thesis by (simp add: encodable_def header_ty_def header_val_def has_type.simps apply_each_def)
qed

lemma header_of_val [simp]: "header_of (header_val h) = h"
  by (simp add: header_of_def header_val_def)

text \<open>The magic number is the bytes \<^verbatim>\<open>pbs3\<close>.\<close>

lemma char_words: "char_word (CHR ''p'') = 0x70" "char_word (CHR ''b'') = 0x62" "char_word (CHR ''s'') = 0x73"
  "char_word (CHR ''3'') = 0x33"
  by (simp_all add: char_word_def)
lemma magic_eq: "magic = 0x33736270"
  by (simp add: magic_def char_words push_bit_eq_mult)
lemma le_bytes_4: "le_bytes 4 x = [word_of_nat x, word_of_nat (x div 256), word_of_nat (x div 65536), word_of_nat (x div 16777216)]"
proof -
  have "(4::nat) = Suc (Suc (Suc (Suc 0)))" by simp
  then show ?thesis by (simp only: le_bytes.simps) (simp add: div_mult2_eq [symmetric])
qed
lemma magic_bytes: "mem_bytes magic = [0x70, 0x62, 0x73, 0x33]"
  unfolding magic_eq mem_bytes_def by (simp add: le_bytes_4 of_nat_eq_iff)

context output_stream begin

lemma emits_write_header: "emits ok out cap (write_header env ops r) (header_bytes (rl_id r))"
  using emits_serialize [OF header_encodable, of "env_cfg env" "rl_id r"]
  by (simp add: write_header_def [abs_def] encode_header)

lemma out_copy_blocks:
  assumes "good_env env"
  shows "ok w \<Longrightarrow> \<forall>(U, v) \<in> set items. storable U v \<Longrightarrow>
    cap w (length (concat (map (stored_bytes env entries) items)) + n) \<Longrightarrow>
    \<exists>w'. out_copy (heterogeneous_write_ops env ops entries) items w = Inr w' \<and> ok w' \<and>
         out w' = out w @ concat (map (stored_bytes env entries) items) \<and> cap w' n"
proof (induction items arbitrary: w)
  case Nil
  then show ?case by simp
next
  case (Cons item items)
  obtain U v where item: "item = (U, v)" by fastforce
  have "storable U v" using Cons.prems item by auto
  note e = emits_write_block [OF assms this, of entries]
  let ?m = "length (concat (map (stored_bytes env entries) items)) + n"
  have "cap w (length (stored_bytes env entries (U, v)) + ?m)" using Cons.prems(3) item by (simp add: add.assoc)
  from emitsD [OF e Cons.prems(1) this]
  obtain w1 where w1: "write_block env ops entries U v w = Inr w1" "ok w1"
      "out w1 = out w @ stored_bytes env entries (U, v)" "cap w1 ?m" by blast
  from Cons.IH [OF w1(2) _ w1(4)] Cons.prems(2) w1 show ?case
    by (auto simp: item heterogeneous_write_ops_def mixin_incr_def)
qed

end

context input_stream begin

lemma parses_check_file:
  assumes "fuel_enough (env_cfg env)"
  shows "parses ok rem (check_file env ops r) (rl_id r = i) (header_bytes i)"
  using parses_map [OF parses_parse [OF assms header_encodable, of i],
      of "\<lambda>v. header_eq \<lparr>fh_magic = magic, fh_realm = rl_id r\<rparr> (header_of v)"]
  by (simp add: check_file_def [abs_def] encode_header header_eq_def)

end

section \<open>Opening\<close>

lemma fs_exceptions_ok: "\<not> fs_fail s \<Longrightarrow> fs_exceptions s = Inr (s\<lparr>fs_throw := True\<rparr>)"
  by (simp add: fs_exceptions_def fs_setstate_def Let_def)

lemma open_new_file:
  assumes "overwrite \<or> file \<in> {None, Some []}"
  shows "\<exists>s. open_sequential_output_file env file r overwrite = Inr s \<and> fs_appending s \<and>
             fs_data s = header_bytes (rl_id r)"
proof -
  define s0 where "s0 = (fstream_open overwrite file)\<lparr>fs_throw := True\<rparr>"
  have s0: "fs_data s0 = []" "fs_pos s0 = 0" "fs_good s0"
    using assms by (auto simp: s0_def fstream_open_def Let_def fs_good_def)
  then have "fs_appending s0" "fs_cap s0 (length (header_bytes (rl_id r)) + 0)"
    by (simp_all add: fs_appending_def fs_cap_def)
  from emitsD [OF fs_out.emits_write_header this]
  obtain s where "write_header env fs_out_ops r s0 = Inr s" "fs_appending s" "fs_data s = header_bytes (rl_id r)"
    using s0 by auto
  moreover have "fs_exceptions (fstream_open overwrite file) = Inr s0"
    unfolding s0_def by (rule fs_exceptions_ok) (simp add: fstream_open_def Let_def)
  moreover have "fs_tellg s0 = Inr (0, s0)" using s0 by (simp add: fs_tellg_def fs_good_def)
  ultimately show ?thesis by (simp add: open_sequential_output_file_def)
qed

lemma check_header_at_start:
  assumes "fuel_enough (env_cfg env)" and "fs_ok d s" and "fs_pos s = 0" and "d = header_bytes i @ rest"
  shows "\<exists>s'. check_file env fs_ops r s = Inr (rl_id r = i, s') \<and> fs_ok d s' \<and> fs_rem s' = rest"
proof -
  have "fs_rem s = header_bytes i @ rest" using assms by (simp add: fs_rem_def fs_ok_def)
  from parsesD [OF fs.parses_check_file [OF assms(1)] assms(2) this] show ?thesis by blast
qed

lemma reopen_file:
  assumes "fuel_enough (env_cfg env)" and d: "d = header_bytes i @ rest" and len: "length d < 2 ^ 63 - 1"
  shows "rl_id r = i \<Longrightarrow> \<exists>s. open_sequential_output_file env (Some d) r False = Inr s \<and>
            fs_appending s \<and> fs_data s = d"
    and "rl_id r \<noteq> i \<Longrightarrow> open_sequential_output_file env (Some d) r False = Inl UnknownRealm"
proof -
  define s0 where "s0 = (fstream_open False (Some d))\<lparr>fs_throw := True\<rparr>"
  have s0: "fs_data s0 = d" "fs_pos s0 = length d" "fs_good s0"
    by (simp_all add: s0_def fstream_open_def Let_def fs_good_def)
  have exc: "fs_exceptions (fstream_open False (Some d)) = Inr s0"
    unfolding s0_def by (rule fs_exceptions_ok) (simp add: fstream_open_def Let_def)
  have tell: "fs_tellg s0 = Inr (int (length d), s0)" and "length d \<noteq> 0"
    using s0 d by (simp_all add: fs_tellg_def fs_good_def)
  moreover have "s0\<lparr>fs_eof := False\<rparr> = s0" using s0(3) by (simp add: fs_good_def)
  then have seek: "fs_seekg 0 s0 = Inr (s0\<lparr>fs_pos := 0\<rparr>)"
    using s0(3) by (simp add: fs_seekg_def fs_place_def fs_good_def)
  have "fs_ok d (s0\<lparr>fs_pos := 0\<rparr>)" using s0 len by (simp add: fs_ok_def)
  from check_header_at_start [OF assms(1) this _ d, of r]
  obtain s' where chk: "check_file env fs_ops r (s0\<lparr>fs_pos := 0\<rparr>) = Inr (rl_id r = i, s')" "fs_ok d s'" by auto
  note steps = open_sequential_output_file_def exc tell seek chk(1)
  show "rl_id r \<noteq> i \<Longrightarrow> open_sequential_output_file env (Some d) r False = Inl UnknownRealm"
    using \<open>length d \<noteq> 0\<close> by (simp add: steps)
  show "rl_id r = i \<Longrightarrow> \<exists>s. open_sequential_output_file env (Some d) r False = Inr s \<and>
            fs_appending s \<and> fs_data s = d"
    using \<open>length d \<noteq> 0\<close> chk(2)
    by (simp add: steps fs_seekp_end_def fs_place_def fs_ok_def fs_good_def fs_appending_def)
qed

lemma open_for_reading:
  assumes "fuel_enough (env_cfg env)" and d: "d = header_bytes i @ rest" and len: "length d < 2 ^ 63 - 1"
  shows "rl_id r = i \<Longrightarrow> \<exists>s. open_sequential_input_file env (Some d) r = Inr s \<and> fs_ok d s \<and> fs_rem s = rest"
    and "rl_id r \<noteq> i \<Longrightarrow> open_sequential_input_file env (Some d) r = Inl UnknownRealm"
proof -
  define s0 where "s0 = (ifstream_open (Some d))\<lparr>fs_throw := True\<rparr>"
  have "fs_ok d s0" "fs_pos s0 = 0"
    using len by (simp_all add: s0_def ifstream_open_def fs_good_def fs_ok_def)
  from check_header_at_start [OF assms(1) this d, of r]
  obtain s' where chk: "check_file env fs_ops r s0 = Inr (rl_id r = i, s')" "fs_ok d s'" "fs_rem s' = rest" by auto
  have exc: "fs_exceptions (ifstream_open (Some d)) = Inr s0"
    unfolding s0_def by (rule fs_exceptions_ok) (simp add: ifstream_open_def)
  show "rl_id r \<noteq> i \<Longrightarrow> open_sequential_input_file env (Some d) r = Inl UnknownRealm"
    by (simp add: open_sequential_input_file_def exc chk)
  show "rl_id r = i \<Longrightarrow> \<exists>s. open_sequential_input_file env (Some d) r = Inr s \<and> fs_ok d s \<and> fs_rem s = rest"
    by (simp add: open_sequential_input_file_def exc chk)
qed

lemma open_missing_file: "open_sequential_input_file env None r = Inl IosFailure"
  by (simp add: open_sequential_input_file_def ifstream_open_def fs_exceptions_def fs_setstate_def)

section \<open>What a file holds\<close>

definition file_bytes :: "environment \<Rightarrow> realm \<Rightarrow> (ctype \<times> val) list \<Rightarrow> byte list" where
  "file_bytes env r items = header_bytes (rl_id r) @ concat (map (stored_bytes env (rl_entries r)) items)"

lemma length_stored_items:
  assumes "good_env env" and "items_ok (rl_entries r) items"
  shows "length (file_bytes env r items) \<le> 8 + 2 ^ 32 * length items"
proof -
  have "length (concat (map (stored_bytes env (rl_entries r)) items)) \<le> 2 ^ 32 * length items"
    using assms(2)
  proof (induction items)
    case (Cons item items)
    then show ?case
      using length_stored_bytes [OF assms(1), of "fst item" "snd item" "rl_entries r"]
      by (cases item) (simp add: items_ok_def)
  qed simp
  then show ?thesis by (simp add: file_bytes_def)
qed

lemma write_items:
  assumes "good_env env" and "items_ok (rl_entries r) items" and "fs_appending s"
    and "length (fs_data s) + length (concat (map (stored_bytes env (rl_entries r)) items)) < 2 ^ 63 - 1"
  shows "\<exists>s'. out_copy (write_iterator_ops env r) items s = Inr s' \<and>
             fs_data s' = fs_data s @ concat (map (stored_bytes env (rl_entries r)) items)"
  using fs_out.out_copy_blocks [OF assms(1,3), of items "rl_entries r" 0] assms(2,4)
  by (auto simp: items_ok_def write_iterator_ops_def fs_cap_def)

lemma write_session_ok:
  assumes env: "good_env env" and items: "items_ok (rl_entries r) items"
    and len: "length (file_bytes env r (old @ items)) < 2 ^ 63 - 1"
    and before: "file = None \<and> old = [] \<or> file = Some (file_bytes env r old)"
  shows "write_session env r overwrite items file =
    Inr (file_bytes env r ((if overwrite then [] else old) @ items))"
proof -
  have cfg: "fuel_enough (env_cfg env)" using env by (simp add: good_env_def)
  let ?kept = "if overwrite then [] else old"
  have "\<exists>s. open_sequential_output_file env file r overwrite = Inr s \<and> fs_appending s \<and>
            fs_data s = file_bytes env r ?kept"
  proof (cases "overwrite \<or> file = None")
    case True
    then show ?thesis using open_new_file [of overwrite "file" env r] before by (auto simp: file_bytes_def)
  next
    case False
    then show ?thesis using before reopen_file(1) [OF cfg _ _ refl, of "file_bytes env r old" r] len
      by (auto simp: file_bytes_def)
  qed
  then obtain s where s: "open_sequential_output_file env file r overwrite = Inr s" "fs_appending s"
      "fs_data s = file_bytes env r ?kept" by blast
  have "length (fs_data s) + length (concat (map (stored_bytes env (rl_entries r)) items)) < 2 ^ 63 - 1"
    using len by (simp add: s(3) file_bytes_def split: if_splits)
  from write_items [OF env items s(2) this] s show ?thesis
    by (auto simp: write_session_def file_bytes_def)
qed

lemma write_sessions_ok:
  assumes env: "good_env env"
  shows "\<forall>(ow, items) \<in> set sessions. items_ok (rl_entries r) items \<Longrightarrow>
    length (file_bytes env r (old @ concat (map snd sessions))) < 2 ^ 63 - 1 \<Longrightarrow>
    write_sessions env r sessions (Some (file_bytes env r old)) =
      Inr (Some (file_bytes env r (left_behind sessions old)))"
proof (induction sessions arbitrary: old)
  case (Cons session sessions)
  obtain ow items where session: "session = (ow, items)" by fastforce
  let ?old = "(if ow then [] else old) @ items"
  have "length (file_bytes env r (old @ items)) < 2 ^ 63 - 1"
    using Cons.prems(2) by (simp add: session file_bytes_def)
  with Cons.prems(1) session have "write_session env r ow items (Some (file_bytes env r old)) = Inr (file_bytes env r ?old)"
    by (intro write_session_ok [OF env]) auto
  moreover have "length (file_bytes env r (?old @ concat (map snd sessions))) < 2 ^ 63 - 1"
    using Cons.prems(2) by (auto simp: session file_bytes_def)
  ultimately show ?case using Cons.IH [of ?old] Cons.prems(1) by (simp add: session)
qed simp

lemma read_session_ok:
  assumes env: "good_env env" and "realm_ok (rl_entries r)" and "items_ok (rl_entries r) items"
    and "T \<in> snd ` set (rl_entries r)"
    and "length (file_bytes env r items) < 2 ^ 63 - 1" and "length items < fuel (env_cfg env)"
  shows "read_session env r T (Some (file_bytes env r items)) = Inr (items_of T items)"
proof -
  have cfg: "fuel_enough (env_cfg env)" using env by (simp add: good_env_def)
  obtain s where s: "open_sequential_input_file env (Some (file_bytes env r items)) r = Inr s"
      "fs_ok (file_bytes env r items) s" "fs_rem s = concat (map (stored_bytes env (rl_entries r)) items)"
    using open_for_reading(1) [OF cfg file_bytes_def assms(5) refl] by blast
  from fs.skipping_read_seq [OF env assms(2,4,3) s(2,3) assms(6,6)] s(1) show ?thesis
    by (auto simp: read_session_def read_one_type_def range_elems_def make_range_def)
qed

lemma left_behind_ok:
  "\<forall>(ow, items) \<in> set ss. items_ok entries items \<Longrightarrow> items_ok entries old \<Longrightarrow>
   items_ok entries (left_behind ss old)"
proof (induction ss arbitrary: old)
  case (Cons session ss)
  obtain ow items where session: "session = (ow, items)" by fastforce
  have "items_ok entries ((if ow then [] else old) @ items)"
    using Cons.prems by (simp add: session items_ok_def ball_Un)
  then show ?case using Cons by (simp add: session)
qed simp

lemma left_behind_short:
  "length (concat (map f (left_behind ss old))) \<le> length (concat (map f (old @ concat (map snd ss))))"
proof (induction ss arbitrary: old)
  case (Cons session ss)
  obtain ow items where session: "session = (ow, items)" by fastforce
  show ?case using Cons.IH [of "(if ow then [] else old) @ items"] by (simp add: session split: if_splits)
qed simp

lemma sessions_roundtrip:
  assumes env: "good_env env" and realm: "realm_ok (rl_entries r)" "T \<in> snd ` set (rl_entries r)"
    and items: "\<forall>(ow, items) \<in> set sessions. items_ok (rl_entries r) items" and "sessions \<noteq> []"
    and len: "length (file_bytes env r (concat (map snd sessions))) < 2 ^ 63 - 1"
    and fuel: "length (left_behind sessions []) < fuel (env_cfg env)"
  shows "\<exists>d. write_sessions env r sessions None = Inr (Some d) \<and>
             read_session env r T (Some d) = Inr (items_of T (left_behind sessions []))"
proof -
  obtain ow its rest where ses: "sessions = (ow, its) # rest" using assms(5) by (cases sessions) auto
  have l: "length (file_bytes env r ([] @ its)) < 2 ^ 63 - 1" using len by (simp add: ses file_bytes_def)
  have "items_ok (rl_entries r) its" using items ses by auto
  from write_session_ok [OF env this l, of None ow]
  have w: "write_session env r ow its None = Inr (file_bytes env r its)" by simp
  have "write_sessions env r rest (Some (file_bytes env r its)) =
      Inr (Some (file_bytes env r (left_behind rest its)))"
    using items len ses by (intro write_sessions_ok [OF env]) auto
  with w have W: "write_sessions env r sessions None = Inr (Some (file_bytes env r (left_behind sessions [])))"
    by (simp add: ses)
  have ok: "items_ok (rl_entries r) (left_behind sessions [])"
    using left_behind_ok [of sessions "rl_entries r" "[]"] items by (simp add: items_ok_def)
  have "length (file_bytes env r (left_behind sessions [])) < 2 ^ 63 - 1"
    using len left_behind_short [of "stored_bytes env (rl_entries r)" sessions "[]"] by (simp add: file_bytes_def)
  from read_session_ok [OF env realm(1) ok realm(2) this fuel] W show ?thesis by blast
qed

end
