(* ===== verification/OrderedMap.thy ===== *)
theory OrderedMap
  imports Prelude
begin

text \<open>
  \<^verbatim>\<open>std::map\<close> as the code uses it: a sorted association list under the comparison \<open>lt\<close> of the
  map. Two keys are the same for the map when neither is less than the other. The locale
  \<open>ordered_keys\<close> is what the standard asks of the comparison; under it the operations are
  those of a finite map.
\<close>

section \<open>Operations\<close>

fun map_assign :: "('k \<Rightarrow> 'k \<Rightarrow> bool) \<Rightarrow> 'k \<Rightarrow> 'v \<Rightarrow> ('k \<times> 'v) list \<Rightarrow> ('k \<times> 'v) list" where
  "map_assign lt k p [] = [(k, p)]"
| "map_assign lt k p ((k', p') # m) =
     (if lt k' k then (k', p') # map_assign lt k p m
      else if lt k k' then (k, p) # (k', p') # m else (k', p) # m)"

fun map_lower_bound :: "('k \<Rightarrow> 'k \<Rightarrow> bool) \<Rightarrow> 'k \<Rightarrow> ('k \<times> 'v) list \<Rightarrow> nat" where
  "map_lower_bound lt k [] = 0"
| "map_lower_bound lt k ((k', p) # m) = (if lt k' k then Suc (map_lower_bound lt k m) else 0)"

fun map_upper_bound :: "('k \<Rightarrow> 'k \<Rightarrow> bool) \<Rightarrow> 'k \<Rightarrow> ('k \<times> 'v) list \<Rightarrow> nat" where
  "map_upper_bound lt k [] = 0"
| "map_upper_bound lt k ((k', p) # m) = (if lt k k' then 0 else Suc (map_upper_bound lt k m))"

definition map_find :: "('k \<Rightarrow> 'k \<Rightarrow> bool) \<Rightarrow> 'k \<Rightarrow> ('k \<times> 'v) list \<Rightarrow> nat" where
  "map_find lt k m =
     (let i = map_lower_bound lt k m
      in if i < length m \<and> \<not> lt k (fst (m ! i)) then i else length m)"

definition sorted_map :: "('k \<Rightarrow> 'k \<Rightarrow> bool) \<Rightarrow> ('k \<Rightarrow> bool) \<Rightarrow> ('k \<times> 'v) list \<Rightarrow> bool" where
  "sorted_map lt is_key m \<longleftrightarrow> sorted_wrt lt (map fst m) \<and> (\<forall>k \<in> fst ` set m. is_key k)"

lemma sorted_map_Nil [simp]: "sorted_map lt is_key []"
  by (simp add: sorted_map_def)

lemma sorted_map_Cons:
  "sorted_map lt is_key ((k, p) # m) \<longleftrightarrow>
   sorted_map lt is_key m \<and> is_key k \<and> (\<forall>k' \<in> fst ` set m. lt k k')"
  by (auto simp: sorted_map_def)

section \<open>The contract of the comparison\<close>

locale ordered_keys =
  fixes lt :: "'k \<Rightarrow> 'k \<Rightarrow> bool" and is_key :: "'k \<Rightarrow> bool"
  assumes irrefl: "is_key a \<Longrightarrow> \<not> lt a a"
    and trans: "is_key a \<Longrightarrow> is_key b \<Longrightarrow> is_key c \<Longrightarrow> lt a b \<Longrightarrow> lt b c \<Longrightarrow> lt a c"
    and total: "is_key a \<Longrightarrow> is_key b \<Longrightarrow> lt a b \<or> a = b \<or> lt b a"
begin

lemma asym: "is_key a \<Longrightarrow> is_key b \<Longrightarrow> lt a b \<Longrightarrow> \<not> lt b a"
  using trans irrefl by blast

lemma keys_map_assign: "is_key k \<Longrightarrow> sorted_map lt is_key m \<Longrightarrow>
   fst ` set (map_assign lt k p m) = insert k (fst ` set m)"
proof (induction m)
  case (Cons e m)
  obtain k' p' where e: "e = (k', p')" by fastforce
  then have "is_key k'" "sorted_map lt is_key m" using Cons.prems(2) by (simp_all add: sorted_map_Cons)
  then show ?case using Cons total [of k k'] e by auto
qed simp

lemma sorted_map_assign: "is_key k \<Longrightarrow> sorted_map lt is_key m \<Longrightarrow> sorted_map lt is_key (map_assign lt k p m)"
proof (induction m)
  case (Cons e m)
  obtain k' p' where e: "e = (k', p')" by fastforce
  then have k': "is_key k'" "sorted_map lt is_key m" "\<forall>x \<in> fst ` set m. lt k' x" "\<forall>x \<in> fst ` set m. is_key x"
    using Cons.prems(2) by (auto simp: sorted_map_Cons) (auto simp: sorted_map_def)
  show ?case
  proof (cases "lt k' k")
    case True
    then show ?thesis using Cons k' e keys_map_assign [OF Cons.prems(1) k'(2)]
      by (auto simp: sorted_map_Cons)
  next
    case False
    show ?thesis
    proof (cases "lt k k'")
      case True
      then have "lt k x" if "x \<in> fst ` set m" for x
        using trans [OF Cons.prems(1) k'(1), of x] k'(3,4) that by blast
      then show ?thesis using False True k' e Cons.prems by (simp add: sorted_map_Cons)
    next
      case no: False
      then have "k = k'" using False total [OF Cons.prems(1) k'(1)] by blast
      then show ?thesis using no k' e irrefl by (simp add: sorted_map_Cons)
    qed
  qed
qed (simp add: sorted_map_Cons)

lemma map_of_assign: "is_key k \<Longrightarrow> sorted_map lt is_key m \<Longrightarrow> map_of (map_assign lt k p m) = (map_of m)(k \<mapsto> p)"
proof (induction m)
  case (Cons e m)
  obtain k' p' where e: "e = (k', p')" by fastforce
  then have k': "is_key k'" "sorted_map lt is_key m" using Cons.prems(2) by (auto simp: sorted_map_Cons)
  consider "lt k' k" "k \<noteq> k'" | "\<not> lt k' k" "lt k k'" "k \<noteq> k'" | "\<not> lt k' k" "\<not> lt k k'" "k = k'"
    using total [OF Cons.prems(1) k'(1)] irrefl [OF k'(1)] asym [OF Cons.prems(1) k'(1)] by blast
  then show ?case using Cons.IH [OF Cons.prems(1) k'(2)] e by cases (auto simp: fun_upd_twist)
qed simp

lemma lower_bound_spec: "is_key k \<Longrightarrow> sorted_map lt is_key m \<Longrightarrow>
   map_lower_bound lt k m \<le> length m \<and>
   (\<forall>i < length m. i < map_lower_bound lt k m \<longleftrightarrow> lt (fst (m ! i)) k)"
proof (induction m)
  case (Cons e m)
  obtain k' p' where e: "e = (k', p')" by fastforce
  then have k': "is_key k'" "sorted_map lt is_key m" "\<forall>x \<in> fst ` set m. lt k' x" "\<forall>x \<in> fst ` set m. is_key x"
    using Cons.prems(2) by (auto simp: sorted_map_Cons) (auto simp: sorted_map_def)
  have rest: "\<not> lt (fst (m ! i)) k" if "\<not> lt k' k" "i < length m" for i
    using that k' trans [OF k'(1) _ Cons.prems(1), of "fst (m ! i)"] by force
  show ?case
    using Cons.IH [OF Cons.prems(1) k'(2)] rest by (auto simp: e less_Suc_eq_0_disj)
qed simp

lemma upper_bound_spec: "is_key k \<Longrightarrow> sorted_map lt is_key m \<Longrightarrow>
   map_upper_bound lt k m \<le> length m \<and>
   (\<forall>i < length m. i < map_upper_bound lt k m \<longleftrightarrow> \<not> lt k (fst (m ! i)))"
proof (induction m)
  case (Cons e m)
  obtain k' p' where e: "e = (k', p')" by fastforce
  then have k': "is_key k'" "sorted_map lt is_key m" "\<forall>x \<in> fst ` set m. lt k' x" "\<forall>x \<in> fst ` set m. is_key x"
    using Cons.prems(2) by (auto simp: sorted_map_Cons) (auto simp: sorted_map_def)
  have rest: "lt k (fst (m ! i))" if "lt k k'" "i < length m" for i
    using that k' trans [OF Cons.prems(1) k'(1), of "fst (m ! i)"] by force
  show ?case
    using Cons.IH [OF Cons.prems(1) k'(2)] rest by (auto simp: e less_Suc_eq_0_disj)
qed simp

lemma distinct_keys: "sorted_map lt is_key m \<Longrightarrow> distinct (map fst m)"
proof (induction m)
  case (Cons e m)
  then show ?case using irrefl by (cases e) (auto simp: sorted_map_Cons)
qed simp

lemma map_find_Some:
  assumes "is_key k" and "sorted_map lt is_key m" and "map_of m k = Some p"
  shows "map_find lt k m < length m" and "m ! map_find lt k m = (k, p)"
proof -
  obtain j where j: "j < length m" "m ! j = (k, p)" using map_of_SomeD [OF assms(3)] by (auto simp: in_set_conv_nth)
  let ?i = "map_lower_bound lt k m"
  note lb = lower_bound_spec [OF assms(1,2)]
  have "\<not> j < ?i" using lb j irrefl [OF assms(1)] by auto
  moreover have "\<not> ?i < j"
  proof
    assume "?i < j"
    then have "lt (fst (m ! ?i)) k"
      using assms(2) j sorted_wrt_nth_less [of lt "map fst m" ?i j] by (simp add: sorted_map_def)
    moreover have "?i < length m" using \<open>?i < j\<close> j(1) by simp
    then have "\<not> lt (fst (m ! ?i)) k" using lb [THEN conjunct2, rule_format, of ?i] by simp
    ultimately show False by simp
  qed
  ultimately have "?i = j" by simp
  then show "map_find lt k m < length m" "m ! map_find lt k m = (k, p)"
    using j irrefl [OF assms(1)] by (simp_all add: map_find_def)
qed

lemma map_find_None:
  assumes "is_key k" and "sorted_map lt is_key m" and "map_of m k = None"
  shows "map_find lt k m = length m"
proof (rule ccontr)
  let ?i = "map_lower_bound lt k m"
  assume "map_find lt k m \<noteq> length m"
  then have i: "?i < length m" "\<not> lt k (fst (m ! ?i))" by (auto simp: map_find_def Let_def split: if_splits)
  then have "is_key (fst (m ! ?i))" using assms(2) by (auto simp: sorted_map_def)
  moreover have "\<not> lt (fst (m ! ?i)) k" using lower_bound_spec [OF assms(1,2)] i(1) by auto
  ultimately have "fst (m ! ?i) = k" using total [OF assms(1), of "fst (m ! ?i)"] i(2) by simp
  moreover have "fst (m ! ?i) \<in> fst ` set m" using nth_mem [OF i(1)] by (rule imageI)
  ultimately show False using assms(3) by (simp add: map_of_eq_None_iff)
qed

end

end
