(* ===== verification/IndexedFile.thy ===== *)
theory IndexedFile
  imports SequentialFile OrderedMap
begin

text \<open>
  Indexed files (include/bs3/pbsf/indexed-file.hh): blocks addressed by key. The index, a map
  from keys to positions in the file, is written as a block of its own when the file is closed,
  followed by a marker block of known size that says where the index is.
\<close>

section \<open>The index and its marker\<close>

type_synonym index_map = "(val \<times> 64 word) list"

text \<open>A key type comes with its \<^verbatim>\<open>std::less\<close>.\<close>

record key_type =
  k_type :: ctype
  k_less :: "val \<Rightarrow> val \<Rightarrow> bool"

definition pair_key :: "val \<Rightarrow> val" where
  "pair_key v = (case v of VRec (k # _) \<Rightarrow> k | _ \<Rightarrow> Indet)"

definition pair_val :: "val \<times> 64 word \<Rightarrow> val" where
  "pair_val e = VRec [fst e, VPrim (P8 (snd e))]"

definition pair_of :: "val \<Rightarrow> val \<times> 64 word" where
  "pair_of v = (case v of VRec [k, VPrim (P8 p)] \<Rightarrow> (k, p) | _ \<Rightarrow> (Indet, 0))"

definition pair_ty :: "key_type \<Rightarrow> ty" where
  "pair_ty K = TTuple [c_ty (k_type K), TPrim Num8]"

definition pair_less :: "key_type \<Rightarrow> val \<Rightarrow> val \<Rightarrow> bool" where
  "pair_less K a b \<longleftrightarrow> k_less K (pair_key a) (pair_key b)"

text \<open>\<^verbatim>\<open>blocks_index<Key>\<close>.\<close>

definition index_ty :: "key_type \<Rightarrow> ty" where
  "index_ty K = TMembers [TOrd (OrdUnique (pair_less K)) (pair_ty K)] [VSeq []]"

definition index_val :: "index_map \<Rightarrow> val" where
  "index_val m = VRec [VSeq (map pair_val m)]"

definition index_of :: "val \<Rightarrow> index_map" where
  "index_of v = (case v of VRec [VSeq ps] \<Rightarrow> map pair_of ps | _ \<Rightarrow> [])"

record index_position_marker =
  mk_pos :: "64 word"
  mk_keyid :: "16 word"

definition marker_ty :: ty where
  "marker_ty = TMembers [TPrim Num8, TPrim Num2] [Indet, Indet]"

definition marker_val :: "index_position_marker \<Rightarrow> val" where
  "marker_val mk = VRec [VPrim (P8 (mk_pos mk)), VPrim (P2 (mk_keyid mk))]"

definition marker_of :: "val \<Rightarrow> index_position_marker" where
  "marker_of v = (case v of
     VRec [VPrim (P8 p), VPrim (P2 i)] \<Rightarrow> \<lparr>mk_pos = p, mk_keyid = i\<rparr> | _ \<Rightarrow> \<lparr>mk_pos = 0, mk_keyid = 0\<rparr>)"

definition marker_ctype :: ctype where
  "marker_ctype = \<lparr>c_name = ''index_position_marker'', c_ty = marker_ty\<rparr>"

definition index_ctype :: "key_type \<Rightarrow> ctype" where
  "index_ctype K = \<lparr>c_name = ''blocks_index'', c_ty = index_ty K\<rparr>"

definition index_meta_realm :: "key_type \<Rightarrow> (16 word \<times> ctype) list" where
  "index_meta_realm K = [(- 10, marker_ctype), (- 11, index_ctype K)]"

section \<open>encoded_block_accessor\<close>

text \<open>
  \<^verbatim>\<open>as\<close> moves the block into \<^verbatim>\<open>decode_block\<close>, which moves the content out of a block with the
  identity encoding and leaves any other block alone.
\<close>

definition accessor_is :: "(16 word \<times> ctype) list \<Rightarrow> ctype \<Rightarrow> encoded_block \<Rightarrow> bool" where
  "accessor_is entries T b \<longleftrightarrow> type_id T entries = contentType b"

definition decoded_from :: "encoded_block \<Rightarrow> encoded_block" where
  "decoded_from b = (if contentEncoding b = PBSF_ENCODING_IDENTITY then b\<lparr>content := []\<rparr> else b)"

definition accessor_as ::
  "environment \<Rightarrow> (16 word \<times> ctype) list \<Rightarrow> ctype \<Rightarrow> encoded_block \<Rightarrow> (val \<times> encoded_block) result" where
  "accessor_as env entries T b =
     (if \<not> accessor_is entries T b then Inl TypeMismatch
      else rbind (decode_block env b) (\<lambda>buf.
           rbind (parse_from_buffer (env_cfg env) (c_ty T) buf) (\<lambda>v. Inr (v, decoded_from b))))"

section \<open>The state of a file and writing\<close>

text \<open>
  \<^verbatim>\<open>indexed_file_state\<close> is shared by the reader and the writer half; the stream is held by a
  \<^verbatim>\<open>unique_ptr\<close>, which is null once the file has been moved from. A read-only file never needs
  its index written.
\<close>

record indexed_file =
  ix_stream_ptr :: "fstream option"
  ix_index :: index_map
  ix_need_write_index :: bool

definition deref_stream :: "indexed_file \<Rightarrow> fstream result" where
  "deref_stream f = (case ix_stream_ptr f of Some s \<Rightarrow> Inr s | None \<Rightarrow> Inl (Undefined NullPointer))"

definition remembered_append ::
  "environment \<Rightarrow> (16 word \<times> ctype) list \<Rightarrow> ctype \<Rightarrow> val \<Rightarrow> fstream \<Rightarrow> (int \<times> fstream) result" where
  "remembered_append env entries T v s =
     rbind (fs_seekp_end 0 s) (\<lambda>s1.
       let pos = fs_tellp s1
       in rbind (write_block env fs_out_ops entries T v s1) (\<lambda>s2. Inr (pos, s2)))"

definition indexed_insert ::
  "environment \<Rightarrow> realm \<Rightarrow> key_type \<Rightarrow> val \<times> ctype \<times> val \<Rightarrow> indexed_file \<Rightarrow> indexed_file result" where
  "indexed_insert env r K t f =
     rbind (deref_stream f) (\<lambda>s.
     rbind (remembered_append env (rl_entries r) (fst (snd t)) (snd (snd t)) s) (\<lambda>(pos, s').
       Inr (f\<lparr>ix_stream_ptr := Some s',
              ix_index := map_assign (k_less K) (fst t) (word_of_int pos) (ix_index f),
              ix_need_write_index := True\<rparr>)))"

definition indexed_write_ops ::
  "environment \<Rightarrow> realm \<Rightarrow> key_type \<Rightarrow> (indexed_file, val \<times> ctype \<times> val) out_ops" where
  "indexed_write_ops env r K = variadic_insert_ops (indexed_insert env r K)"

text \<open>The destructor. What it leaves is the content of the file.\<close>

definition indexed_close :: "environment \<Rightarrow> realm \<Rightarrow> key_type \<Rightarrow> indexed_file \<Rightarrow> indexed_file result" where
  "indexed_close env r K f =
     (if \<not> ix_need_write_index f then Inr f
      else rbind (deref_stream f) (\<lambda>s.
           rbind (remembered_append env (index_meta_realm K) (index_ctype K) (index_val (ix_index f)) s) (\<lambda>(pos, s1).
           rbind (write_block env fs_out_ops (index_meta_realm K) marker_ctype
                    (marker_val \<lparr>mk_pos = word_of_int pos, mk_keyid = type_id (k_type K) (rl_entries r)\<rparr>) s1) (\<lambda>s2.
             Inr (f\<lparr>ix_stream_ptr := Some s2\<rparr>)))))"

text \<open>The move constructor: the new object and what is left of the old one.\<close>

definition indexed_move :: "indexed_file \<Rightarrow> indexed_file \<times> indexed_file" where
  "indexed_move f = (f, f\<lparr>ix_stream_ptr := None, ix_index := []\<rparr>)"

section \<open>Reading\<close>

definition delayed_read :: "environment \<Rightarrow> 64 word \<Rightarrow> fstream \<Rightarrow> (encoded_block \<times> fstream) result" where
  "delayed_read env p s =
     rbind (fs_seekg (sint p) s) (\<lambda>s1.
     rbind (parse (env_cfg env) fs_ops block_ty s1) (\<lambda>(v, s2). Inr (block_of v, s2)))"

type_synonym lazy_block = "(encoded_block, fstream) lazy_value"

definition lazy_at :: "environment \<Rightarrow> 64 word \<Rightarrow> lazy_block" where
  "lazy_at env p = lazy_new (delayed_read env p)"

text \<open>
  An iterator is a position in the map; dereferencing it gives the key and a block that is read
  when it is asked for. Reverse iterators walk the map backwards.
\<close>

definition index_iter_ops :: "environment \<Rightarrow> index_map \<Rightarrow> (nat, val \<times> lazy_block, 'w) iter_ops" where
  "index_iter_ops env m = ephemeral_ops (vec_ops m) (\<lambda>(k, pos). Inr (k, lazy_at env pos))"

definition index_iter_decr :: "nat \<Rightarrow> nat result" where
  "index_iter_decr i = (if i = 0 then Inl (Undefined OutOfBounds) else Inr (i - 1))"

definition indexed_range :: "indexed_file \<Rightarrow> nat range" where
  "indexed_range f = make_range 0 (length (ix_index f))"

definition indexed_elems :: "environment \<Rightarrow> indexed_file \<Rightarrow> (val \<times> lazy_block) list result" where
  "indexed_elems env f =
     rbind (range_elems (Suc (length (ix_index f))) (index_iter_ops env (ix_index f)) (indexed_range f) ())
       (\<lambda>(es, w). Inr es)"

definition indexed_relems :: "environment \<Rightarrow> indexed_file \<Rightarrow> (val \<times> lazy_block) list result" where
  "indexed_relems env f =
     rbind (range_elems (Suc (length (ix_index f))) (index_iter_ops env (rev (ix_index f))) (indexed_range f) ())
       (\<lambda>(es, w). Inr es)"

definition indexed_find :: "key_type \<Rightarrow> val \<Rightarrow> indexed_file \<Rightarrow> nat" where
  "indexed_find K k f = map_find (k_less K) k (ix_index f)"

definition indexed_lower_bound :: "key_type \<Rightarrow> val \<Rightarrow> indexed_file \<Rightarrow> nat" where
  "indexed_lower_bound K k f = map_lower_bound (k_less K) k (ix_index f)"

definition indexed_upper_bound :: "key_type \<Rightarrow> val \<Rightarrow> indexed_file \<Rightarrow> nat" where
  "indexed_upper_bound K k f = map_upper_bound (k_less K) k (ix_index f)"

definition indexed_size :: "indexed_file \<Rightarrow> 64 word" where
  "indexed_size f = word_of_nat (length (ix_index f))"

definition indexed_lookup :: "environment \<Rightarrow> key_type \<Rightarrow> val \<Rightarrow> indexed_file \<Rightarrow> lazy_block result" where
  "indexed_lookup env K k f =
     (let it = indexed_find K k f
      in if it = rg_end (indexed_range f) then Inl KeyMissing
         else rbind (it_deref (index_iter_ops env (ix_index f) :: (nat, val \<times> lazy_block, unit) iter_ops) it)
                (\<lambda>(e, it'). Inr (snd e)))"

definition indexed_indices :: "indexed_file \<Rightarrow> val list" where
  "indexed_indices f = map fst (ix_index f)"

text \<open>\<^verbatim>\<open>f[k]->as<T>()\<close>: the accessor lives in the lazy value and is what \<^verbatim>\<open>as\<close> changes.\<close>

definition lazy_block_as ::
  "environment \<Rightarrow> realm \<Rightarrow> ctype \<Rightarrow> lazy_block \<Rightarrow> fstream \<Rightarrow> ((val \<times> lazy_block) \<times> fstream) result" where
  "lazy_block_as env r T z s =
     rbind (lazy_deref z s) (\<lambda>((b, z1), s1).
     rbind (accessor_as env (rl_entries r) T b) (\<lambda>(v, b').
       Inr ((v, z1\<lparr>lazy_result := opt_in_place b'\<rparr>), s1)))"

definition indexed_get ::
  "environment \<Rightarrow> realm \<Rightarrow> key_type \<Rightarrow> ctype \<Rightarrow> val \<Rightarrow> indexed_file \<Rightarrow> (val \<times> indexed_file) result" where
  "indexed_get env r K T k f =
     rbind (indexed_lookup env K k f) (\<lambda>z.
     rbind (deref_stream f) (\<lambda>s.
     rbind (lazy_block_as env r T z s) (\<lambda>((v, z'), s'). Inr (v, f\<lparr>ix_stream_ptr := Some s'\<rparr>))))"

section \<open>Opening\<close>

definition marker_size :: "64 word" where
  "marker_size = the (fixed_size marker_ty)"

definition marker_full_size :: "64 word" where
  "marker_full_size = 2 + 2 + 4 + static_size_vuint marker_size + marker_size"

definition read_current_index ::
  "environment \<Rightarrow> realm \<Rightarrow> key_type \<Rightarrow> fstream \<Rightarrow> (index_map \<times> fstream) result" where
  "read_current_index env r K s =
     rbind (fs_seekg_end (- sint marker_full_size) s) (\<lambda>s1.
     rbind (parse (env_cfg env) fs_ops block_ty s1) (\<lambda>(bv, s2).
     rbind (accessor_as env (index_meta_realm K) marker_ctype (block_of bv)) (\<lambda>(mv, _).
       let marker = marker_of mv
       in if mk_keyid marker \<noteq> type_id (k_type K) (rl_entries r) then Inl KeyMismatch
          else rbind (fs_seekg (sint (mk_pos marker)) s2) (\<lambda>s3.
               rbind (parse (env_cfg env) fs_ops block_ty s3) (\<lambda>(iv, s4).
               rbind (accessor_as env (index_meta_realm K) (index_ctype K) (block_of iv)) (\<lambda>(xv, _).
                 Inr (index_of xv, s4)))))))"

text \<open>The two specialisations of \<^verbatim>\<open>indexed_file\<close>: one that can be written to, and one that cannot.\<close>

definition make_writable_file :: "fstream \<Rightarrow> index_map \<Rightarrow> bool \<Rightarrow> indexed_file" where
  [simp]: "make_writable_file s index is_new = \<lparr>ix_stream_ptr = Some s, ix_index = index, ix_need_write_index = is_new\<rparr>"

definition make_readable_file :: "fstream \<Rightarrow> index_map \<Rightarrow> indexed_file" where
  [simp]: "make_readable_file s index = \<lparr>ix_stream_ptr = Some s, ix_index = index, ix_need_write_index = False\<rparr>"

definition open_indexed_output_file ::
  "environment \<Rightarrow> byte list option \<Rightarrow> realm \<Rightarrow> key_type \<Rightarrow> bool \<Rightarrow> indexed_file result" where
  "open_indexed_output_file env file r K overwrite =
     rbind (fs_exceptions (fstream_open overwrite file)) (\<lambda>s1.
     rbind (fs_tellg s1) (\<lambda>(p, s2).
       if p = 0
       then rbind (write_header env fs_out_ops r s2) (\<lambda>s3.
              Inr (make_writable_file s3 [] True))
       else rbind (fs_seekg 0 s2) (\<lambda>s3.
            rbind (check_file env fs_ops r s3) (\<lambda>(same, s4).
              if \<not> same then Inl UnknownRealm
              else rbind (read_current_index env r K s4) (\<lambda>(index, s5).
                     Inr (make_writable_file s5 index False))))))"

definition open_indexed_input_file ::
  "environment \<Rightarrow> byte list option \<Rightarrow> realm \<Rightarrow> key_type \<Rightarrow> indexed_file result" where
  "open_indexed_input_file env file r K =
     rbind (fs_exceptions (ifstream_open file)) (\<lambda>s1.
     rbind (check_file env fs_ops r s1) (\<lambda>(same, s2).
       if \<not> same then Inl UnknownRealm
       else rbind (read_current_index env r K s2) (\<lambda>(index, s3).
              Inr (make_readable_file s3 index))))"

section \<open>A whole session\<close>

text \<open>Open the file, insert through the write iterator, destroy the object.\<close>

definition index_session ::
  "environment \<Rightarrow> realm \<Rightarrow> key_type \<Rightarrow> bool \<Rightarrow> (val \<times> ctype \<times> val) list \<Rightarrow> byte list option \<Rightarrow> byte list result" where
  "index_session env r K overwrite inserts file =
     rbind (open_indexed_output_file env file r K overwrite) (\<lambda>f.
     rbind (out_copy (indexed_write_ops env r K) inserts f) (\<lambda>f1.
     rbind (indexed_close env r K f1) (\<lambda>f2.
     rbind (deref_stream f2) (\<lambda>s. Inr (fs_data s)))))"

end
