(* ===== verification/IndexedFileFacts.thy ===== *)
theory IndexedFileFacts
  imports IndexedFile
begin

text \<open>
  Indexed files against their specification, a finite map from keys to objects: every operation
  on a file is the operation on the map, and a file that has been closed is opened with the map
  it was closed with.
\<close>

section \<open>Reading and writing a block in the middle of a file\<close>

lemma fs_seekg_good: "fs_good s \<Longrightarrow> fs_seekg (int n) s = Inr (s\<lparr>fs_pos := n\<rparr>)"
proof -
  assume g: "fs_good s"
  then have "s\<lparr>fs_eof := False\<rparr> = s" by (simp add: fs_good_def)
  with g show ?thesis by (simp add: fs_seekg_def fs_place_def) (simp add: fs_good_def)
qed

lemma fs_seekg_end_good:
  assumes "fs_good s" and "n \<le> length (fs_data s)"
  shows "fs_seekg_end (- int n) s = Inr (s\<lparr>fs_pos := length (fs_data s) - n\<rparr>)"
proof -
  have "s\<lparr>fs_eof := False\<rparr> = s" using assms by (simp add: fs_good_def)
  moreover have "int (length (fs_data s)) + - int n = int (length (fs_data s) - n)"
    using assms(2) by simp
  then have "fs_place (int (length (fs_data s)) + - int n) s = fs_place (int (length (fs_data s) - n)) s"
    by (simp only:)
  ultimately show ?thesis
    using assms(1) by (simp add: fs_seekg_end_def fs_place_def del: of_nat_diff) (simp add: fs_good_def)
qed

lemma parse_block_here:
  assumes "good_env env" and "encodable block_ty (block_val b)" and "fs_good s"
    and "length (fs_data s) < 2 ^ 63 - 1" and "fs_rem s = block_bytes b @ post"
  shows "\<exists>s'. parse (env_cfg env) fs_ops block_ty s = Inr (block_val b, s') \<and> fs_ok (fs_data s) s' \<and> fs_rem s' = post"
proof -
  have cfg: "fuel_enough (env_cfg env)" using assms(1) by (simp add: good_env_def)
  have "fs_ok (fs_data s) s" using assms by (simp add: fs_ok_def)
  from parsesD [OF fs.parses_parse [OF cfg assms(2)] this] assms(5)
  show ?thesis by (auto simp: encode_block_val)
qed

lemma sint_of_length: "n < 2 ^ 63 \<Longrightarrow> sint (word_of_nat n :: 64 word) = int n"
  by (rule sint_of_nat_small(1))

lemma parse_block_at:
  assumes "good_env env" and "encodable block_ty (block_val b)" and "fs_good s"
    and "length (fs_data s) < 2 ^ 63 - 1" and "fs_data s = pre @ block_bytes b @ post"
  shows "\<exists>s'. rbind (fs_seekg (sint (word_of_nat (length pre) :: 64 word)) s)
                (parse (env_cfg env) fs_ops block_ty) = Inr (block_val b, s') \<and> fs_ok (fs_data s) s'"
proof -
  have "length pre < 2 ^ 63" using assms(4,5) by simp
  then have seek: "fs_seekg (sint (word_of_nat (length pre) :: 64 word)) s = Inr (s\<lparr>fs_pos := length pre\<rparr>)"
    using fs_seekg_good [OF assms(3)] by (simp add: sint_of_length)
  have "fs_rem (s\<lparr>fs_pos := length pre\<rparr>) = block_bytes b @ post" by (simp add: fs_rem_def assms(5))
  from parse_block_here [OF assms(1,2) _ _ this] assms(3,4) seek show ?thesis by auto
qed

lemma append_block:
  assumes "good_env env" and "storable T v" and "fs_good s"
    and "length (fs_data s) + length (stored_bytes env entries (T, v)) < 2 ^ 63 - 1"
  shows "\<exists>s'. remembered_append env entries T v s = Inr (int (length (fs_data s)), s') \<and> fs_appending s' \<and>
             fs_data s' = fs_data s @ stored_bytes env entries (T, v)"
proof -
  let ?s = "s\<lparr>fs_pos := length (fs_data s)\<rparr>"
  have "fs_appending ?s" "fs_cap ?s (length (stored_bytes env entries (T, v)) + 0)"
    using assms(3,4) by (simp_all add: fs_appending_def fs_cap_def)
  from emitsD [OF fs_out.emits_write_block [OF assms(1,2)] this]
  obtain s' where s': "write_block env fs_out_ops entries T v ?s = Inr s'" "fs_appending s'"
      "fs_data s' = fs_data s @ stored_bytes env entries (T, v)" by auto
  have "fs_seekp_end 0 s = Inr ?s" "fs_tellp ?s = int (length (fs_data s))"
    using assms(3) by (simp_all add: fs_seekp_end_def fs_place_def fs_good_def fs_tellp_def)
  with s' show ?thesis by (simp add: remembered_append_def)
qed

section \<open>The accessor\<close>

lemma accessor_as_stored:
  assumes "good_env env" and "storable T v"
  shows "accessor_as env entries T (stored_block env entries T v) =
    Inr (v, decoded_from (stored_block env entries T v))"
  using stored_block_ok(2) [OF assms, of entries] parse_from_stored_block [OF assms, of entries]
  by (simp add: accessor_as_def accessor_is_def stores_def parse_from_block_def)

lemma accessor_as_other:
  assumes "good_env env" and "storable U v" and "realm_ok entries"
    and "T \<in> snd ` set entries" and "U \<in> snd ` set entries" and "U \<noteq> T"
  shows "accessor_as env entries T (stored_block env entries U v) = Inl TypeMismatch"
  using stored_block_ok(2) [OF assms(1,2), of entries] type_id_inj [OF assms(3,4,5)] assms(6)
  by (auto simp: accessor_as_def accessor_is_def stores_def)

section \<open>The index as an object\<close>

abbreviation is_key :: "key_type \<Rightarrow> val \<Rightarrow> bool" where
  "is_key K \<equiv> has_type (c_ty (k_type K))"

definition key_ok :: "key_type \<Rightarrow> bool" where
  "key_ok K \<longleftrightarrow> wf_ty (c_ty (k_type K)) \<and> ordered_keys (k_less K) (is_key K)"

lemma pair_simps [simp]:
  "pair_of (pair_val e) = e" "pair_key (pair_val e) = fst e"
  by (simp_all add: pair_of_def pair_val_def pair_key_def)

lemma index_of_val [simp]: "index_of (index_val m) = m"
  by (simp add: index_of_def index_val_def comp_def)

lemma marker_of_val [simp]: "marker_of (marker_val mk) = mk"
  by (simp add: marker_of_def marker_val_def)

lemma encode_index:
  "encode (index_ty K) (index_val m) =
   vuint_bytes (length m) @ concat (map (\<lambda>(k, p). encode (c_ty (k_type K)) k @ mem_bytes p) m)"
proof -
  have "encode (pair_ty K) (pair_val e) = encode (c_ty (k_type K)) (fst e) @ mem_bytes (snd e)" for e
    by (simp add: pair_ty_def pair_val_def enc_all_def apply_each_def elems_of_def prim_val_bytes_def)
  then show ?thesis
    by (simp add: index_ty_def index_val_def enc_all_def apply_each_def elems_of_def comp_def split_def)
qed

definition index_space :: "key_type \<Rightarrow> val set \<Rightarrow> nat" where
  "index_space K ks = 10 + (\<Sum>k\<in>ks. length (encode (c_ty (k_type K)) k) + 8)"

lemma index_space_length:
  assumes "distinct (map fst m)"
  shows "length m \<le> index_space K (fst ` set m)"
proof -
  have "length m = card (fst ` set m)" using distinct_card [OF assms] by simp
  also have "\<dots> = (\<Sum>k\<in>fst ` set m. 1)" by simp
  also have "\<dots> \<le> (\<Sum>k\<in>fst ` set m. length (encode (c_ty (k_type K)) k) + 8)" by (rule sum_mono) simp
  finally show ?thesis by (simp add: index_space_def)
qed

lemma length_encode_index:
  assumes "distinct (map fst m)" and "length m < 2 ^ 64"
  shows "length (encode (index_ty K) (index_val m)) \<le> index_space K (fst ` set m)"
proof -
  let ?f = "\<lambda>k. length (encode (c_ty (k_type K)) k) + 8"
  have "length (concat (map (\<lambda>(k, p). encode (c_ty (k_type K)) k @ mem_bytes p) m)) = (\<Sum>k\<leftarrow>map fst m. ?f k)"
    by (induction m) auto
  also have "\<dots> = (\<Sum>k\<in>fst ` set m. ?f k)"
    using assms(1) by (simp add: sum_list_distinct_conv_sum_set del: map_map)
  finally show ?thesis using length_vuint_64 [OF assms(2)] by (simp add: encode_index index_space_def)
qed

lemma index_storable:
  assumes "key_ok K" and m: "sorted_map (k_less K) (is_key K) m"
    and space: "index_space K (fst ` set m) < 2 ^ 31"
  shows "storable (index_ctype K) (index_val m)"
proof -
  have ord: "ordered_keys (k_less K) (is_key K)" and wf: "wf_ty (c_ty (k_type K))"
    using assms(1) by (simp_all add: key_ok_def)
  have sorted: "sorted_wrt (k_less K) (map fst m)" and keys: "\<And>k. k \<in> fst ` set m \<Longrightarrow> is_key K k"
    using m by (auto simp: sorted_map_def)
  note d = ordered_keys.distinct_keys [OF ord m]
  have len: "length m < 2 ^ 64" using index_space_length [OF d, of K] space by simp
  have "sorted_wrt (\<lambda>a b. k_less K a b \<and> \<not> k_less K b a) (map fst m)"
    using sorted keys ordered_keys.asym [OF ord] by (auto simp: sorted_wrt_iff_nth_less)
  then have "ord_sorted (OrdUnique (pair_less K)) (map pair_val m)"
    by (simp add: sorted_wrt_map pair_less_def)
  moreover have "\<forall>x \<in> set (map pair_val m). has_type (pair_ty K) x"
    using keys by (auto simp: pair_ty_def pair_val_def has_type.simps apply_each_def)
  ultimately have "has_type (index_ty K) (index_val m)"
    by (simp add: index_ty_def index_val_def has_type.simps apply_each_def list_all_iff)
  moreover have "wf_ty (index_ty K)" using wf by (simp add: index_ty_def pair_ty_def)
  moreover have "length (encode (index_ty K) (index_val m)) < 2 ^ 31"
    using length_encode_index [OF d len] space by (rule le_less_trans)
  ultimately show ?thesis by (simp add: storable_def encodable_def index_ctype_def)
qed

lemma marker_storable: "storable marker_ctype (marker_val mk)"
  and length_encode_marker: "length (encode marker_ty (marker_val mk)) = 10"
proof -
  show l: "length (encode marker_ty (marker_val mk)) = 10"
    by (simp add: marker_ty_def marker_val_def enc_all_def apply_each_def elems_of_def prim_val_bytes_def)
  then have "encodable marker_ty (marker_val mk)"
    by (simp add: encodable_def) (simp add: marker_ty_def marker_val_def has_type.simps apply_each_def)
  with l show "storable marker_ctype (marker_val mk)" by (simp add: storable_def marker_ctype_def)
qed

section \<open>A file that represents a map\<close>

type_synonym contents = "val \<rightharpoonup> ctype \<times> val"

definition stored_at ::
  "environment \<Rightarrow> (16 word \<times> ctype) list \<Rightarrow> byte list \<Rightarrow> 64 word \<Rightarrow> ctype \<times> val \<Rightarrow> bool" where
  "stored_at env entries d p item \<longleftrightarrow>
     (\<exists>pre post. d = pre @ stored_bytes env entries item @ post \<and> p = word_of_nat (length pre))"

text \<open>
  The index \<open>m\<close> of a file with data \<open>d\<close> represents the map \<open>c\<close>: it has the keys of the map, and
  where it points there is a block with the key's object.
\<close>

definition contents_ok :: "(16 word \<times> ctype) list \<Rightarrow> contents \<Rightarrow> bool" where
  "contents_ok entries c \<longleftrightarrow> (\<forall>k T v. c k = Some (T, v) \<longrightarrow> T \<in> snd ` set entries \<and> storable T v)"

definition index_rep ::
  "environment \<Rightarrow> realm \<Rightarrow> key_type \<Rightarrow> contents \<Rightarrow> index_map \<Rightarrow> byte list \<Rightarrow> bool" where
  "index_rep env r K c m d \<longleftrightarrow>
     sorted_map (k_less K) (is_key K) m \<and> fst ` set m = dom c \<and>
     contents_ok (rl_entries r) c \<and>
     (\<forall>k p. map_of m k = Some p \<longrightarrow> stored_at env (rl_entries r) d p (the (c k))) \<and>
     (\<exists>rest. d = header_bytes (rl_id r) @ rest)"

definition file_data :: "indexed_file \<Rightarrow> byte list" where
  "file_data f = (case ix_stream_ptr f of Some s \<Rightarrow> fs_data s | None \<Rightarrow> [])"

definition file_rep :: "environment \<Rightarrow> realm \<Rightarrow> key_type \<Rightarrow> contents \<Rightarrow> indexed_file \<Rightarrow> bool" where
  "file_rep env r K c f \<longleftrightarrow> (\<exists>s. ix_stream_ptr f = Some s \<and> fs_good s \<and>
     length (fs_data s) < 2 ^ 63 - 1 \<and> index_rep env r K c (ix_index f) (fs_data s))"

lemma stored_at_extend: "stored_at env entries d p item \<Longrightarrow> stored_at env entries (d @ x) p item"
  by (fastforce simp: stored_at_def)

lemma stored_at_end: "stored_at env entries (d @ stored_bytes env entries item) (word_of_nat (length d)) item"
  unfolding stored_at_def by (rule exI [of _ d], rule exI [of _ "[]"]) simp

lemma index_rep_extend: "index_rep env r K c m d \<Longrightarrow> index_rep env r K c m (d @ x)"
  by (auto simp: index_rep_def intro: stored_at_extend)

lemma index_rep_insert:
  assumes "key_ok K" and rep: "index_rep env r K c m d" and k: "is_key K k"
    and T: "T \<in> snd ` set (rl_entries r)" "storable T v"
  shows "index_rep env r K (c(k \<mapsto> (T, v))) (map_assign (k_less K) k (word_of_nat (length d)) m)
           (d @ stored_bytes env (rl_entries r) (T, v))"
proof -
  let ?m = "map_assign (k_less K) k (word_of_nat (length d)) m"
  let ?d = "d @ stored_bytes env (rl_entries r) (T, v)"
  have ord: "ordered_keys (k_less K) (is_key K)" using assms(1) by (simp add: key_ok_def)
  have m: "sorted_map (k_less K) (is_key K) m" using rep by (simp add: index_rep_def)
  have "sorted_map (k_less K) (is_key K) ?m" by (rule ordered_keys.sorted_map_assign [OF ord k m])
  moreover have "fst ` set ?m = dom (c(k \<mapsto> (T, v)))"
    using ordered_keys.keys_map_assign [OF ord k m] rep by (simp add: index_rep_def)
  moreover have "contents_ok (rl_entries r) (c(k \<mapsto> (T, v)))"
    using rep T unfolding index_rep_def contents_ok_def by auto
  moreover have "stored_at env (rl_entries r) ?d p (the ((c(k \<mapsto> (T, v))) k'))" if "map_of ?m k' = Some p" for k' p
  proof (cases "k' = k")
    case True
    then have "p = word_of_nat (length d)" using that ordered_keys.map_of_assign [OF ord k m] by simp
    then show ?thesis using True stored_at_end [of env "rl_entries r" d "(T, v)"] by simp
  next
    case False
    then have "map_of m k' = Some p" using that ordered_keys.map_of_assign [OF ord k m] by simp
    then have "stored_at env (rl_entries r) d p (the (c k'))" using rep by (simp add: index_rep_def)
    then show ?thesis using False stored_at_extend by simp
  qed
  moreover have "\<exists>rest. ?d = header_bytes (rl_id r) @ rest" using rep by (auto simp: index_rep_def)
  ultimately show ?thesis unfolding index_rep_def by blast
qed

lemma index_rep_lookup:
  assumes rep: "index_rep env r K c m d" and "c k = Some (T, v)"
  shows "\<exists>p. map_of m k = Some p \<and> stored_at env (rl_entries r) d p (T, v) \<and> is_key K k \<and>
             T \<in> snd ` set (rl_entries r) \<and> storable T v"
proof -
  have "k \<in> fst ` set m" using rep assms(2) by (auto simp: index_rep_def)
  moreover from this obtain p where "map_of m k = Some p" by (metis map_of_eq_None_iff option.exhaust)
  moreover have "stored_at env (rl_entries r) d p (the (c k))" if "map_of m k = Some p" for p
    using rep that by (simp add: index_rep_def)
  moreover have "is_key K k" if "k \<in> fst ` set m" using rep that unfolding index_rep_def sorted_map_def by blast
  ultimately show ?thesis using rep assms(2) by (auto simp: index_rep_def contents_ok_def)
qed

section \<open>Operations on a file\<close>

lemma insert_rep:
  assumes env: "good_env env" and "key_ok K" and rep: "file_rep env r K c f" and k: "is_key K k"
    and T: "T \<in> snd ` set (rl_entries r)" "storable T v"
    and room: "length (file_data f) + 2 ^ 32 < 2 ^ 63 - 1"
  shows "\<exists>f'. indexed_insert env r K (k, T, v) f = Inr f' \<and> file_rep env r K (c(k \<mapsto> (T, v))) f' \<and>
             ix_need_write_index f' \<and> length (file_data f') < length (file_data f) + 2 ^ 32"
proof -
  obtain s where s: "ix_stream_ptr f = Some s" "fs_good s" "index_rep env r K c (ix_index f) (fs_data s)"
    using rep by (auto simp: file_rep_def)
  note short = length_stored_bytes [OF env T(2), of "rl_entries r"]
  have d: "file_data f = fs_data s" by (simp add: file_data_def s)
  have "length (fs_data s) + length (stored_bytes env (rl_entries r) (T, v)) < 2 ^ 63 - 1"
    using room short unfolding d by simp
  from append_block [OF env T(2) s(2) this]
  obtain s' where s': "remembered_append env (rl_entries r) T v s = Inr (int (length (fs_data s)), s')"
      "fs_good s'" "fs_data s' = fs_data s @ stored_bytes env (rl_entries r) (T, v)"
    by (auto simp: fs_appending_def)
  from index_rep_insert [OF assms(2) s(3) k T] s' s(1) room short
  show ?thesis by (simp add: indexed_insert_def deref_stream_def file_rep_def file_data_def)
qed

lemma find_rep:
  assumes "key_ok K" and rep: "file_rep env r K c f" and k: "is_key K k"
  shows "c k = None \<Longrightarrow> indexed_lookup env K k f = Inl KeyMissing"
    and "c k = Some (T, v) \<Longrightarrow> \<exists>p s. indexed_lookup env K k f = Inr (lazy_at env p) \<and>
           ix_stream_ptr f = Some s \<and> fs_good s \<and> length (fs_data s) < 2 ^ 63 - 1 \<and>
           stored_at env (rl_entries r) (fs_data s) p (T, v) \<and> storable T v \<and> T \<in> snd ` set (rl_entries r)"
proof -
  have ord: "ordered_keys (k_less K) (is_key K)" using assms(1) by (simp add: key_ok_def)
  obtain s where s: "ix_stream_ptr f = Some s" "fs_good s" "length (fs_data s) < 2 ^ 63 - 1"
      "index_rep env r K c (ix_index f) (fs_data s)"
    using rep by (auto simp: file_rep_def)
  have m: "sorted_map (k_less K) (is_key K) (ix_index f)" using s(4) by (simp add: index_rep_def)
  note defs = indexed_lookup_def indexed_find_def indexed_range_def make_range_def Let_def
    index_iter_ops_def ephemeral_ops_def vec_ops_def
  show "indexed_lookup env K k f = Inl KeyMissing" if "c k = None"
  proof -
    have "map_of (ix_index f) k = None" using that s(4) by (auto simp: index_rep_def map_of_eq_None_iff)
    from ordered_keys.map_find_None [OF ord k m this] show ?thesis by (simp add: defs)
  qed
  assume "c k = Some (T, v)"
  from index_rep_lookup [OF s(4) this] obtain p where p: "map_of (ix_index f) k = Some p"
      "stored_at env (rl_entries r) (fs_data s) p (T, v)" "T \<in> snd ` set (rl_entries r)" "storable T v" by blast
  from ordered_keys.map_find_Some [OF ord k m p(1)]
  have "indexed_lookup env K k f = Inr (lazy_at env p)" by (simp add: defs)
  with p s show "\<exists>p s. indexed_lookup env K k f = Inr (lazy_at env p) \<and>
           ix_stream_ptr f = Some s \<and> fs_good s \<and> length (fs_data s) < 2 ^ 63 - 1 \<and>
           stored_at env (rl_entries r) (fs_data s) p (T, v) \<and> storable T v \<and> T \<in> snd ` set (rl_entries r)"
    by blast
qed

lemma delayed_read_stored:
  assumes env: "good_env env" and "storable T v" and s: "fs_good s" "length (fs_data s) < 2 ^ 63 - 1"
    and at: "stored_at env entries (fs_data s) p (T, v)"
  shows "\<exists>s'. delayed_read env p s = Inr (stored_block env entries T v, s') \<and> fs_ok (fs_data s) s'"
proof -
  obtain pre post where d: "fs_data s = pre @ block_bytes (stored_block env entries T v) @ post"
      "p = word_of_nat (length pre)" using at by (auto simp: stored_at_def stored_bytes_def)
  from parse_block_at [OF env stored_block_encodable [OF env assms(2)] s d(1)] d(2)
  show ?thesis by (auto simp: delayed_read_def rbind_def split: sum.splits)
qed

lemma lazy_at_deref:
  assumes "delayed_read env p s = Inr (b, s')"
  shows "lazy_deref (lazy_at env p) s = Inr ((b, (lazy_at env p)\<lparr>lazy_result := opt_in_place b\<rparr>), s')"
  by (rule lazy_deref_first) (simp_all add: lazy_at_def lazy_new_def assms)

lemma get_step:
  assumes env: "good_env env" and "key_ok K" and rep: "file_rep env r K c f" and "is_key K k"
    and ck: "c k = Some (V, w)"
  shows "\<exists>s s'. ix_stream_ptr f = Some s \<and> fs_ok (fs_data s) s' \<and>
      indexed_get env r K T k f =
        rbind (accessor_as env (rl_entries r) T (stored_block env (rl_entries r) V w))
          (\<lambda>(v, b). Inr (v, f\<lparr>ix_stream_ptr := Some s'\<rparr>))"
proof -
  from find_rep(2) [OF assms(2) rep assms(4) ck]
  obtain p s where p: "indexed_lookup env K k f = Inr (lazy_at env p)" "ix_stream_ptr f = Some s" "fs_good s"
      "length (fs_data s) < 2 ^ 63 - 1" "stored_at env (rl_entries r) (fs_data s) p (V, w)" "storable V w"
    by blast
  obtain s' where s': "delayed_read env p s = Inr (stored_block env (rl_entries r) V w, s')" "fs_ok (fs_data s) s'"
    using delayed_read_stored [OF env p(6,3,4,5)] by blast
  have "indexed_get env r K T k f =
        rbind (accessor_as env (rl_entries r) T (stored_block env (rl_entries r) V w))
          (\<lambda>(v, b). Inr (v, f\<lparr>ix_stream_ptr := Some s'\<rparr>))"
    using p(1,2) lazy_at_deref [OF s'(1)]
    by (cases "accessor_as env (rl_entries r) T (stored_block env (rl_entries r) V w)")
       (auto simp: indexed_get_def deref_stream_def lazy_block_as_def)
  with p(2) s'(2) show ?thesis by blast
qed

lemma get_rep:
  assumes env: "good_env env" and "key_ok K" and "realm_ok (rl_entries r)" and rep: "file_rep env r K c f"
    and "is_key K k" and "T \<in> snd ` set (rl_entries r)"
  shows "c k = None \<Longrightarrow> indexed_get env r K T k f = Inl KeyMissing"
    and "c k = Some (U, v) \<Longrightarrow> U \<noteq> T \<Longrightarrow> indexed_get env r K T k f = Inl TypeMismatch"
    and "c k = Some (T, v) \<Longrightarrow> \<exists>f'. indexed_get env r K T k f = Inr (v, f') \<and> file_rep env r K c f' \<and>
           ix_index f' = ix_index f \<and> file_data f' = file_data f"
proof -
  note find = find_rep [OF assms(2) rep assms(5)]
  show "c k = None \<Longrightarrow> indexed_get env r K T k f = Inl KeyMissing"
    using find(1) by (simp add: indexed_get_def)
  note step = get_step [OF env assms(2) rep assms(5)]
  show "indexed_get env r K T k f = Inl TypeMismatch" if ck: "c k = Some (U, v)" "U \<noteq> T"
  proof -
    have "storable U v" "U \<in> snd ` set (rl_entries r)" using rep ck(1) by (auto simp: file_rep_def index_rep_def contents_ok_def)
    from accessor_as_other [OF env this(1) assms(3,6) this(2) ck(2)] step [OF ck(1), of T] show ?thesis by auto
  qed
  assume ck: "c k = Some (T, v)"
  then have "storable T v" using rep by (auto simp: file_rep_def index_rep_def contents_ok_def)
  from step [OF ck, of T] accessor_as_stored [OF env this]
  obtain s s' where s': "ix_stream_ptr f = Some s" "fs_ok (fs_data s) s'"
      "indexed_get env r K T k f = Inr (v, f\<lparr>ix_stream_ptr := Some s'\<rparr>)" by auto
  have "file_rep env r K c (f\<lparr>ix_stream_ptr := Some s'\<rparr>)" and "file_data (f\<lparr>ix_stream_ptr := Some s'\<rparr>) = file_data f"
    using rep s'(1,2) by (auto simp: file_rep_def fs_ok_def file_data_def)
  with s'(3) show "\<exists>f'. indexed_get env r K T k f = Inr (v, f') \<and> file_rep env r K c f' \<and>
           ix_index f' = ix_index f \<and> file_data f' = file_data f" by auto
qed

section \<open>Closing and opening\<close>

text \<open>
  The reader finds the marker by its size, so it relies on the marker block not being
  compressed: ten bytes never fit into six, resp. two, bytes of a frame of the libraries.
\<close>

definition long_frames :: "environment \<Rightarrow> bool" where
  "long_frames env \<longleftrightarrow>
     (\<forall>cap src level. length src = 10 \<longrightarrow> 6 < length (fst (zs_compress (env_zstd env) cap src level))) \<and>
     (\<forall>src. length src = 10 \<longrightarrow> 2 < length (fst (lzo_do_compress (env_lzo env) src)))"

lemma encode_short:
  assumes env: "good_env env" and long: "long_frames env" and raw: "length raw = 10"
  shows "\<exists>b. encode_block env i raw encoding = Inr b \<and> content b = raw"
proof -
  have zstd: "\<exists>b. encode_block env i raw PBSF_ENCODING_ZSTD = Inr b \<and> content b = raw"
  proof -
    have "length raw < 2 ^ 31" using raw by simp
    then obtain out cap where out: "zstd_compress (env_zstd env) (env_junk env) raw = Inr out"
        "length out = 4 + length (fst (zs_compress (env_zstd env) cap raw 2))"
      using zstd_layout [of "env_zstd env" raw "env_junk env" "env_junk env"] env by (auto simp: good_env_def)
    then have "length out > length raw" using long raw by (simp add: long_frames_def)
    with out(1) show ?thesis using env raw by (simp add: encode_block.simps encoding_defs block_with_ok)
  qed
  consider "encoding = PBSF_ENCODING_IDENTITY" | "encoding = PBSF_ENCODING_LZO"
    | "encoding \<noteq> PBSF_ENCODING_IDENTITY" "encoding \<noteq> PBSF_ENCODING_LZO" by blast
  then show ?thesis
  proof cases
    case 1
    then show ?thesis using env raw by (simp add: encode_block.simps block_with_ok)
  next
    case 2
    have "length raw < 2 ^ 62 - 128" using raw by simp
    then obtain out where out: "lzo_compress (env_lzo env) (env_junk env) raw = Inr out"
        "length out = 8 + length (fst (lzo_do_compress (env_lzo env) raw))"
      using lzo_layout [of "env_lzo env" raw "env_junk env" "env_junk env"] env by (auto simp: good_env_def)
    then have "length out > length raw" using long raw by (simp add: long_frames_def)
    with out(1) 2 show ?thesis using env raw by (simp add: encode_block.simps encoding_defs block_with_ok)
  next
    case 3
    have "encode_block env i raw encoding = encode_block env i raw PBSF_ENCODING_ZSTD"
      by (subst encode_block.simps) (use 3 in \<open>simp add: encode_block.simps encoding_defs\<close>)
    then show ?thesis using zstd by simp
  qed
qed

lemma length_marker_block:
  assumes "good_env env" and "long_frames env"
  shows "length (stored_bytes env entries (marker_ctype, marker_val mk)) = 19"
proof -
  have "length (encode marker_ty (marker_val mk)) = 10" by (rule length_encode_marker)
  from encode_short [OF assms this, of "type_id marker_ctype entries" "env_preferred_encoding env"]
  have "content (stored_block env entries marker_ctype (marker_val mk)) = encode marker_ty (marker_val mk)"
    by (auto simp: stored_block_def marker_ctype_def)
  then show ?thesis
    by (simp add: stored_bytes_def block_bytes_def length_encode_marker vuint_bytes.simps)
qed

lemma marker_full_size: "marker_full_size = 19"
  by code_simp

text \<open>A closed file ends with the index and the marker.\<close>

definition closed_with :: "environment \<Rightarrow> realm \<Rightarrow> key_type \<Rightarrow> index_map \<Rightarrow> byte list \<Rightarrow> bool" where
  "closed_with env r K m d \<longleftrightarrow>
     length d < 2 ^ 63 - 1 \<and> storable (index_ctype K) (index_val m) \<and>
     (\<exists>pre. d = pre @ stored_bytes env (index_meta_realm K) (index_ctype K, index_val m) @
        stored_bytes env (index_meta_realm K) (marker_ctype, marker_val
          \<lparr>mk_pos = word_of_nat (length pre), mk_keyid = type_id (k_type K) (rl_entries r)\<rparr>))"

lemma meta_realm: "realm_ok (index_meta_realm K)"
  by (simp add: realm_ok_def index_meta_realm_def marker_ctype_def index_ctype_def)

definition file_marker :: "realm \<Rightarrow> key_type \<Rightarrow> byte list \<Rightarrow> index_position_marker" where
  "file_marker r K pre =
     \<lparr>mk_pos = word_of_nat (length pre), mk_keyid = type_id (k_type K) (rl_entries r)\<rparr>"

lemma closed_with_parts:
  assumes "closed_with env r K m d"
  obtains pre where "d = pre @ stored_bytes env (index_meta_realm K) (index_ctype K, index_val m) @
      stored_bytes env (index_meta_realm K) (marker_ctype, marker_val (file_marker r K pre))"
    and "length d < 2 ^ 63 - 1" and "storable (index_ctype K) (index_val m)"
  using assms by (auto simp: closed_with_def file_marker_def)

text \<open>The marker has the same id in the meta realm of every key type.\<close>

lemma marker_block_meta:
  "stored_block env (index_meta_realm K) marker_ctype v = stored_block env (index_meta_realm K') marker_ctype v"
proof -
  have "type_id marker_ctype (index_meta_realm K) = - 10" for K
    by (rule lookup_id_entry(2) [OF meta_realm]) (simp add: index_meta_realm_def)
  then show ?thesis by (simp add: stored_block_def)
qed

lemma read_marker:
  assumes env: "good_env env" and long: "long_frames env" and s: "fs_good s" "length (fs_data s) < 2 ^ 63 - 1"
    and d: "fs_data s = front @ stored_bytes env (index_meta_realm K) (marker_ctype, marker_val mk)"
  shows "\<exists>s1 s2. fs_seekg_end (- sint marker_full_size) s = Inr s1 \<and> fs_ok (fs_data s) s2 \<and>
      parse (env_cfg env) fs_ops block_ty s1 =
        Inr (block_val (stored_block env (index_meta_realm K') marker_ctype (marker_val mk)), s2)"
proof -
  let ?mb = "stored_block env (index_meta_realm K) marker_ctype (marker_val mk)"
  have l19: "length (stored_bytes env (index_meta_realm K) (marker_ctype, marker_val mk)) = 19"
    by (rule length_marker_block [OF env long])
  define s1 where "s1 = s\<lparr>fs_pos := length (fs_data s) - 19\<rparr>"
  have s1: "fs_seekg_end (- sint marker_full_size) s = Inr s1"
    using fs_seekg_end_good [OF s(1), of 19] d l19 by (simp add: marker_full_size s1_def)
  have "fs_rem s1 = block_bytes ?mb @ []"
    using d l19 by (simp add: s1_def fs_rem_def stored_bytes_def)
  from parse_block_here [OF env stored_block_encodable [OF env marker_storable] _ _ this] s
  obtain s2 where "parse (env_cfg env) fs_ops block_ty s1 = Inr (block_val ?mb, s2)" "fs_ok (fs_data s) s2"
    by (auto simp: s1_def)
  with s1 show ?thesis unfolding marker_block_meta [of env K _ K'] by blast
qed

lemma read_current_index_closed:
  assumes env: "good_env env" and long: "long_frames env" and closed: "closed_with env r K m (fs_data s)"
    and s: "fs_good s"
  shows "\<exists>s'. read_current_index env r K s = Inr (m, s') \<and> fs_ok (fs_data s) s'"
proof -
  let ?meta = "index_meta_realm K"
  obtain pre where d: "fs_data s = pre @ stored_bytes env ?meta (index_ctype K, index_val m) @
        stored_bytes env ?meta (marker_ctype, marker_val (file_marker r K pre))"
      and len: "length (fs_data s) < 2 ^ 63 - 1" and st: "storable (index_ctype K) (index_val m)"
    by (rule closed_with_parts [OF closed])
  let ?mk = "file_marker r K pre"
  let ?mb = "stored_block env ?meta marker_ctype (marker_val ?mk)"
  let ?ib = "stored_block env ?meta (index_ctype K) (index_val m)"
  have "fs_data s = (pre @ stored_bytes env ?meta (index_ctype K, index_val m)) @
      stored_bytes env ?meta (marker_ctype, marker_val ?mk)" using d by simp
  from read_marker [OF env long s len this]
  obtain s1 s2 where s1: "fs_seekg_end (- sint marker_full_size) s = Inr s1"
      and s2: "parse (env_cfg env) fs_ops block_ty s1 = Inr (block_val ?mb, s2)" "fs_ok (fs_data s) s2" by blast
  have "fs_data s2 = pre @ block_bytes ?ib @ block_bytes ?mb" "fs_good s2" "length (fs_data s2) < 2 ^ 63 - 1"
    using s2(2) d len by (auto simp: fs_ok_def stored_bytes_def)
  from parse_block_at [OF env stored_block_encodable [OF env st] this(2,3,1)]
  obtain s4 where s4: "rbind (fs_seekg (sint (word_of_nat (length pre) :: 64 word)) s2)
      (parse (env_cfg env) fs_ops block_ty) = Inr (block_val ?ib, s4)" "fs_ok (fs_data s) s4"
    using s2(2) by (auto simp: fs_ok_def)
  from s4(1) obtain s3 where s3: "fs_seekg (sint (word_of_nat (length pre) :: 64 word)) s2 = Inr s3"
      "parse (env_cfg env) fs_ops block_ty s3 = Inr (block_val ?ib, s4)"
    by (auto simp: rbind_Inr_iff)
  have "read_current_index env r K s = Inr (m, s4)"
    using s1 s2(1) s3 accessor_as_stored [OF env marker_storable, of ?meta ?mk] accessor_as_stored [OF env st, of ?meta]
    by (simp add: read_current_index_def Let_def) (simp add: file_marker_def)
  with s4(2) show ?thesis by blast
qed

lemma read_current_index_mismatch:
  assumes env: "good_env env" and long: "long_frames env" and closed: "closed_with env r K m (fs_data s)"
    and s: "fs_good s" and key: "type_id (k_type K) (rl_entries r) \<noteq> type_id (k_type K') (rl_entries r)"
  shows "read_current_index env r K' s = Inl KeyMismatch"
proof -
  let ?meta = "index_meta_realm K"
  obtain pre where d: "fs_data s = (pre @ stored_bytes env ?meta (index_ctype K, index_val m)) @
        stored_bytes env ?meta (marker_ctype, marker_val (file_marker r K pre))"
      and len: "length (fs_data s) < 2 ^ 63 - 1"
    using closed_with_parts [OF closed] by (metis append.assoc)
  from read_marker [OF env long s len d, of K'] accessor_as_stored [OF env marker_storable, of "index_meta_realm K'"]
  show ?thesis using key by (auto simp: read_current_index_def Let_def file_marker_def)
qed

text \<open>Opening a file that starts with a header checks the realm and then reads the index.\<close>

definition opened :: "(index_map \<times> fstream) result \<Rightarrow> indexed_file result" where
  "opened res = rbind res (\<lambda>(index, s).
     Inr \<lparr>ix_stream_ptr = Some s, ix_index = index, ix_need_write_index = False\<rparr>)"

lemma open_header:
  assumes cfg: "fuel_enough (env_cfg env)" and d: "d = header_bytes i @ rest" and len: "length d < 2 ^ 63 - 1"
  shows "\<exists>s. fs_ok d s \<and> open_indexed_input_file env (Some d) r K =
      (if rl_id r = i then opened (read_current_index env r K s) else Inl UnknownRealm)"
    and "\<exists>s. fs_ok d s \<and> open_indexed_output_file env (Some d) r K False =
      (if rl_id r = i then opened (read_current_index env r K s) else Inl UnknownRealm)"
proof -
  define i0 where "i0 = (ifstream_open (Some d))\<lparr>fs_throw := True\<rparr>"
  have i0: "fs_ok d i0" "fs_pos i0 = 0" "fs_exceptions (ifstream_open (Some d)) = Inr i0"
    using len fs_exceptions_ok [of "ifstream_open (Some d)"]
    by (simp_all add: i0_def ifstream_open_def fs_good_def fs_ok_def)
  from check_header_at_start [OF cfg i0(1,2) d, of r]
  obtain i1 where "check_file env fs_ops r i0 = Inr (rl_id r = i, i1)" "fs_ok d i1" by auto
  then show "\<exists>s. fs_ok d s \<and> open_indexed_input_file env (Some d) r K =
      (if rl_id r = i then opened (read_current_index env r K s) else Inl UnknownRealm)"
    by (intro exI [of _ i1]) (simp add: open_indexed_input_file_def i0(3) opened_def)
  define o0 where "o0 = (fstream_open False (Some d))\<lparr>fs_throw := True\<rparr>"
  have o0: "fs_good o0" "fs_data o0 = d" "fs_pos o0 = length d" "fs_exceptions (fstream_open False (Some d)) = Inr o0"
    using fs_exceptions_ok [of "fstream_open False (Some d)"]
    by (simp_all add: o0_def fstream_open_def fs_good_def Let_def)
  have tell: "fs_tellg o0 = Inr (int (length d), o0)" "length d \<noteq> 0"
    using o0 d by (simp_all add: fs_tellg_def fs_good_def)
  have seek: "fs_seekg 0 o0 = Inr (o0\<lparr>fs_pos := 0\<rparr>)" using fs_seekg_good [OF o0(1), of 0] by simp
  have "fs_ok d (o0\<lparr>fs_pos := 0\<rparr>)" using o0 len by (simp add: fs_ok_def)
  from check_header_at_start [OF cfg this _ d, of r]
  obtain o1 where "check_file env fs_ops r (o0\<lparr>fs_pos := 0\<rparr>) = Inr (rl_id r = i, o1)" "fs_ok d o1" by auto
  then show "\<exists>s. fs_ok d s \<and> open_indexed_output_file env (Some d) r K False =
      (if rl_id r = i then opened (read_current_index env r K s) else Inl UnknownRealm)"
    using tell(2) by (intro exI [of _ o1]) (simp add: open_indexed_output_file_def o0(4) tell(1) seek opened_def)
qed

lemma open_existing:
  assumes env: "good_env env" and long: "long_frames env" and rep: "index_rep env r K c m d"
    and closed: "closed_with env r K m d"
  shows "\<exists>f. open_indexed_input_file env (Some d) r K = Inr f \<and> file_rep env r K c f \<and>
             \<not> ix_need_write_index f \<and> ix_index f = m \<and> file_data f = d"
    and "\<exists>f. open_indexed_output_file env (Some d) r K False = Inr f \<and> file_rep env r K c f \<and>
             \<not> ix_need_write_index f \<and> ix_index f = m \<and> file_data f = d"
proof -
  have cfg: "fuel_enough (env_cfg env)" using env by (simp add: good_env_def)
  have len: "length d < 2 ^ 63 - 1" using closed by (simp add: closed_with_def)
  obtain rest where d: "d = header_bytes (rl_id r) @ rest" using rep by (auto simp: index_rep_def)
  have final: "\<exists>f. opened (read_current_index env r K s) = Inr f \<and> file_rep env r K c f \<and>
             \<not> ix_need_write_index f \<and> ix_index f = m \<and> file_data f = d" if "fs_ok d s" for s
    using read_current_index_closed [OF env long, of r K m s] that rep closed
    by (auto simp: file_rep_def fs_ok_def opened_def file_data_def)
  show "\<exists>f. open_indexed_input_file env (Some d) r K = Inr f \<and> file_rep env r K c f \<and>
             \<not> ix_need_write_index f \<and> ix_index f = m \<and> file_data f = d"
    using open_header(1) [OF cfg d len, of r K] final by auto
  show "\<exists>f. open_indexed_output_file env (Some d) r K False = Inr f \<and> file_rep env r K c f \<and>
             \<not> ix_need_write_index f \<and> ix_index f = m \<and> file_data f = d"
    using open_header(2) [OF cfg d len, of r K] final by auto
qed

lemma open_other_key:
  assumes env: "good_env env" and long: "long_frames env" and rep: "index_rep env r K c m d"
    and closed: "closed_with env r K m d"
    and key: "type_id (k_type K) (rl_entries r) \<noteq> type_id (k_type K') (rl_entries r)"
  shows "open_indexed_input_file env (Some d) r K' = Inl KeyMismatch"
    and "open_indexed_output_file env (Some d) r K' False = Inl KeyMismatch"
proof -
  have cfg: "fuel_enough (env_cfg env)" using env by (simp add: good_env_def)
  have len: "length d < 2 ^ 63 - 1" using closed by (simp add: closed_with_def)
  obtain rest where d: "d = header_bytes (rl_id r) @ rest" using rep by (auto simp: index_rep_def)
  have "opened (read_current_index env r K' s) = Inl KeyMismatch" if "fs_ok d s" for s
    using read_current_index_mismatch [OF env long, of r K m s K'] that closed key
    by (simp add: fs_ok_def opened_def)
  with open_header [OF cfg d len, of r K']
  show "open_indexed_input_file env (Some d) r K' = Inl KeyMismatch"
    and "open_indexed_output_file env (Some d) r K' False = Inl KeyMismatch" by auto
qed

lemma close_rep:
  assumes env: "good_env env" and "key_ok K" and rep: "file_rep env r K c f"
    and need: "ix_need_write_index f" and space: "index_space K (dom c) < 2 ^ 31"
    and room: "length (file_data f) + 2 ^ 33 < 2 ^ 63 - 1"
  shows "\<exists>f'. indexed_close env r K f = Inr f' \<and> ix_stream_ptr f' \<noteq> None \<and>
      index_rep env r K c (ix_index f) (file_data f') \<and> closed_with env r K (ix_index f) (file_data f') \<and>
      length (file_data f') < length (file_data f) + 2 ^ 33"
proof -
  let ?meta = "index_meta_realm K" and ?m = "ix_index f"
  obtain s where s: "ix_stream_ptr f = Some s" "fs_good s" "index_rep env r K c ?m (fs_data s)"
    using rep by (auto simp: file_rep_def)
  have d: "file_data f = fs_data s" by (simp add: file_data_def s(1))
  have st: "storable (index_ctype K) (index_val ?m)"
    using index_storable [OF assms(2), of ?m] s(3) space by (simp add: index_rep_def)
  let ?mk = "\<lparr>mk_pos = word_of_nat (length (fs_data s)), mk_keyid = type_id (k_type K) (rl_entries r)\<rparr>"
  let ?ib = "stored_bytes env ?meta (index_ctype K, index_val ?m)"
  let ?mb = "stored_bytes env ?meta (marker_ctype, marker_val ?mk)"
  have li: "length ?ib < 2 ^ 32" by (rule length_stored_bytes [OF env st])
  have lm: "length ?mb < 2 ^ 32" by (rule length_stored_bytes [OF env marker_storable])
  have "length (fs_data s) + length ?ib < 2 ^ 63 - 1" using room li unfolding d by simp
  from append_block [OF env st s(2) this]
  obtain s1 where s1: "remembered_append env ?meta (index_ctype K) (index_val ?m) s = Inr (int (length (fs_data s)), s1)"
      "fs_appending s1" "fs_data s1 = fs_data s @ ?ib" by blast
  have "fs_cap s1 (length ?mb + 0)" using room li lm unfolding d by (simp add: fs_cap_def s1(3))
  from emitsD [OF fs_out.emits_write_block [OF env marker_storable] s1(2) this]
  obtain s2 where s2: "write_block env fs_out_ops ?meta marker_ctype (marker_val ?mk) s1 = Inr s2"
      "fs_data s2 = fs_data s @ ?ib @ ?mb" using s1(3) by auto
  let ?f = "f\<lparr>ix_stream_ptr := Some s2\<rparr>"
  have close: "indexed_close env r K f = Inr ?f"
    using need s(1) s1(1) s2(1) by (simp add: indexed_close_def deref_stream_def)
  have data: "file_data ?f = fs_data s @ ?ib @ ?mb" by (simp add: file_data_def s2(2))
  have len: "length (file_data ?f) < length (file_data f) + 2 ^ 33" using li lm by (simp add: data d)
  have "closed_with env r K ?m (file_data ?f)"
    unfolding closed_with_def data using len room st unfolding data d by auto
  moreover have "index_rep env r K c ?m (file_data ?f)" unfolding data by (rule index_rep_extend [OF s(3)])
  ultimately show ?thesis using close len by auto
qed

section \<open>Sessions\<close>

definition saved_file :: "environment \<Rightarrow> realm \<Rightarrow> key_type \<Rightarrow> contents \<Rightarrow> byte list \<Rightarrow> bool" where
  "saved_file env r K c d \<longleftrightarrow> (\<exists>m. index_rep env r K c m d \<and> closed_with env r K m d)"

lemma saved_nonempty: "\<not> saved_file env r K c []"
proof
  assume "saved_file env r K c []"
  then obtain rest where "[] = header_bytes (rl_id r) @ rest" by (auto simp: saved_file_def index_rep_def)
  then have "length (header_bytes (rl_id r)) = 0" by simp
  then show False by simp
qed

fun insert_all :: "(val \<times> ctype \<times> val) list \<Rightarrow> contents \<Rightarrow> contents" where
  "insert_all [] c = c"
| "insert_all ((k, item) # inserts) c = insert_all inserts (c(k \<mapsto> item))"

definition inserts_ok :: "realm \<Rightarrow> key_type \<Rightarrow> (val \<times> ctype \<times> val) list \<Rightarrow> bool" where
  "inserts_ok r K inserts \<longleftrightarrow>
     (\<forall>(k, T, v) \<in> set inserts. is_key K k \<and> T \<in> snd ` set (rl_entries r) \<and> storable T v)"

lemma inserts_rep:
  assumes env: "good_env env" and K: "key_ok K"
  shows "file_rep env r K c f \<Longrightarrow> inserts_ok r K inserts \<Longrightarrow>
    length (file_data f) + 2 ^ 32 * (length inserts + 1) < 2 ^ 63 - 1 \<Longrightarrow>
    \<exists>f'. out_copy (indexed_write_ops env r K) inserts f = Inr f' \<and> file_rep env r K (insert_all inserts c) f' \<and>
         (ix_need_write_index f' \<longleftrightarrow> ix_need_write_index f \<or> inserts \<noteq> []) \<and>
         length (file_data f') \<le> length (file_data f) + 2 ^ 32 * length inserts \<and>
         (inserts = [] \<longrightarrow> f' = f)"
proof (induction inserts arbitrary: c f)
  case Nil
  then show ?case by simp
next
  case (Cons ins inserts)
  obtain k T v where ins: "ins = (k, T, v)" by (metis prod_cases3)
  have ok: "is_key K k" "T \<in> snd ` set (rl_entries r)" "storable T v" "inserts_ok r K inserts"
    using Cons.prems(2) by (auto simp: ins inserts_ok_def)
  have "length (file_data f) + 2 ^ 32 < 2 ^ 63 - 1" using Cons.prems(3) by simp
  from insert_rep [OF env K Cons.prems(1) ok(1,2,3) this]
  obtain f1 where f1: "indexed_insert env r K (k, T, v) f = Inr f1" "file_rep env r K (c(k \<mapsto> (T, v))) f1"
      "ix_need_write_index f1" "length (file_data f1) < length (file_data f) + 2 ^ 32" by blast
  have "length (file_data f1) + 2 ^ 32 * (length inserts + 1) < 2 ^ 63 - 1"
    using f1(4) Cons.prems(3) by simp
  from Cons.IH [OF f1(2) ok(4) this]
  obtain f' where f': "out_copy (indexed_write_ops env r K) inserts f1 = Inr f'"
      "file_rep env r K (insert_all (ins # inserts) c) f'" "ix_need_write_index f'"
      "length (file_data f') \<le> length (file_data f1) + 2 ^ 32 * length inserts"
    using f1(3) by (auto simp only: ins insert_all.simps)
  have "out_copy (indexed_write_ops env r K) (ins # inserts) f = Inr f'"
    using f1(1) f'(1) by (simp add: ins indexed_write_ops_def variadic_insert_ops_def mixin_incr_def)
  moreover have "length (file_data f') \<le> length (file_data f) + 2 ^ 32 * length (ins # inserts)"
    using f'(4) f1(4) by simp
  ultimately show ?case using f'(2,3) by blast
qed

lemma open_new:
  assumes "overwrite \<or> file \<in> {None, Some []}"
  shows "\<exists>f. open_indexed_output_file env file r K overwrite = Inr f \<and> file_rep env r K Map.empty f \<and>
             ix_need_write_index f \<and> length (file_data f) = 8"
proof -
  define s0 where "s0 = (fstream_open overwrite file)\<lparr>fs_throw := True\<rparr>"
  have s0: "fs_data s0 = []" "fs_pos s0 = 0" "fs_good s0"
    using assms by (auto simp: s0_def fstream_open_def Let_def fs_good_def)
  then have "fs_appending s0" "fs_cap s0 (length (header_bytes (rl_id r)) + 0)"
    by (simp_all add: fs_appending_def fs_cap_def)
  from emitsD [OF fs_out.emits_write_header this]
  obtain s where s: "write_header env fs_out_ops r s0 = Inr s" "fs_appending s" "fs_data s = header_bytes (rl_id r)"
    using s0 by auto
  moreover have "fs_exceptions (fstream_open overwrite file) = Inr s0"
    unfolding s0_def by (rule fs_exceptions_ok) (simp add: fstream_open_def Let_def)
  moreover have "fs_tellg s0 = Inr (0, s0)" using s0 by (simp add: fs_tellg_def fs_good_def)
  ultimately have "open_indexed_output_file env file r K overwrite =
      Inr \<lparr>ix_stream_ptr = Some s, ix_index = [], ix_need_write_index = True\<rparr>"
    by (simp add: open_indexed_output_file_def)
  moreover have "file_rep env r K Map.empty \<lparr>ix_stream_ptr = Some s, ix_index = [], ix_need_write_index = True\<rparr>"
    using s(2,3) by (simp add: file_rep_def fs_appending_def index_rep_def contents_ok_def)
  ultimately show ?thesis using s(3) by (simp add: file_data_def)
qed

lemma session_saved:
  assumes env: "good_env env" and long: "long_frames env" and K: "key_ok K" and ins: "inserts_ok r K inserts"
    and before: "(overwrite \<or> file \<in> {None, Some []}) \<and> c = Map.empty \<and> n = 8 \<or>
      \<not> overwrite \<and> (\<exists>d. file = Some d \<and> saved_file env r K c d \<and> n = length d)"
    and space: "index_space K (dom (insert_all inserts c)) < 2 ^ 31"
    and room: "n + 2 ^ 32 * (length inserts + 4) < 2 ^ 63 - 1"
  shows "\<exists>d. index_session env r K overwrite inserts file = Inr d \<and> saved_file env r K (insert_all inserts c) d \<and>
             length d \<le> n + 2 ^ 32 * (length inserts + 2)"
proof -
  obtain f where f: "open_indexed_output_file env file r K overwrite = Inr f" "file_rep env r K c f"
      "length (file_data f) = n"
      "ix_need_write_index f \<or> saved_file env r K c (file_data f)"
  proof (cases "overwrite \<or> file \<in> {None, Some []}")
    case True
    then have "c = Map.empty" "n = 8" using before saved_nonempty by auto
    with open_new [OF True, of env r K] that show ?thesis by auto
  next
    case False
    then obtain d m where d: "file = Some d" "\<not> overwrite" "n = length d" "index_rep env r K c m d" "closed_with env r K m d"
      using before by (auto simp: saved_file_def)
    with open_existing(2) [OF env long d(4,5)] that show ?thesis by (auto simp: saved_file_def)
  qed
  have "length (file_data f) + 2 ^ 32 * (length inserts + 1) < 2 ^ 63 - 1" using room f(3) by simp
  from inserts_rep [OF env K f(2) ins this]
  obtain f1 where f1: "out_copy (indexed_write_ops env r K) inserts f = Inr f1"
      "file_rep env r K (insert_all inserts c) f1"
      "ix_need_write_index f1 \<longleftrightarrow> ix_need_write_index f \<or> inserts \<noteq> []"
      "length (file_data f1) \<le> n + 2 ^ 32 * length inserts" "inserts = [] \<longrightarrow> f1 = f"
    using f(3) by auto
  have stream: "rbind (deref_stream g) (\<lambda>s. Inr (fs_data s)) = Inr (file_data g)" if "ix_stream_ptr g \<noteq> None" for g
    using that by (auto simp: deref_stream_def file_data_def)
  show ?thesis
  proof (cases "ix_need_write_index f1")
    case True
    have "length (file_data f1) + 2 ^ 33 < 2 ^ 63 - 1" using room f1(4) by simp
    from close_rep [OF env K f1(2) True space this]
    obtain f2 where f2: "indexed_close env r K f1 = Inr f2" "ix_stream_ptr f2 \<noteq> None"
        "saved_file env r K (insert_all inserts c) (file_data f2)"
        "length (file_data f2) < length (file_data f1) + 2 ^ 33"
      by (auto simp: saved_file_def)
    then show ?thesis using f(1) f1(1,4) stream [OF f2(2)] by (simp add: index_session_def)
  next
    case False
    then have "f1 = f" "inserts = []" "saved_file env r K c (file_data f)" using f(4) f1(3,5) by auto
    moreover have "ix_stream_ptr f \<noteq> None" using f(2) by (auto simp: file_rep_def)
    ultimately show ?thesis using f(1,3) False stream [of f]
      by (simp add: index_session_def indexed_close_def)
  qed
qed

end
