(* ===== verification/KeyTypes.thy ===== *)
theory KeyTypes
  imports IndexedFileFacts
begin

text \<open>
  The key types the tests and examples use with indexed files, and \<^verbatim>\<open>std::less\<close> on them:
  unsigned integers of every width, and \<^verbatim>\<open>std::string\<close>, which compares lexicographically
  by the characters as \<^verbatim>\<open>unsigned char\<close>. Both meet what \<^verbatim>\<open>std::map\<close> asks of a comparison.
\<close>

section \<open>Unsigned integers\<close>

definition uint_less :: "val \<Rightarrow> val \<Rightarrow> bool" where
  "uint_less a b = (case (a, b) of (VPrim x, VPrim y) \<Rightarrow> prim_nat x < prim_nat y | _ \<Rightarrow> False)"

definition uint_key :: "string \<Rightarrow> prim_ty \<Rightarrow> key_type" where
  "uint_key n p = \<lparr>k_type = \<lparr>c_name = n, c_ty = TPrim p\<rparr>, k_less = uint_less\<rparr>"

lemma prim_nat_inj: "prim_has_type x p \<Longrightarrow> prim_has_type y p \<Longrightarrow> prim_nat x = prim_nat y \<Longrightarrow> x = y"
  by (cases x; cases y; cases p) (simp_all add: word_unat_eq_iff)

interpretation uint_keys: ordered_keys uint_less "has_type (TPrim p)"
proof unfold_locales
  fix a b c
  show "has_type (TPrim p) a \<Longrightarrow> \<not> uint_less a a" by (auto simp: uint_less_def has_type_prim(1))
  show "has_type (TPrim p) a \<Longrightarrow> has_type (TPrim p) b \<Longrightarrow> has_type (TPrim p) c \<Longrightarrow>
      uint_less a b \<Longrightarrow> uint_less b c \<Longrightarrow> uint_less a c"
    by (auto simp: uint_less_def has_type_prim(1))
  show "has_type (TPrim p) a \<Longrightarrow> has_type (TPrim p) b \<Longrightarrow> uint_less a b \<or> a = b \<or> uint_less b a"
    using prim_nat_inj [of _ p] by (auto simp: uint_less_def has_type_prim(1) not_less dest!: le_neq_implies_less)
qed

lemma uint_key_ok: "key_ok (uint_key n p)"
  using uint_keys.ordered_keys_axioms by (simp add: key_ok_def uint_key_def)

section \<open>Strings\<close>

definition string_ty :: ty where
  "string_ty = TSeq (SeqVec (2 ^ 62 - 1)) (TPrim Num1)"

definition string_chars :: "val \<Rightarrow> nat list" where
  "string_chars v = (case v of VSeq vs \<Rightarrow> map (\<lambda>x. case x of VPrim c \<Rightarrow> prim_nat c | _ \<Rightarrow> 0) vs | _ \<Rightarrow> [])"

definition string_less :: "val \<Rightarrow> val \<Rightarrow> bool" where
  "string_less a b = ord_class.lexordp (string_chars a) (string_chars b)"

definition string_key :: "string \<Rightarrow> key_type" where
  "string_key n = \<lparr>k_type = \<lparr>c_name = n, c_ty = string_ty\<rparr>, k_less = string_less\<rparr>"

lemma char_vals_inj:
  "list_all (has_type (TPrim p)) vs \<Longrightarrow> list_all (has_type (TPrim p)) us \<Longrightarrow>
   map (\<lambda>x. case x of VPrim c \<Rightarrow> prim_nat c | _ \<Rightarrow> 0) vs = map (\<lambda>x. case x of VPrim c \<Rightarrow> prim_nat c | _ \<Rightarrow> 0) us \<Longrightarrow>
   vs = us"
proof (induction vs arbitrary: us)
  case (Cons v vs)
  then obtain u us' where u: "us = u # us'" by (cases us) auto
  then show ?case using Cons prim_nat_inj [of _ p] by (auto simp: has_type_prim(1))
qed simp

lemma string_chars_inj:
  assumes "has_type string_ty a" and "has_type string_ty b" and "string_chars a = string_chars b"
  shows "a = b"
proof -
  obtain vs us where "a = VSeq vs" "b = VSeq us" "list_all (has_type (TPrim Num1)) vs" "list_all (has_type (TPrim Num1)) us"
    using assms(1,2) unfolding string_ty_def has_type.simps by (auto split: val.splits)
  then show ?thesis using assms(3) char_vals_inj [of Num1 vs us] by (simp add: string_chars_def)
qed

interpretation string_keys: ordered_keys string_less "has_type string_ty"
proof unfold_locales
  fix a b c
  show "\<not> string_less a a" by (simp add: string_less_def lexordp_irreflexive')
  show "string_less a b \<Longrightarrow> string_less b c \<Longrightarrow> string_less a c"
    unfolding string_less_def by (rule lexordp_trans)
  show "has_type string_ty a \<Longrightarrow> has_type string_ty b \<Longrightarrow> string_less a b \<or> a = b \<or> string_less b a"
    using lexordp_linear [of "string_chars a" "string_chars b"] string_chars_inj
    by (auto simp: string_less_def)
qed

lemma string_key_ok: "key_ok (string_key n)"
  using string_keys.ordered_keys_axioms
  by (simp add: key_ok_def string_key_def) (simp add: string_ty_def)

end
