(* ===== verification/IndexSessions.thy ===== *)
theory IndexSessions
  imports IndexedFileFacts
begin

text \<open>
  The life of an indexed file: sessions one after the other, each of which opens the file, with or
  without overwriting, inserts objects and closes it. Every session leaves a file that represents
  the map with its insertions, and readers find that map.
\<close>

section \<open>Sessions\<close>

fun index_sessions ::
  "environment \<Rightarrow> realm \<Rightarrow> key_type \<Rightarrow> (bool \<times> (val \<times> ctype \<times> val) list) list \<Rightarrow> byte list option \<Rightarrow>
   byte list option result" where
  "index_sessions env r K [] file = Inr file"
| "index_sessions env r K ((overwrite, inserts) # rest) file =
     rbind (index_session env r K overwrite inserts file) (\<lambda>d. index_sessions env r K rest (Some d))"

fun contents_after :: "(bool \<times> (val \<times> ctype \<times> val) list) list \<Rightarrow> contents \<Rightarrow> contents" where
  "contents_after [] c = c"
| "contents_after ((overwrite, inserts) # rest) c =
     contents_after rest (insert_all inserts (if overwrite then Map.empty else c))"

definition inserted_keys :: "(bool \<times> (val \<times> ctype \<times> val) list) list \<Rightarrow> val set" where
  "inserted_keys sessions = (\<Union>(ow, inserts) \<in> set sessions. fst ` set inserts)"

text \<open>Room for the sessions: every block and every index is shorter than \<open>2 ^ 32\<close> bytes.\<close>

definition room_for :: "(bool \<times> (val \<times> ctype \<times> val) list) list \<Rightarrow> nat" where
  "room_for sessions = 2 ^ 32 * (\<Sum>(ow, inserts) \<leftarrow> sessions. length inserts + 4)"

lemma room_for_Cons: "room_for ((ow, inserts) # rest) = 2 ^ 32 * (length inserts + 4) + room_for rest"
  by (simp add: room_for_def)

lemma finite_inserted_keys: "finite (inserted_keys sessions)"
  by (auto simp: inserted_keys_def)

lemma dom_insert_all: "dom (insert_all inserts c) = fst ` set inserts \<union> dom c"
proof (induction inserts arbitrary: c)
  case (Cons ins inserts)
  then show ?case by (cases ins) auto
qed simp

lemma index_space_mono:
  assumes "A \<subseteq> B" and "finite B"
  shows "index_space K A \<le> index_space K B"
  unfolding index_space_def by (intro add_left_mono sum_mono2 assms) simp

lemma sessions_saved:
  assumes env: "good_env env" and long: "long_frames env" and K: "key_ok K"
  shows "\<forall>(ow, inserts) \<in> set sessions. inserts_ok r K inserts \<Longrightarrow> saved_file env r K c d \<Longrightarrow>
    index_space K (inserted_keys sessions \<union> dom c) < 2 ^ 31 \<Longrightarrow> finite (dom c) \<Longrightarrow> 8 \<le> length d \<Longrightarrow>
    length d + room_for sessions < 2 ^ 63 - 1 \<Longrightarrow>
    \<exists>d'. index_sessions env r K sessions (Some d) = Inr (Some d') \<and> saved_file env r K (contents_after sessions c) d'"
proof (induction sessions arbitrary: c d)
  case (Cons session sessions)
  obtain ow ins where session: "session = (ow, ins)" by fastforce
  let ?old = "if ow then Map.empty else c" and ?n = "if ow then 8 else length d"
  have keys: "inserted_keys (session # sessions) = fst ` set ins \<union> inserted_keys sessions"
    by (simp add: inserted_keys_def session)
  have sub: "inserted_keys sessions \<union> dom (insert_all ins ?old) \<subseteq> inserted_keys (session # sessions) \<union> dom c"
    by (auto simp: keys dom_insert_all)
  have fin: "finite (inserted_keys (session # sessions) \<union> dom c)"
    using finite_inserted_keys Cons.prems(4) by blast
  note space = le_less_trans [OF index_space_mono [OF _ fin] Cons.prems(3)]
  have "?n + 2 ^ 32 * (length ins + 4) < 2 ^ 63 - 1"
    using Cons.prems(5,6) by (simp add: session room_for_Cons)
  moreover have "(ow \<or> Some d \<in> {None, Some []}) \<and> ?old = Map.empty \<and> ?n = 8 \<or>
      \<not> ow \<and> (\<exists>d'. Some d = Some d' \<and> saved_file env r K ?old d' \<and> ?n = length d')"
    using Cons.prems(2) by simp
  moreover have "inserts_ok r K ins" using Cons.prems(1) by (auto simp: session)
  ultimately obtain d1 where d1: "index_session env r K ow ins (Some d) = Inr d1"
      "saved_file env r K (insert_all ins ?old) d1" "length d1 \<le> ?n + 2 ^ 32 * (length ins + 2)"
    using session_saved [OF env long K, of r ins ow "Some d" ?old ?n] space [of "dom (insert_all ins ?old)"] sub
    by blast
  have "8 \<le> length d1" using d1(2) by (auto simp: saved_file_def index_rep_def)
  moreover have "length d1 + room_for sessions < 2 ^ 63 - 1"
    using d1(3) Cons.prems(5,6) by (simp add: session room_for_Cons split: if_splits)
  moreover have "finite (dom (insert_all ins ?old))" using finite_subset [OF sub fin] by blast
  ultimately obtain d' where "index_sessions env r K sessions (Some d1) = Inr (Some d')"
      "saved_file env r K (contents_after sessions (insert_all ins ?old)) d'"
    using Cons.IH [OF _ d1(2) space [OF sub]] Cons.prems(1) by auto
  then show ?case using d1(1) by (auto simp: session)
qed simp

lemma sessions_from_scratch:
  assumes env: "good_env env" and long: "long_frames env" and K: "key_ok K"
    and ins: "\<forall>(ow, inserts) \<in> set sessions. inserts_ok r K inserts" and "sessions \<noteq> []"
    and space: "index_space K (inserted_keys sessions) < 2 ^ 31" and room: "room_for sessions < 2 ^ 63 - 16"
  shows "\<exists>d. index_sessions env r K sessions None = Inr (Some d) \<and>
             saved_file env r K (contents_after sessions Map.empty) d"
proof -
  obtain ow its rest where ses: "sessions = (ow, its) # rest" using assms(5) by (cases sessions) auto
  let ?c = "insert_all its Map.empty"
  have keys: "inserted_keys sessions = inserted_keys rest \<union> dom ?c"
    by (auto simp: inserted_keys_def ses dom_insert_all)
  note space' = le_less_trans [OF index_space_mono [OF _ finite_inserted_keys] space]
  have "inserts_ok r K its" using ins ses by auto
  moreover have "(ow \<or> None \<in> {None, Some []}) \<and> Map.empty = Map.empty \<and> (8 :: nat) = 8 \<or> P" for P by simp
  moreover have "8 + 2 ^ 32 * (length its + 4) < 2 ^ 63 - (1 :: nat)"
    using room by (simp add: ses room_for_Cons)
  ultimately obtain d1 where d1: "index_session env r K ow its None = Inr d1" "saved_file env r K ?c d1"
      "length d1 \<le> 8 + 2 ^ 32 * (length its + 2)"
    using session_saved [OF env long K, of r its ow None Map.empty 8] space' [of "dom ?c"] keys by blast
  have "8 \<le> length d1" using d1(2) by (auto simp: saved_file_def index_rep_def)
  moreover have "length d1 + room_for rest < 2 ^ 63 - 1"
    using d1(3) room by (simp add: ses room_for_Cons)
  moreover have "finite (dom ?c)" using finite_inserted_keys [of sessions] keys by simp
  ultimately obtain d where "index_sessions env r K rest (Some d1) = Inr (Some d)"
      "saved_file env r K (contents_after rest ?c) d"
    using sessions_saved [OF env long K _ d1(2), of rest] ins space keys by (auto simp: ses)
  then show ?thesis using d1(1) by (auto simp: ses)
qed

section \<open>The order of the index\<close>

context ordered_keys begin

lemma sorted_prefix_count:
  assumes "n \<le> length xs" and "\<forall>i < length xs. i < n \<longleftrightarrow> P (xs ! i)"
  shows "length (filter P xs) = n"
proof -
  have "{i. i < length xs \<and> P (xs ! i)} = {..<n}"
    using assms(1) by (auto simp: assms(2) [rule_format, symmetric])
  then show ?thesis by (simp add: length_filter_conv_card)
qed

lemma lower_bound_count:
  assumes "is_key k" and "sorted_map lt is_key m"
  shows "map_lower_bound lt k m = length (filter (\<lambda>k'. lt k' k) (map fst m))"
  using sorted_prefix_count [of "map_lower_bound lt k m" "map fst m" "\<lambda>k'. lt k' k"] lower_bound_spec [OF assms]
  by simp

lemma upper_bound_count:
  assumes "is_key k" and "sorted_map lt is_key m"
  shows "map_upper_bound lt k m = length (filter (\<lambda>k'. \<not> lt k k') (map fst m))"
  using sorted_prefix_count [of "map_upper_bound lt k m" "map fst m" "\<lambda>k'. \<not> lt k k'"] upper_bound_spec [OF assms]
  by simp

end

definition entry_at :: "environment \<Rightarrow> val \<times> 64 word \<Rightarrow> val \<times> lazy_block" where
  "entry_at env e = (fst e, lazy_at env (snd e))"

lemma index_iter_elems:
  "\<exists>w'. range_elems (Suc (length m)) (index_iter_ops env m) (make_range 0 (length m)) (w :: 'w) =
     Inr (map (entry_at env) m, w')"
proof -
  let ?f = "\<lambda>(k, pos). Inr (k, lazy_at env pos) :: (val \<times> lazy_block) result"
  have "ephemeral_seq (vec_seq m) ?f 0 w (length m) (map (entry_at env) m)"
    unfolding ephemeral_seq_def by (intro exI [of _ m] conjI vec_seq_all) (auto simp: entry_at_def)
  then show ?thesis
    unfolding range_elems_def make_range_def range.simps index_iter_ops_def
    by (rule input_iterator.collect_all [OF vec.ephemeral_iterator_seq]) simp
qed

lemma indexed_elems_eq:
  "indexed_elems env f = Inr (map (entry_at env) (ix_index f))"
  "indexed_relems env f = Inr (rev (map (entry_at env) (ix_index f)))"
  using index_iter_elems [of "ix_index f" env "()"] index_iter_elems [of "rev (ix_index f)" env "()"]
  by (auto simp: indexed_elems_def indexed_relems_def indexed_range_def rev_map)

lemma index_rep_sorted:
  assumes "file_rep env r K c f"
  shows "sorted_map (k_less K) (is_key K) (ix_index f)" and "set (indexed_indices f) = dom c"
  using assms by (auto simp: file_rep_def index_rep_def indexed_indices_def)

lemma lazy_block_stored:
  assumes env: "good_env env" and "storable T v" and s: "fs_good s" "length (fs_data s) < 2 ^ 63 - 1"
    and at: "stored_at env (rl_entries r) (fs_data s) p (T, v)"
  shows "\<exists>s'. lazy_block_as env r T (lazy_at env p) s =
      Inr ((v, (lazy_at env p)\<lparr>lazy_result := opt_in_place (decoded_from (stored_block env (rl_entries r) T v))\<rparr>), s')"
proof -
  obtain s' where "delayed_read env p s = Inr (stored_block env (rl_entries r) T v, s')"
    using delayed_read_stored [OF assms] by blast
  from lazy_at_deref [OF this] accessor_as_stored [OF env assms(2), of "rl_entries r"]
  show ?thesis by (simp add: lazy_block_as_def)
qed

lemma entry_reads:
  assumes env: "good_env env" and K: "key_ok K" and rep: "file_rep env r K c f" and e: "(k, z) \<in> set (map (entry_at env) (ix_index f))"
  shows "\<exists>s T v z' s'. ix_stream_ptr f = Some s \<and> c k = Some (T, v) \<and> lazy_block_as env r T z s = Inr ((v, z'), s')"
proof -
  obtain s where s: "ix_stream_ptr f = Some s" "fs_good s" "length (fs_data s) < 2 ^ 63 - 1"
      "index_rep env r K c (ix_index f) (fs_data s)" using rep by (auto simp: file_rep_def)
  obtain p where p: "(k, p) \<in> set (ix_index f)" "z = lazy_at env p" using e by (auto simp: entry_at_def)
  then have "k \<in> fst ` set (ix_index f)" by (force simp: image_iff)
  then have "k \<in> dom c" using s(4) by (simp add: index_rep_def)
  then obtain T v where c: "c k = Some (T, v)" by auto
  from index_rep_lookup [OF s(4) c] obtain q where q: "map_of (ix_index f) k = Some q"
      "stored_at env (rl_entries r) (fs_data s) q (T, v)" "storable T v" by blast
  have "distinct (map fst (ix_index f))"
    by (rule ordered_keys.distinct_keys [OF _ index_rep_sorted(1) [OF rep]]) (use K in \<open>simp add: key_ok_def\<close>)
  with p(1) q(1) have "q = p" by (simp add: map_of_is_SomeI)
  then show ?thesis using lazy_block_stored [OF env q(3) s(2,3)] q(2) s(1) c p(2) by blast
qed

section \<open>Reading a block twice\<close>

text \<open>A block with the identity encoding is decoded by moving its content out.\<close>

lemma accessor_as_again:
  assumes env: "good_env env" and st: "storable T v" and b: "b = stored_block env entries T v"
    and crc: "contentChecksum b \<noteq> crc32c_spec []"
  shows "accessor_as env entries T (decoded_from b) =
    (if contentEncoding b = PBSF_ENCODING_IDENTITY then Inl BadChecksum else Inr (v, decoded_from b))"
proof -
  have "contentType b = type_id T entries" using stored_block_ok(2) [OF env st, of entries] by (simp add: b stores_def)
  moreover have "decode_block env (b\<lparr>content := []\<rparr>) = Inl BadChecksum"
    by (rule decode_damaged [OF env _ crc]) simp
  moreover have "accessor_as env entries T b = Inr (v, decoded_from b)"
    unfolding b by (rule accessor_as_stored [OF env st])
  ultimately show ?thesis
    by (cases "contentEncoding b = PBSF_ENCODING_IDENTITY")
       (simp_all add: decoded_from_def accessor_as_def accessor_is_def)
qed

end
