(* ===== verification/FileSamples.thy ===== *)
theory FileSamples
  imports Samples KeyTypes IndexSessions
begin

text \<open>
  A concrete environment, realm and key type for the file formats, at which the properties of
  blocks and files are instantiated: a checked build on a processor with the checksum
  instruction, run-length coding in the place of the compression libraries, and a realm with
  two types and two key types.
\<close>

definition sample_env :: environment where
  "sample_env =
     \<lparr>env_cfg = debug_cfg, env_zstd = rle_zstd, env_lzo = rle_lzo, env_junk = (\<lambda>i. 0xAA),
      env_sse = Some 0x100000,
      env_u8 = (\<lambda>acc b. crc_bits acc (byte_bits b)),
      env_u64 = (\<lambda>acc w. ucast (crc_bits (ucast acc) (word_bits w))),
      env_addr = 0x1003, env_pref = None\<rparr>"

definition point_ctype :: ctype where
  "point_ctype = \<lparr>c_name = ''point'', c_ty = point_ty\<rparr>"

definition count_ctype :: ctype where
  "count_ctype = \<lparr>c_name = ''count'', c_ty = TPrim Num4\<rparr>"

definition run_key :: key_type where
  "run_key = uint_key ''run'' Num2"

definition name_key :: key_type where
  "name_key = string_key ''name''"

definition sample_entries :: "(16 word \<times> ctype) list" where
  "sample_entries = [(1, point_ctype), (2, count_ctype), (3, k_type run_key), (4, k_type name_key)]"

definition sample_realm :: realm where
  "sample_realm = \<lparr>rl_id = 0xBEEF, rl_entries = sample_entries\<rparr>"

definition count_val :: "32 word \<Rightarrow> val" where
  "count_val n = VPrim (P4 n)"

definition sample_items :: "(ctype \<times> val) list" where
  "sample_items = [(count_ctype, count_val 3), (point_ctype, point_val), (count_ctype, count_val 4)]"

definition run :: "16 word \<Rightarrow> val" where
  "run n = VPrim (P2 n)"

definition sample_inserts :: "(val \<times> ctype \<times> val) list" where
  "sample_inserts = [(run 7, count_ctype, count_val 3), (run 2, point_ctype, point_val), (run 7, count_ctype, count_val 4)]"

lemma sample_cfg: "env_cfg sample_env = debug_cfg"
  by (simp add: sample_env_def)

lemma good_sample: "good_env sample_env"
  by (simp add: good_env_def sample_env_def documented_crc32_def fuel_enough_debug rle_zstd_contract rle_lzo_contract)

lemma long_frames_sample: "long_frames sample_env"
  by (auto simp: long_frames_def sample_env_def rle_zstd_def rle_lzo_def rle_encode_def split: list.splits)

lemma realm_sample: "realm_ok sample_entries" "rl_entries sample_realm = sample_entries"
    "point_ctype \<in> snd ` set sample_entries" "count_ctype \<in> snd ` set sample_entries"
    "k_type run_key \<in> snd ` set sample_entries" "k_type name_key \<in> snd ` set sample_entries"
  by (simp_all add: realm_ok_def sample_entries_def sample_realm_def point_ctype_def count_ctype_def
      run_key_def name_key_def uint_key_def string_key_def)

lemma point_ne_count: "point_ctype \<noteq> count_ctype" "k_type run_key \<noteq> k_type name_key"
  by (simp_all add: point_ctype_def count_ctype_def run_key_def name_key_def uint_key_def string_key_def)

lemma storable_point: "storable point_ctype point_val"
  using point_encodable by (simp add: storable_def point_ctype_def point_encode point_bytes_def)

lemma storable_count: "storable count_ctype (count_val n)"
  by (simp add: storable_def count_ctype_def count_val_def encodable_def prim_val_bytes_def has_type_prim)

lemma items_sample: "items_ok sample_entries sample_items"
  using realm_sample storable_point storable_count by (simp add: items_ok_def sample_items_def)

lemma run_key_ok: "key_ok run_key" "is_key run_key (run n)"
  by (simp_all add: run_key_def uint_key_ok) (simp add: uint_key_def run_def has_type_prim)

lemma inserts_sample: "inserts_ok sample_realm run_key sample_inserts"
  using realm_sample storable_point storable_count run_key_ok(2)
  by (simp add: inserts_ok_def sample_inserts_def)

section \<open>A file\<close>

definition sample_contents :: contents where
  "sample_contents = insert_all sample_inserts Map.empty"

definition sample_file :: indexed_file where
  "sample_file = projr (rbind (open_indexed_output_file sample_env None sample_realm run_key False)
     (out_copy (indexed_write_ops sample_env sample_realm run_key) sample_inserts))"

lemma sample_file_rep:
  "file_rep sample_env sample_realm run_key sample_contents sample_file"
  "ix_need_write_index sample_file"
  "length (file_data sample_file) < 2 ^ 40"
proof -
  obtain f0 where f0: "open_indexed_output_file sample_env None sample_realm run_key False = Inr f0"
      "file_rep sample_env sample_realm run_key Map.empty f0" "ix_need_write_index f0" "length (file_data f0) = 8"
    using open_new [of False None sample_env sample_realm run_key] by blast
  have "length (file_data f0) + 2 ^ 32 * (length sample_inserts + 1) < 2 ^ 63 - 1"
    by (simp add: f0(4) sample_inserts_def)
  from inserts_rep [OF good_sample run_key_ok(1) f0(2) inserts_sample this]
  obtain f where f: "out_copy (indexed_write_ops sample_env sample_realm run_key) sample_inserts f0 = Inr f"
      "file_rep sample_env sample_realm run_key sample_contents f" "ix_need_write_index f"
      "length (file_data f) \<le> 8 + 2 ^ 32 * length sample_inserts"
    using f0(3,4) by (auto simp: sample_contents_def)
  then have "sample_file = f" by (simp add: sample_file_def f0(1))
  with f show "file_rep sample_env sample_realm run_key sample_contents sample_file"
      "ix_need_write_index sample_file" "length (file_data sample_file) < 2 ^ 40"
    by (simp_all add: sample_inserts_def)
qed

lemma run_inj [simp]: "run a = run b \<longleftrightarrow> a = b"
  by (simp add: run_def)

lemma sample_contents_at:
  "sample_contents (run 7) = Some (count_ctype, count_val 4)" "sample_contents (run 2) = Some (point_ctype, point_val)"
  "sample_contents (run 3) = None"
  by (simp_all add: sample_contents_def sample_inserts_def)

end
