(* ===== verification/FileMachine.thy ===== *)
theory FileMachine
  imports IndexSessions
begin

text \<open>
  An open indexed file as a state machine. Insertions and reads share one stream, whose position
  each of them moves; the machine interleaves them in any order. It is simulated by a finite map,
  the abstract machine: whatever the order of the operations, every read sees the last insertion
  of its key.
\<close>

section \<open>The machine\<close>

datatype file_event =
    Inserted val ctype val
  | Got val ctype val
  | Missing val
  | Mismatched val ctype

text \<open>
  A read of a missing key leaves the file alone; one that asks for the wrong type has read the
  block before it throws.
\<close>

inductive file_step ::
  "environment \<Rightarrow> realm \<Rightarrow> key_type \<Rightarrow> indexed_file \<Rightarrow> file_event \<Rightarrow> indexed_file \<Rightarrow> bool"
  for env r K where
  step_insert: "indexed_insert env r K (k, T, v) f = Inr f' \<Longrightarrow> file_step env r K f (Inserted k T v) f'"
| step_got: "indexed_get env r K T k f = Inr (v, f') \<Longrightarrow> file_step env r K f (Got k T v) f'"
| step_missing: "indexed_lookup env K k f = Inl KeyMissing \<Longrightarrow> file_step env r K f (Missing k) f"
| step_mismatched: "indexed_lookup env K k f = Inr z \<Longrightarrow> deref_stream f = Inr s \<Longrightarrow>
    lazy_deref z s = Inr ((b, z'), s') \<Longrightarrow> accessor_as env (rl_entries r) T b = Inl TypeMismatch \<Longrightarrow>
    file_step env r K f (Mismatched k T) (f\<lparr>ix_stream_ptr := Some s'\<rparr>)"

inductive_cases insert_stepE: "file_step env r K f (Inserted k T v) f'"
inductive_cases got_stepE: "file_step env r K f (Got k T v) f'"
inductive_cases missing_stepE: "file_step env r K f (Missing k) f'"
inductive_cases mismatched_stepE: "file_step env r K f (Mismatched k T) f'"

inductive file_run ::
  "environment \<Rightarrow> realm \<Rightarrow> key_type \<Rightarrow> indexed_file \<Rightarrow> file_event list \<Rightarrow> indexed_file \<Rightarrow> bool"
  for env r K where
  run_nil: "file_run env r K f [] f"
| run_step: "file_step env r K f e f' \<Longrightarrow> file_run env r K f' es f'' \<Longrightarrow> file_run env r K f (e # es) f''"

section \<open>The abstract machine\<close>

fun map_step :: "contents \<Rightarrow> file_event \<Rightarrow> contents option" where
  "map_step c (Inserted k T v) = Some (c(k \<mapsto> (T, v)))"
| "map_step c (Got k T v) = (if c k = Some (T, v) then Some c else None)"
| "map_step c (Missing k) = (if c k = None then Some c else None)"
| "map_step c (Mismatched k T) = (case c k of Some (U, v) \<Rightarrow> if U \<noteq> T then Some c else None | None \<Rightarrow> None)"

fun map_run :: "contents \<Rightarrow> file_event list \<Rightarrow> contents option" where
  "map_run c [] = Some c"
| "map_run c (e # es) = (case map_step c e of Some c' \<Rightarrow> map_run c' es | None \<Rightarrow> None)"

text \<open>What the compiler checks of an operation: the types of keys and objects.\<close>

fun event_ok :: "realm \<Rightarrow> key_type \<Rightarrow> file_event \<Rightarrow> bool" where
  "event_ok r K (Inserted k T v) = (is_key K k \<and> T \<in> snd ` set (rl_entries r) \<and> storable T v)"
| "event_ok r K (Got k T v) = (is_key K k \<and> T \<in> snd ` set (rl_entries r))"
| "event_ok r K (Missing k) = is_key K k"
| "event_ok r K (Mismatched k T) = (is_key K k \<and> T \<in> snd ` set (rl_entries r))"

section \<open>Simulation\<close>

lemma mismatched_rep:
  assumes env: "good_env env" and K: "key_ok K" and realm: "realm_ok (rl_entries r)" and rep: "file_rep env r K c f"
    and k: "is_key K k" and T: "T \<in> snd ` set (rl_entries r)"
    and step: "file_step env r K f (Mismatched k T) f'"
  shows "map_step c (Mismatched k T) = Some c \<and> file_rep env r K c f' \<and> file_data f' = file_data f"
  using step
proof (rule mismatched_stepE)
  fix z s b z' s'
  assume h: "f' = f\<lparr>ix_stream_ptr := Some s'\<rparr>" "indexed_lookup env K k f = Inr z" "deref_stream f = Inr s"
    "lazy_deref z s = Inr ((b, z'), s')" "accessor_as env (rl_entries r) T b = Inl TypeMismatch"
  obtain U v where ck: "c k = Some (U, v)" using find_rep(1) [OF K rep k] h(2) by (cases "c k") auto
  from find_rep(2) [OF K rep k ck] h(2,3) obtain p where
    p: "z = lazy_at env p" "ix_stream_ptr f = Some s" "fs_good s" "length (fs_data s) < 2 ^ 63 - 1"
      "stored_at env (rl_entries r) (fs_data s) p (U, v)" "storable U v"
    by (auto simp: deref_stream_def)
  from delayed_read_stored [OF env p(6,3,4,5)] obtain s1 where
    s1: "delayed_read env p s = Inr (stored_block env (rl_entries r) U v, s1)" "fs_ok (fs_data s) s1" by blast
  from lazy_at_deref [OF s1(1)] h(4) p(1) have b: "b = stored_block env (rl_entries r) U v" "s' = s1" by auto
  have "U \<noteq> T" using accessor_as_stored [OF env p(6), of "rl_entries r"] h(5) b(1) by auto
  moreover have "file_rep env r K c f' \<and> file_data f' = file_data f"
    using rep h(1) b(2) s1(2) p(2) by (auto simp: file_rep_def fs_ok_def file_data_def)
  ultimately show ?thesis using ck by simp
qed

lemma step_simulated:
  assumes env: "good_env env" and K: "key_ok K" and realm: "realm_ok (rl_entries r)" and rep: "file_rep env r K c f"
    and e: "event_ok r K e" and room: "length (file_data f) + 2 ^ 32 < 2 ^ 63 - 1"
    and step: "file_step env r K f e f'"
  shows "\<exists>c'. map_step c e = Some c' \<and> file_rep env r K c' f' \<and> length (file_data f') \<le> length (file_data f) + 2 ^ 32"
proof (cases e)
  case (Inserted k T v)
  with step e have s: "indexed_insert env r K (k, T, v) f = Inr f'" "is_key K k" "T \<in> snd ` set (rl_entries r)" "storable T v"
    by (auto elim: insert_stepE)
  from insert_rep [OF env K rep s(2,3,4) room] s(1) Inserted show ?thesis by auto
next
  case (Got k T v)
  with step e have s: "indexed_get env r K T k f = Inr (v, f')" "is_key K k" "T \<in> snd ` set (rl_entries r)"
    by (auto elim: got_stepE)
  note get = get_rep [OF env K realm rep s(2,3)]
  obtain U u where ck: "c k = Some (U, u)" using get(1) s(1) by (cases "c k") auto
  then have "U = T" using get(2) s(1) by (cases "U = T") auto
  with ck get(3) s(1) Got show ?thesis by auto
next
  case (Missing k)
  with step e have s: "indexed_lookup env K k f = Inl KeyMissing" "is_key K k" "f' = f" by (auto elim: missing_stepE)
  have "c k = None" using find_rep(2) [OF K rep s(2)] s(1) by (cases "c k") fastforce+
  with Missing s(3) rep show ?thesis by auto
next
  case (Mismatched k T)
  with step e have s: "file_step env r K f (Mismatched k T) f'" "is_key K k" "T \<in> snd ` set (rl_entries r)" by auto
  from mismatched_rep [OF env K realm rep s(2,3,1)] Mismatched show ?thesis by auto
qed

lemma run_simulated:
  assumes env: "good_env env" and K: "key_ok K" and realm: "realm_ok (rl_entries r)"
  shows "file_run env r K f es f' \<Longrightarrow> file_rep env r K c f \<Longrightarrow> list_all (event_ok r K) es \<Longrightarrow>
    length (file_data f) + 2 ^ 32 * (length es + 1) < 2 ^ 63 - 1 \<Longrightarrow>
    \<exists>c'. map_run c es = Some c' \<and> file_rep env r K c' f'"
proof (induction f es f' arbitrary: c rule: file_run.induct)
  case (run_nil f)
  then show ?case by simp
next
  case (run_step f e f1 es f2)
  have "event_ok r K e" "length (file_data f) + 2 ^ 32 < 2 ^ 63 - 1" using run_step.prems by simp_all
  from step_simulated [OF env K realm run_step.prems(1) this run_step.hyps(1)] obtain c1 where
    c1: "map_step c e = Some c1" "file_rep env r K c1 f1" "length (file_data f1) \<le> length (file_data f) + 2 ^ 32"
    by blast
  have "length (file_data f1) + 2 ^ 32 * (length es + 1) < 2 ^ 63 - 1" using c1(3) run_step.prems(3) by simp
  from run_step.IH [OF c1(2) _ this] run_step.prems(2) c1(1) show ?case by simp
qed

section \<open>Progress\<close>

text \<open>The machine is never stuck: an operation the map allows is a step of the file.\<close>

lemma step_exists:
  assumes env: "good_env env" and K: "key_ok K" and realm: "realm_ok (rl_entries r)" and rep: "file_rep env r K c f"
    and e: "event_ok r K e" and room: "length (file_data f) + 2 ^ 32 < 2 ^ 63 - 1"
    and abs: "map_step c e = Some c'"
  shows "\<exists>f'. file_step env r K f e f'"
proof (cases e)
  case (Inserted k T v)
  then have "is_key K k" "T \<in> snd ` set (rl_entries r)" "storable T v" using e by auto
  from insert_rep [OF env K rep this room] Inserted show ?thesis by (auto intro: step_insert)
next
  case (Got k T v)
  then have "is_key K k" "T \<in> snd ` set (rl_entries r)" "c k = Some (T, v)" using e abs by (auto split: if_splits)
  from get_rep(3) [OF env K realm rep this] Got show ?thesis by (auto intro: step_got)
next
  case (Missing k)
  then have "is_key K k" "c k = None" using e abs by (auto split: if_splits)
  from find_rep(1) [OF K rep this] Missing show ?thesis by (auto intro: step_missing)
next
  case (Mismatched k T)
  then obtain U v where k: "is_key K k" "T \<in> snd ` set (rl_entries r)" "c k = Some (U, v)" "U \<noteq> T"
    using e abs by (auto split: option.splits if_splits)
  from find_rep(2) [OF K rep k(1,3)] obtain p s where
    p: "indexed_lookup env K k f = Inr (lazy_at env p)" "ix_stream_ptr f = Some s" "fs_good s"
      "length (fs_data s) < 2 ^ 63 - 1" "stored_at env (rl_entries r) (fs_data s) p (U, v)" "storable U v"
      "U \<in> snd ` set (rl_entries r)" by blast
  from delayed_read_stored [OF env p(6,3,4,5)] obtain s1 where
    "delayed_read env p s = Inr (stored_block env (rl_entries r) U v, s1)" by blast
  from step_mismatched [OF p(1) _ lazy_at_deref [OF this] accessor_as_other [OF env p(6) realm k(2) p(7) k(4)]] p(2)
  show ?thesis unfolding Mismatched by (auto simp: deref_stream_def)
qed

lemma run_exists:
  assumes env: "good_env env" and K: "key_ok K" and realm: "realm_ok (rl_entries r)"
  shows "map_run c es = Some c' \<Longrightarrow> file_rep env r K c f \<Longrightarrow> list_all (event_ok r K) es \<Longrightarrow>
    length (file_data f) + 2 ^ 32 * (length es + 1) < 2 ^ 63 - 1 \<Longrightarrow>
    \<exists>f'. file_run env r K f es f'"
proof (induction es arbitrary: c f)
  case Nil
  then show ?case by (auto intro: run_nil)
next
  case (Cons e es)
  obtain c1 where c1: "map_step c e = Some c1" "map_run c1 es = Some c'"
    using Cons.prems(1) by (auto split: option.splits)
  have ok: "event_ok r K e" "length (file_data f) + 2 ^ 32 < 2 ^ 63 - 1" using Cons.prems by simp_all
  obtain f1 where f1: "file_step env r K f e f1"
    using step_exists [OF env K realm Cons.prems(2) ok c1(1)] by blast
  have rep1: "file_rep env r K c1 f1" "length (file_data f1) \<le> length (file_data f) + 2 ^ 32"
    using step_simulated [OF env K realm Cons.prems(2) ok f1] c1(1) by auto
  have "length (file_data f1) + 2 ^ 32 * (length es + 1) < 2 ^ 63 - 1" using rep1(2) Cons.prems(4) by simp
  from Cons.IH [OF c1(2) rep1(1) _ this] Cons.prems(3) f1 show ?case by (auto intro: run_step)
qed

end
