(* ===== verification/StreamAgreement.thy ===== *)
theory StreamAgreement
  imports FileStream Safety
begin

text \<open>
  Two streams that hold the same bytes are parsed alike. Nothing is assumed of the bytes; in a
  checked build the stream contract is enough, since no count the parser passes to a stream is
  then negative. The contract leaves open how a stream reports its end, and so does the result.
\<close>

section \<open>Streams in step\<close>

definition in_step ::
  "('s \<Rightarrow> bool) \<Rightarrow> ('s \<Rightarrow> byte list) \<Rightarrow> ('r \<Rightarrow> bool) \<Rightarrow> ('r \<Rightarrow> byte list) \<Rightarrow> nat \<Rightarrow> 's \<Rightarrow> 'r \<Rightarrow> bool" where
  "in_step okA remA okB remB n s r \<longleftrightarrow> okA s \<and> okB r \<and> remA s = remB r \<and> length (remA s) \<le> n"

definition same_error :: "error set \<Rightarrow> error set \<Rightarrow> error \<Rightarrow> error \<Rightarrow> bool" where
  "same_error EA EB e e' \<longleftrightarrow> e = e' \<or> e \<in> EA \<and> e' \<in> EB"

definition same_outcome ::
  "('s \<Rightarrow> 'r \<Rightarrow> bool) \<Rightarrow> error set \<Rightarrow> error set \<Rightarrow> ('v \<times> 's) result \<Rightarrow> ('v \<times> 'r) result \<Rightarrow> bool" where
  "same_outcome R EA EB X Y \<longleftrightarrow>
     (\<exists>v s' r'. X = Inr (v, s') \<and> Y = Inr (v, r') \<and> R s' r') \<or>
     (\<exists>e e'. X = Inl e \<and> Y = Inl e' \<and> same_error EA EB e e')"

text \<open>\<open>N\<close> is a bound on the bytes left, under which the loops of the parser have enough rounds.\<close>

definition agree ::
  "(nat \<Rightarrow> 's \<Rightarrow> 'r \<Rightarrow> bool) \<Rightarrow> error set \<Rightarrow> error set \<Rightarrow> nat \<Rightarrow>
   ('s \<Rightarrow> ('v \<times> 's) result) \<Rightarrow> ('r \<Rightarrow> ('v \<times> 'r) result) \<Rightarrow> bool" where
  "agree R EA EB N P Q \<longleftrightarrow> (\<forall>n s r. n < N \<longrightarrow> R n s r \<longrightarrow> same_outcome (R n) EA EB (P s) (Q r))"

text \<open>A stream that has run over its end has thrown, or is past it and throws with the next read.\<close>

definition overrun :: "('s \<Rightarrow> bool) \<Rightarrow> error set \<Rightarrow> ('v \<times> 's) result \<Rightarrow> bool" where
  "overrun past E X \<longleftrightarrow> (\<exists>e \<in> E. X = Inl e) \<or> (\<exists>v s'. X = Inr (v, s') \<and> past s')"

lemma overrun_bind:
  assumes "overrun past E X" and "\<And>v s'. past s' \<Longrightarrow> \<exists>e \<in> E. Q v s' = Inl e"
  shows "\<exists>e \<in> E. rbind X (\<lambda>(v, s'). Q v s') = Inl e"
  using assms by (auto simp: overrun_def)

lemma same_outcome_simps [simp]:
  "same_outcome R EA EB (Inl e) (Inl e') \<longleftrightarrow> same_error EA EB e e'"
  "same_outcome R EA EB (Inr (v, s)) (Inr (v, r)) \<longleftrightarrow> R s r"
  by (auto simp: same_outcome_def)

lemma same_error_refl [simp]: "same_error EA EB e e"
  by (simp add: same_error_def)

lemma same_outcome_ends: "\<exists>e \<in> EA. X = Inl e \<Longrightarrow> \<exists>e \<in> EB. Y = Inl e \<Longrightarrow> same_outcome R EA EB X Y"
  by (auto simp: same_error_def)

lemma same_outcome_bind:
  assumes "same_outcome R EA EB X Y"
    and "\<And>v s' r'. X = Inr (v, s') \<Longrightarrow> Y = Inr (v, r') \<Longrightarrow> R s' r' \<Longrightarrow> same_outcome R EA EB (P v s') (Q v r')"
  shows "same_outcome R EA EB (rbind X (\<lambda>(v, s'). P v s')) (rbind Y (\<lambda>(v, r'). Q v r'))"
  using assms(1) unfolding same_outcome_def [of R EA EB X Y]
proof (elim disjE exE conjE)
  fix v s' r' assume "X = Inr (v, s')" "Y = Inr (v, r')" "R s' r'"
  then show ?thesis using assms(2) by simp
qed simp

lemma agree_bind:
  "agree R EA EB N P Q \<Longrightarrow> (\<And>v. agree R EA EB N (P' v) (Q' v)) \<Longrightarrow>
   agree R EA EB N (\<lambda>s. rbind (P s) (\<lambda>(v, s'). P' v s')) (\<lambda>r. rbind (Q r) (\<lambda>(v, r'). Q' v r'))"
  unfolding agree_def by (blast intro: same_outcome_bind)

lemma agree_return: "agree R EA EB N (\<lambda>s. Inr (v, s)) (\<lambda>r. Inr (v, r))"
  by (simp add: agree_def)

lemma agree_throw: "agree R EA EB N (\<lambda>s. Inl e) (\<lambda>r. Inl e)"
  by (simp add: agree_def)

lemma agree_if:
  "agree R EA EB N P Q \<Longrightarrow> agree R EA EB N P' Q' \<Longrightarrow>
   agree R EA EB N (\<lambda>s. if b then P s else P' s) (\<lambda>r. if b then Q r else Q' r)"
  by (cases b) simp_all

lemma agree_result:
  "(\<And>x. m = Inr x \<Longrightarrow> agree R EA EB N (P x) (Q x)) \<Longrightarrow>
   agree R EA EB N (\<lambda>s. rbind m (\<lambda>x. P x s)) (\<lambda>r. rbind m (\<lambda>x. Q x r))"
  by (cases m) (simp_all add: agree_throw)

lemma agree_then_val:
  "agree R EA EB N P Q \<Longrightarrow> agree R EA EB N (\<lambda>s. then_val f (P s)) (\<lambda>r. then_val f (Q r))"
  unfolding then_val_def by (intro agree_bind agree_return)

lemma agreeD: "agree R EA EB N P Q \<Longrightarrow> n < N \<Longrightarrow> R n s r \<Longrightarrow> same_outcome (R n) EA EB (P s) (Q r)"
  by (simp add: agree_def)

lemmas agree_intros = agree_bind agree_return agree_throw agree_if agree_result agree_then_val

section \<open>Past the end\<close>

context ending_stream begin

lemma starved_first: "starved P [] \<Longrightarrow> starved (\<lambda>s. rbind (P s) Q) []"
  by (auto simp: starves_Nil)

lemma starved_then_val_first: "starved P [] \<Longrightarrow> starved (\<lambda>s. then_val f (P s)) []"
  unfolding then_val_def by (rule starved_first)

lemma past_get: "past s \<Longrightarrow> (\<exists>e \<in> eof_errors. s_get ops s = Inl e) \<or> (\<exists>s'. s_get ops s = Inr (None, s') \<and> past s')"
  using get_end by blast

lemma past_read_var_uint: "starved (read_var_uint ops :: 's \<Rightarrow> ('b::len word \<times> 's) result) []"
  unfolding starves_Nil read_var_uint_def
  using past_get early_eof by (fastforce simp: read_var_uint_loop.simps)

lemma past_read_var_bool: "starved (read_var_bool ops) []"
  unfolding starves_Nil using read_var_bool_end by blast

lemma past_read_var_prim: "starved (read_var_prim ops p) []"
  by (cases p) (simp_all add: read_var_prim.simps [abs_def] starved_first past_read_var_uint
      past_read_var_bool)

lemma past_read_prim: "starved (read_prim ops p) []"
  unfolding starves_Nil
proof (intro allI impI)
  fix s assume s: "past s"
  show "\<exists>e\<in>eof_errors. read_prim ops p s = Inl e"
  proof (cases "size_of p = 1")
    case True
    then show ?thesis using past_get [OF s] early_eof by (auto simp: read_prim_def)
  next
    case False
    then show ?thesis
      using read_end [of s "word_of_nat (size_of p)"] s sint_size_of(1) [of p] early_eof
      by (auto simp: read_prim_def)
  qed
qed

lemma past_parse_id: "starved (parse_id ops) []"
  using starves_any [OF starved_id] .

lemma past_custom_struct: "0 < k \<Longrightarrow> starved (parse_custom_struct k cfg ops ms obj) []"
  using starved_custom_struct_past by (cases k) (simp_all del: parse_custom_struct.simps)

lemma past_optimistic_for_large:
  assumes "0 < fuel cfg"
  shows "starved (parse_custom_struct_optimistic_for_large cfg ops ms obj) []"
proof -
  have "starved (parse_custom_struct_optimistic cfg ops ms 0 obj) []"
    by (cases ms) (auto simp: parse_custom_struct_optimistic.simps [abs_def] starved_first past_parse_id
        past_custom_struct assms simp del: parse_custom_struct.simps)
  then show ?thesis
    unfolding parse_custom_struct_optimistic_for_large_def [abs_def] fallback_simp
    using past_custom_struct [OF assms, of cfg ms obj] by (auto simp: starves_Nil)
qed

text \<open>Every type starts by reading something.\<close>

lemma past_parse:
  assumes "0 < fuel cfg"
  shows "wf_ty t \<Longrightarrow> starved (parse cfg ops t) []"
proof (induction t)
  case (TTuple ts)
  then obtain t ts' where ts: "ts = t # ts'" by (cases ts) auto
  then have "starved (parse cfg ops t) []" using TTuple by simp
  then show ?case by (simp add: ts read_tuple_continue.simps(2) [abs_def] starved_then_val_first starved_first)
next
  case (TMembers ts init)
  then obtain t ts' where ts: "ts = t # ts'" by (cases ts) auto
  then have "starved (parse cfg ops t) []" using TMembers by simp
  then show ?case by (simp add: ts parse_tuple.simps(2) [abs_def] starved_then_val_first starved_first)
qed (simp_all add: starved_then_val_first past_read_prim past_read_var_prim past_optimistic_for_large assms
    parse_enum_def parse_byte_def starved_first past_read_var_uint parse_sequential_def [abs_def] parse_ignore_order_def [abs_def])

lemma past_skip_chars: "past s \<Longrightarrow> overrun past eof_errors (skipping (skip_chars ops n) s)"
  using drains_past [OF drained_skip_chars [of "replicate n 0"]] by (simp add: overrun_def)

lemma overrun_skip_chars:
  assumes "(\<exists>e \<in> eof_errors. s_get ops s = Inl e) \<or> (\<exists>s'. s_get ops s = Inr (None, s') \<and> past s')"
  shows "overrun past eof_errors (skipping (skip_chars ops (Suc n)) s)"
  using assms
proof (elim disjE exE conjE bexE)
  fix s' assume "s_get ops s = Inr (None, s')" "past s'"
  moreover from this have "skipping (skip_chars ops (Suc n)) s = skipping (skip_chars ops n) s'" by (simp add: skipping_def)
  ultimately show ?thesis using past_skip_chars by simp
qed (simp add: overrun_def skipping_def)

end

section \<open>Two streams\<close>

locale two_streams = a: ending_stream opsA okA remA pastA EA + b: ending_stream opsB okB remB pastB EB
  for opsA :: "'s instream" and okA :: "'s \<Rightarrow> bool" and remA :: "'s \<Rightarrow> byte list" and pastA :: "'s \<Rightarrow> bool" and EA :: "error set"
    and opsB :: "'r instream" and okB :: "'r \<Rightarrow> bool" and remB :: "'r \<Rightarrow> byte list" and pastB :: "'r \<Rightarrow> bool" and EB :: "error set"
begin

abbreviation "step \<equiv> in_step okA remA okB remB"
abbreviation "alike n X Y \<equiv> same_outcome (step n) EA EB X Y"
abbreviation "agreeing N P Q \<equiv> agree step EA EB N P Q"
abbreviation "both_overrun X Y \<equiv> overrun pastA EA X \<and> overrun pastB EB Y"

lemma step_mono: "step m s r \<Longrightarrow> m \<le> n \<Longrightarrow> step n s r"
  by (auto simp: in_step_def)

lemma alike_mono: "alike m X Y \<Longrightarrow> m \<le> n \<Longrightarrow> alike n X Y"
  unfolding same_outcome_def using step_mono by blast

lemma overrun_then:
  assumes "both_overrun X Y" and "\<And>v. a.starved (P v) []" and "\<And>v. b.starved (Q v) []"
  shows "alike n (rbind X (\<lambda>(v, s'). P v s')) (rbind Y (\<lambda>(v, r'). Q v r'))"
  by (rule same_outcome_ends) (use assms in \<open>auto simp: starves_Nil intro!: overrun_bind\<close>)

lemma get_both:
  assumes "step n s r"
  obtains (more) b s' r' m where "n = Suc m" "s_get opsA s = Inr (Some b, s')" "s_get opsB r = Inr (Some b, r')" "step m s' r'"
    | (over) "(\<exists>e \<in> EA. s_get opsA s = Inl e) \<or> (\<exists>s'. s_get opsA s = Inr (None, s') \<and> pastA s')"
        "(\<exists>e \<in> EB. s_get opsB r = Inl e) \<or> (\<exists>r'. s_get opsB r = Inr (None, r') \<and> pastB r')"
proof (cases "remA s")
  case Nil
  then show thesis using over a.get_end [of s] b.get_end [of r] assms by (simp add: in_step_def)
next
  case (Cons b bs)
  then obtain s' r' where "s_get opsA s = Inr (Some b, s')" "okA s'" "remA s' = bs"
      "s_get opsB r = Inr (Some b, r')" "okB r'" "remB r' = bs"
    using a.get_cons [of s b bs] b.get_cons [of r b bs] assms by (auto simp: in_step_def)
  moreover obtain m where "n = Suc m" using Cons assms by (cases n) (auto simp: in_step_def)
  ultimately show thesis using more [of m b s' r'] Cons assms by (simp add: in_step_def)
qed

lemma read_step:
  assumes "step n s r" and "0 \<le> sint c"
  obtains (enough) bs s' r' where "s_read opsA c s = Inr (bs, s')" "s_read opsB c r = Inr (bs, r')"
      "\<not> s_eof opsA s'" "\<not> s_eof opsB r'" "step n s' r'"
    | (over) "(\<exists>e \<in> EA. s_read opsA c s = Inl e) \<or> (\<exists>bs s'. s_read opsA c s = Inr (bs, s') \<and> s_eof opsA s')"
        "(\<exists>e \<in> EB. s_read opsB c r = Inl e) \<or> (\<exists>bs r'. s_read opsB c r = Inr (bs, r') \<and> s_eof opsB r')"
proof (cases "unat c \<le> length (remA s)")
  case True
  then obtain s' r' where "s_read opsA c s = Inr (take (unat c) (remA s), s')" "\<not> s_eof opsA s'" "okA s'"
      "remA s' = drop (unat c) (remA s)" "s_read opsB c r = Inr (take (unat c) (remB r), r')" "\<not> s_eof opsB r'" "okB r'"
      "remB r' = drop (unat c) (remB r)"
    using a.read_enough [of s c] b.read_enough [of r c] assms by (auto simp: in_step_def)
  then show thesis using enough [of "take (unat c) (remA s)" s' r'] assms by (auto simp: in_step_def)
next
  case False
  then show thesis using over a.read_end [of s c] b.read_end [of r c] assms by (auto simp: in_step_def)
qed

lemma ignore_step:
  assumes "step n s r" and "0 \<le> sint c"
  shows "alike n (skipping (s_ignore opsA c) s) (skipping (s_ignore opsB c) r) \<or>
    both_overrun (skipping (s_ignore opsA c) s) (skipping (s_ignore opsB c) r)"
proof (cases "unat c \<le> length (remA s)")
  case True
  then obtain s' r' where "s_ignore opsA c s = Inr s'" "okA s'" "remA s' = drop (unat c) (remA s)"
      "s_ignore opsB c r = Inr r'" "okB r'" "remB r' = drop (unat c) (remB r)"
    using a.ignore_enough [of s c] b.ignore_enough [of r c] assms by (auto simp: in_step_def)
  then show ?thesis using assms by (auto simp: skipping_def in_step_def)
next
  case False
  then show ?thesis using a.ignore_end [of s c] b.ignore_end [of r c] assms
    by (auto simp: in_step_def skipping_def overrun_def)
qed

section \<open>Integers and primitives\<close>

lemma alike_read_loop:
  "step n s r \<Longrightarrow> alike n (read_var_uint_loop opsA x k s) (read_var_uint_loop opsB x k r)"
proof (induction n arbitrary: s r x k)
  case 0
  then show ?case
    by (cases rule: get_both) (auto simp: read_var_uint_loop.simps [of _ x k] same_error_def a.early_eof b.early_eof)
next
  case (Suc n)
  from Suc.prems show ?case
  proof (cases rule: get_both)
    case (more b s' r' m)
    show ?thesis
    proof (cases "shift_or x (b AND 0x7F) k")
      case (Inr x')
      then show ?thesis
        using more Suc.IH [of s' r' x' "k + 7"] step_mono [of m s' r' "Suc n"]
        by (auto simp: read_var_uint_loop.simps [of _ x k] intro: alike_mono)
    qed (use more in \<open>simp add: read_var_uint_loop.simps [of _ x k]\<close>)
  qed (auto simp: read_var_uint_loop.simps [of _ x k] same_error_def a.early_eof b.early_eof)
qed

lemma agree_read_var_uint: "agreeing N (read_var_uint opsA :: 's \<Rightarrow> ('b::len word \<times> 's) result) (read_var_uint opsB)"
  by (simp add: agree_def read_var_uint_def alike_read_loop)

lemma alike_read_bool_loop:
  "step n s r \<Longrightarrow> alike n (read_var_bool_loop opsA x k s) (read_var_bool_loop opsB x k r)"
proof (induction n arbitrary: s r x k)
  case 0
  then show ?case
    by (cases rule: get_both) (auto simp: read_var_bool_loop.simps [of _ x k] same_error_def a.early_eof b.early_eof)
next
  case (Suc n)
  from Suc.prems show ?case
  proof (cases rule: get_both)
    case (more b s' r' m)
    have "alike (Suc n) (read_var_bool_loop opsA x' (k + 7) s') (read_var_bool_loop opsB x' (k + 7) r')" for x'
      by (rule alike_mono [OF Suc.IH]) (use more in simp_all)
    then show ?thesis using more step_mono [of m s' r' "Suc n"]
      by (simp add: read_var_bool_loop.simps [of _ x k] Let_def)
  qed (auto simp: read_var_bool_loop.simps [of _ x k] same_error_def a.early_eof b.early_eof)
qed

lemma agree_read_var_bool: "agreeing N (read_var_bool opsA) (read_var_bool opsB)"
  by (simp add: agree_def read_var_bool_def alike_read_bool_loop)

lemma agree_read_var_prim: "agreeing N (read_var_prim opsA p) (read_var_prim opsB p)"
  by (cases p) (simp_all add: read_var_prim.simps [abs_def] agree_bind agree_return agree_read_var_uint
      agree_read_var_bool)

lemma alike_read_prim: "step n s r \<Longrightarrow> alike n (read_prim opsA p s) (read_prim opsB p r)"
proof (cases "size_of p = 1")
  case True
  assume "step n s r"
  then show ?thesis
    by (cases rule: get_both)
      (use True in \<open>auto simp: read_prim_def same_error_def a.early_eof b.early_eof intro: step_mono\<close>)
next
  case False
  assume "step n s r"
  from this sint_size_of(1) [of p] show ?thesis
    by (cases rule: read_step)
      (use False in \<open>auto simp: read_prim_def same_error_def a.early_eof b.early_eof\<close>)
qed

lemma agree_read_prim: "agreeing N (read_prim opsA p) (read_prim opsB p)"
  by (simp add: agree_def alike_read_prim)

text \<open>The id of a field takes a byte, so that the loop over the fields comes to an end.\<close>

lemma id_step:
  assumes "step n s r"
  obtains (more) tid s' r' m where "n = Suc m" "parse_id opsA s = Inr (tid, s')" "parse_id opsB r = Inr (tid, r')" "step m s' r'"
    | (over) "\<exists>e \<in> EA. parse_id opsA s = Inl e" "\<exists>e \<in> EB. parse_id opsB r = Inl e"
  using assms
proof (cases rule: get_both)
  case (more b s' r' m)
  then show thesis using that(1) [of m b s' r'] by (simp add: parse_id_def read_prim_def)
next
  case over
  then show thesis using that(2) a.early_eof b.early_eof by (auto simp: parse_id_def read_prim_def)
qed

section \<open>Containers and tuples\<close>

lemma agree_push_back_loop:
  "agreeing N P Q \<Longrightarrow> agreeing N (push_back_loop P k coll) (push_back_loop Q k coll)"
  by (induction k arbitrary: coll) (auto simp: push_back_loop.simps [abs_def] intro!: agree_intros)

lemma alike_parse_elems_read:
  assumes "debug cfg" and "step n s r"
  shows "alike n (parse_elems_read cfg opsA kind sz elem k s) (parse_elems_read cfg opsB kind sz elem k r)"
proof (cases "resize_if_applicable kind (unat k)")
  case (Inr u)
  show ?thesis
  proof (cases "to_signed cfg (word_of_nat sz * k)")
    case c: (Inr count)
    from assms(2) checked_count(2) [OF assms(1) c] show ?thesis
      by (cases rule: read_step)
        (use Inr c in \<open>auto simp: parse_elems_read_def same_error_def a.early_eof b.early_eof Let_def\<close>)
  qed (use Inr in \<open>simp add: parse_elems_read_def\<close>)
qed (simp add: parse_elems_read_def)

lemma agree_parse_sequential:
  assumes "debug cfg" and "agreeing N P Q"
  shows "agreeing N (parse_sequential cfg opsA kind can_read sz elem P) (parse_sequential cfg opsB kind can_read sz elem Q)"
proof -
  have "agreeing N (parse_elems_read cfg opsA kind sz elem k) (parse_elems_read cfg opsB kind sz elem k)" for k
    by (simp add: agree_def alike_parse_elems_read [OF assms(1)])
  moreover have "agreeing N (parse_elems_each kind P k) (parse_elems_each kind Q k)" for k
    unfolding parse_elems_each_def [abs_def] by (intro agree_result agree_push_back_loop assms(2))
  ultimately show ?thesis
    unfolding parse_sequential_def [abs_def] by (intro agree_bind agree_if agree_read_var_uint)
qed

lemma agree_insert_loop: "agreeing N P Q \<Longrightarrow> agreeing N (insert_loop kind P i k coll) (insert_loop kind Q i k coll)"
  by (induction k arbitrary: i coll) (auto simp: insert_loop.simps [abs_def] intro!: agree_intros)

lemma agree_parse_ignore_order:
  "agreeing N P Q \<Longrightarrow> agreeing N (parse_ignore_order opsA kind P) (parse_ignore_order opsB kind Q)"
  unfolding parse_ignore_order_def [abs_def] by (intro agree_bind agree_result agree_read_var_uint agree_insert_loop)

lemma agree_read_tuple:
  "list_all2 (agreeing N) Ps Qs \<Longrightarrow> agreeing N (read_tuple_continue Ps acc) (read_tuple_continue Qs acc)"
  by (induction Ps Qs arbitrary: acc rule: list_all2_induct)
    (auto simp: read_tuple_continue.simps [abs_def] intro!: agree_intros)

lemma agree_parse_tuple: "list_all2 (agreeing N) Ps Qs \<Longrightarrow> agreeing N (parse_tuple Ps i obj) (parse_tuple Qs i obj)"
  by (induction Ps Qs arbitrary: i obj rule: list_all2_induct)
    (auto simp: parse_tuple.simps [abs_def] intro!: agree_intros)

section \<open>Tagged structs\<close>

lemma alike_skip_chars:
  "step n s r \<Longrightarrow> alike n (skipping (skip_chars opsA k) s) (skipping (skip_chars opsB k) r) \<or>
     both_overrun (skipping (skip_chars opsA k) s) (skipping (skip_chars opsB k) r)"
proof (induction k arbitrary: n s r)
  case 0
  then show ?case by (simp add: skipping_def)
next
  case (Suc k)
  from Suc.prems show ?case
  proof (cases rule: get_both)
    case (more b s' r' m)
    then show ?thesis using Suc.IH [OF step_mono [OF more(4), of n]] by (simp add: skipping_def)
  next
    case over
    then show ?thesis using a.overrun_skip_chars [of s k] b.overrun_skip_chars [of r k] by blast
  qed
qed

lemma alike_skip_loop:
  "step n s r \<Longrightarrow> alike n (skipping (skip_varuint_loop k opsA) s) (skipping (skip_varuint_loop k opsB) r)"
proof (induction k arbitrary: n s r)
  case 0
  then show ?case by (simp add: skipping_def)
next
  case (Suc k)
  from Suc.prems show ?case
  proof (cases rule: get_both)
    case (more b s' r' m)
    then show ?thesis using Suc.IH [OF step_mono [OF more(4), of n]] step_mono [OF more(4), of n]
      by (simp add: skipping_def)
  qed (auto simp: skipping_def same_error_def a.early_eof b.early_eof)
qed

lemma alike_skip_varuint:
  "step n s r \<Longrightarrow> alike n (skipping (skip_varuint cfg opsA fixed) s) (skipping (skip_varuint cfg opsB fixed) r) \<or>
     both_overrun (skipping (skip_varuint cfg opsA fixed) s) (skipping (skip_varuint cfg opsB fixed) r)"
  by (cases fixed) (simp_all add: skip_varuint_def [abs_def] alike_skip_loop alike_skip_chars)

text \<open>An action that may run over the end, followed by one that throws there.\<close>

lemma alike_or_overrun_bind:
  assumes "alike n X Y \<or> both_overrun X Y" and "\<And>v s' r'. step n s' r' \<Longrightarrow> alike n (P v s') (Q v r')"
    and "\<And>v. a.starved (P v) []" and "\<And>v. b.starved (Q v) []"
  shows "alike n (rbind X (\<lambda>(v, s'). P v s')) (rbind Y (\<lambda>(v, r'). Q v r'))"
  using assms(1)
proof
  assume "alike n X Y"
  then show ?thesis by (rule same_outcome_bind) (rule assms(2))
qed (rule overrun_then [OF _ assms(3,4)])

definition alike_member :: "nat \<Rightarrow> (val, 's) in_member \<Rightarrow> (val, 'r) in_member \<Rightarrow> bool" where
  "alike_member N m m' \<longleftrightarrow> im_id m = im_id m' \<and> im_fixed m = im_fixed m' \<and>
     agreeing N (im_parse m) (im_parse m') \<and> a.starved (im_parse m) [] \<and> b.starved (im_parse m') []"

lemma agree_member_value:
  assumes "alike_member N m m'"
  shows "agreeing N (parse_member_value cfg opsA m) (parse_member_value cfg opsB m')"
  unfolding agree_def
proof (intro allI impI)
  fix n s r
  assume "n < N" "step n s r"
  moreover have "alike n (im_parse m s') (im_parse m' r')" if "step n s' r'" for s' r'
    using assms \<open>n < N\<close> that by (auto simp: alike_member_def dest: agreeD)
  ultimately show "alike n (parse_member_value cfg opsA m s) (parse_member_value cfg opsB m' r)"
    unfolding parse_member_value_def skipping_bind using assms
    by (intro alike_or_overrun_bind) (auto simp: alike_member_def alike_skip_varuint)
qed

lemma alike_unknown_member:
  assumes "debug cfg" and "step n s r"
  shows "alike n (parse_custom_struct_member cfg opsA tid [] i obj s) (parse_custom_struct_member cfg opsB tid [] i obj r) \<or>
    both_overrun (parse_custom_struct_member cfg opsA tid [] i obj s) (parse_custom_struct_member cfg opsB tid [] i obj r)"
proof -
  have "alike n (read_var_uint opsA s :: (64 word \<times> 's) result) (read_var_uint opsB r)"
    using assms(2) by (simp add: read_var_uint_def alike_read_loop)
  then consider (ok) len :: "64 word" and s' r' where "read_var_uint opsA s = Inr (len, s')" "read_var_uint opsB r = Inr (len, r')"
      "step n s' r'" | (no) e e' where "(read_var_uint opsA s :: (64 word \<times> 's) result) = Inl e"
      "(read_var_uint opsB r :: (64 word \<times> 'r) result) = Inl e'" "same_error EA EB e e'"
    unfolding same_outcome_def by blast
  then show ?thesis
  proof cases
    case ok
    show ?thesis
    proof (cases "to_signed cfg len")
      case (Inr count)
      from ignore_step [OF ok(3) checked_count(2) [OF assms(1) Inr]] show ?thesis
        using ok Inr by (cases "s_ignore opsA count s'"; cases "s_ignore opsB count r'")
          (auto simp: skipping_def same_outcome_def overrun_def)
    qed (use ok in simp)
  qed simp
qed

lemma alike_member_parsed:
  assumes "debug cfg" and "list_all2 (alike_member N) ms ms'" and "n < N" and "step n s r"
  shows "alike n (parse_custom_struct_member cfg opsA tid ms i obj s) (parse_custom_struct_member cfg opsB tid ms' i obj r) \<or>
    both_overrun (parse_custom_struct_member cfg opsA tid ms i obj s) (parse_custom_struct_member cfg opsB tid ms' i obj r)"
  using assms(2)
proof (induction ms ms' arbitrary: i rule: list_all2_induct)
  case Nil
  then show ?case by (rule alike_unknown_member [OF assms(1,4)])
next
  case (Cons m ms m' ms')
  have "agreeing N (\<lambda>s. rbind (parse_member_value cfg opsA m s) (\<lambda>(v, s'). Inr (obj[i := v], s')))
      (\<lambda>r. rbind (parse_member_value cfg opsB m' r) (\<lambda>(v, r'). Inr (obj[i := v], r')))"
    using Cons.hyps(1) by (intro agree_bind agree_return agree_member_value)
  then have "alike n (rbind (parse_member_value cfg opsA m s) (\<lambda>(v, s'). Inr (obj[i := v], s')))
      (rbind (parse_member_value cfg opsB m' r) (\<lambda>(v, r'). Inr (obj[i := v], r')))"
    using assms(3,4) by (auto simp: agree_def)
  then show ?case using Cons by (auto simp: alike_member_def)
qed

lemma alike_custom_struct:
  assumes "debug cfg" and "list_all2 (alike_member N) ms ms'"
  shows "n < N \<Longrightarrow> n < k \<Longrightarrow> step n s r \<Longrightarrow>
    alike n (parse_custom_struct k cfg opsA ms obj s) (parse_custom_struct k cfg opsB ms' obj r)"
proof (induction k arbitrary: n s r obj)
  case (Suc k)
  from Suc.prems(3) show ?case
  proof (cases rule: id_step)
    case (more tid s' r' m)
    have rest: "alike m (rbind (parse_custom_struct_member cfg opsA tid ms 0 obj s') (\<lambda>(obj', s''). parse_custom_struct k cfg opsA ms obj' s''))
        (rbind (parse_custom_struct_member cfg opsB tid ms' 0 obj r') (\<lambda>(obj', r''). parse_custom_struct k cfg opsB ms' obj' r''))"
    proof (rule alike_or_overrun_bind [OF alike_member_parsed [OF assms]])
      show "alike m (parse_custom_struct k cfg opsA ms v s'') (parse_custom_struct k cfg opsB ms' v r'')"
        if "step m s'' r''" for v s'' r''
        using Suc.IH [of m s'' r'' v] Suc.prems(1,2) more(1) that by simp
    qed (use more Suc.prems(1,2) in \<open>auto intro: a.past_custom_struct b.past_custom_struct\<close>)
    show ?thesis
      using more step_mono [OF more(4), of n] alike_mono [OF rest, of n] by simp
  qed (simp, rule same_outcome_ends, auto)
qed simp

lemma agree_custom_struct:
  assumes "debug cfg" and "list_all2 (alike_member (fuel cfg)) ms ms'"
  shows "agreeing (fuel cfg) (parse_custom_struct (fuel cfg) cfg opsA ms obj) (parse_custom_struct (fuel cfg) cfg opsB ms' obj)"
  using alike_custom_struct [OF assms] by (simp add: agree_def)

lemma agree_parse_id: "agreeing N (parse_id opsA) (parse_id opsB)"
  unfolding parse_id_def [abs_def] by (intro agree_bind agree_read_prim agree_return)

lemma agree_optimistic:
  assumes "debug cfg" and "list_all2 (alike_member (fuel cfg)) ms ms'"
  shows "agreeing (fuel cfg) (parse_custom_struct_optimistic cfg opsA ms i obj) (parse_custom_struct_optimistic cfg opsB ms' i obj)"
  using assms(2)
proof (induction ms ms' arbitrary: i obj rule: list_all2_induct)
  case Nil
  show ?case unfolding parse_custom_struct_optimistic.simps(1) [abs_def]
    by (intro agree_bind agree_return agree_custom_struct [OF assms(1)]) simp
next
  case (Cons m ms m' ms')
  then have "im_id m = im_id m'" by (simp add: alike_member_def)
  then show ?case unfolding parse_custom_struct_optimistic.simps(2) [abs_def]
    using Cons by (simp only:) (intro agree_bind agree_if agree_return agree_parse_id agree_member_value)
qed

lemma agree_fallback:
  assumes "debug cfg" and "list_all2 (alike_member (fuel cfg)) ms ms'"
  shows "agreeing (fuel cfg) (fallback cfg opsA ms x) (fallback cfg opsB ms' x)"
proof (cases x)
  case (Pair tid obj)
  show ?thesis unfolding agree_def
  proof (intro allI impI)
    fix n s r
    assume n: "n < fuel cfg" "step n s r"
    have "alike n (rbind (parse_custom_struct_member cfg opsA tid ms 0 obj s) (\<lambda>(obj', s'). parse_custom_struct (fuel cfg) cfg opsA ms obj' s'))
        (rbind (parse_custom_struct_member cfg opsB tid ms' 0 obj r) (\<lambda>(obj', r'). parse_custom_struct (fuel cfg) cfg opsB ms' obj' r'))"
      by (rule alike_or_overrun_bind [OF alike_member_parsed [OF assms n] alike_custom_struct [OF assms n(1,1)]])
        (use n(1) in \<open>auto intro: a.past_custom_struct b.past_custom_struct\<close>)
    then show "alike n (fallback cfg opsA ms x s) (fallback cfg opsB ms' x r)"
      using n(2) by (simp add: fallback_def Pair)
  qed
qed

lemma agree_optimistic_for_large:
  assumes "debug cfg" and "list_all2 (alike_member (fuel cfg)) ms ms'"
  shows "agreeing (fuel cfg) (parse_custom_struct_optimistic_for_large cfg opsA ms obj)
    (parse_custom_struct_optimistic_for_large cfg opsB ms' obj)"
  unfolding parse_custom_struct_optimistic_for_large_def [abs_def] fallback_simp list_all2_lengthD [OF assms(2)]
  by (intro agree_if agree_bind agree_optimistic agree_fallback agree_custom_struct assms)

section \<open>Every type\<close>

lemma alike_in_members:
  "list_all2 (\<lambda>P Q. agreeing N P Q \<and> a.starved P [] \<and> b.starved Q []) Ps Qs \<Longrightarrow>
   list_all2 (alike_member N) (in_members ids fixeds Ps) (in_members ids fixeds Qs)"
  by (simp add: list_all2_conv_all_nth in_members_def alike_member_def)

lemma agree_parse:
  assumes "debug cfg" and "0 < fuel cfg"
  shows "wf_ty t \<Longrightarrow> agreeing (fuel cfg) (parse cfg opsA t) (parse cfg opsB t)"
proof (induction t)
  case (TTagged ids ts init)
  then have "list_all2 (\<lambda>P Q. agreeing (fuel cfg) P Q \<and> a.starved P [] \<and> b.starved Q [])
      (map (parse cfg opsA) ts) (map (parse cfg opsB) ts)"
    using a.past_parse [OF assms(2)] b.past_parse [OF assms(2)]
    by (auto simp: list_all2_conv_all_nth list_all_iff)
  then show ?case unfolding parse.simps
    by (intro agree_then_val agree_optimistic_for_large alike_in_members assms)
qed (use assms in \<open>auto simp: list_all2_conv_all_nth list_all_iff parse_enum_def parse_byte_def
    intro!: agree_then_val agree_read_prim agree_read_var_prim agree_bind agree_return agree_parse_sequential
      agree_parse_ignore_order agree_read_tuple agree_parse_tuple\<close>)

end

section \<open>Files and memory\<close>

text \<open>A file stream, whether or not it throws at the end, and a reader of the file's contents in memory.\<close>

interpretation file_memory: two_streams fs_ops "fs_ok d" fs_rem fs_past "{EarlyEof, IosFailure}"
  "crr_ops cfg" crr_inv crr_rem crr_past "{EarlyEof}"
  by unfold_locales

lemma file_memory_outcome:
  assumes "debug cfg" and "wf_ty t" and "length d < fuel cfg" and "length d < 2 ^ 63 - 1"
    and "F = rbind (parse cfg fs_ops t ((ifstream_open (Some d))\<lparr>fs_throw := thr\<rparr>)) (\<lambda>(v, s). Inr (v, fs_rem s))"
    and "M = rbind (parse cfg (crr_ops cfg) t (char_range_reader_new d)) (\<lambda>(v, r). Inr (v, crr_rem r))"
  shows "F = M \<or> F \<in> {Inl EarlyEof, Inl IosFailure} \<and> M = Inl EarlyEof"
proof -
  let ?s = "(ifstream_open (Some d))\<lparr>fs_throw := thr\<rparr>" and ?r = "char_range_reader_new d"
  have "file_memory.step d (length d) ?s ?r"
    using assms(4) crr_new by (simp add: in_step_def fs_ok_def fs_good_def fs_rem_def ifstream_open_def)
  moreover have "0 < fuel cfg" using assms(3) by simp
  ultimately have "file_memory.alike d (length d) (parse cfg fs_ops t ?s) (parse cfg (crr_ops cfg) t ?r)"
    using agreeD [OF file_memory.agree_parse [OF assms(1) _ assms(2)] assms(3)] by blast
  then show ?thesis unfolding assms(5,6) same_outcome_def
    by (auto simp: in_step_def same_error_def)
qed

end
