(* ===== verification/StorageProperties.thy ===== *)
theory StorageProperties
  imports FileSamples FileMachine StreamAgreement
begin

text \<open>
  The properties of the storage layer: checksums, compression and blocks, and the single
  operations on indexed files. What whole sessions on files give is stated in the root theory.
\<close>

section \<open>Files as streams\<close>

text \<open>
  C9: In a checked build, whatever bytes a file holds, parsing it as a stream, with or without
  exceptions, as any type of the program, gives the object that parsing its contents in memory gives
  and leaves the same bytes unread, and fails with the same error; only an early end of the file may
  be reported in the file stream's way. It is the checks that rule out a negative count to skip,
  which rewinds the reader of memory (see C26) and which a
  file stream takes for zero.
\<close>

theorem file_like_memory:
  assumes "debug cfg" and "wf_ty t" and "length d < fuel cfg" and "length d < 2 ^ 63 - 1"
    and "F = rbind (parse cfg fs_ops t ((ifstream_open (Some d))\<lparr>fs_throw := thr\<rparr>)) (\<lambda>(v, s). Inr (v, fs_rem s))"
    and "M = rbind (parse cfg (crr_ops cfg) t (char_range_reader_new d)) (\<lambda>(v, r). Inr (v, crr_rem r))"
  shows "F = M \<or> F \<in> {Inl EarlyEof, Inl IosFailure} \<and> M = Inl EarlyEof"
  by (rule file_memory_outcome [OF assms])

theorem file_like_memory_witness:
  "rbind (parse debug_cfg fs_ops (TVar Num1) ((ifstream_open (Some [0x80, 2, 7]))\<lparr>fs_throw := True\<rparr>)) (\<lambda>(v, s). Inr (v, fs_rem s)) =
     Inr (VPrim (P1 0), [7])"
proof -
  have "rbind (parse debug_cfg (crr_ops debug_cfg) (TVar Num1) (char_range_reader_new [0x80, 2, 7])) (\<lambda>(v, r). Inr (v, crr_rem r)) =
      Inr (VPrim (P1 0), [7])"
    by (simp add: then_val_def char_range_reader_new_def read_var_uint_def read_var_uint_loop.simps
        crr_ops_def crr_get_def crr_at_def r_end_def shift_or_def crr_rem_def)
  then show ?thesis
    using file_like_memory [of debug_cfg "TVar Num1" "[0x80, 2, 7]" _ True, OF _ _ _ _ refl refl]
    by (simp only: debug_cfg_def) simp
qed

section \<open>Checksums and blocks\<close>

text \<open>
  C13: The table-driven checksum and the one with processor instructions, which splits the
  buffer at aligned addresses, compute CRC-32C, wherever the buffer lies.
\<close>

theorem crc_implementations:
  assumes "documented_crc32 u8 u64" and "unat str + unat count + 7 < 2 ^ 64"
  shows "crc32c None u8 u64 m str count = Some (crc32c_spec (bytes_at m str (unat count))) \<and>
    crc32c (Some ecx) u8 u64 m str count = Some (crc32c_spec (bytes_at m str (unat count)))"
  using crc32c_eq_spec [OF assms] by simp

definition check_digits :: "byte list" where
  "check_digits = [0x31, 0x32, 0x33, 0x34, 0x35, 0x36, 0x37, 0x38, 0x39]"

theorem crc_implementations_witness:
  "crc32c (Some 0x100000) (env_u8 sample_env) (env_u64 sample_env) (memory_of 0x1003 check_digits) 0x1003 9 =
    Some 0xE3069283"
proof -
  have "documented_crc32 (env_u8 sample_env) (env_u64 sample_env)" using good_sample by (simp add: good_env_def)
  moreover have "bytes_at (memory_of 0x1003 check_digits) 0x1003 9 = check_digits"
  proof -
    have "length check_digits = 9" by (simp add: check_digits_def)
    then show ?thesis using bytes_at_memory_of [of check_digits "0x1003"] by simp
  qed
  ultimately show ?thesis
    using crc_implementations [of "env_u8 sample_env" "env_u64 sample_env" "0x1003" 9 "memory_of 0x1003 check_digits" "0x100000"]
    by (simp add: check_digits_def crc32c_check_value)
qed


definition small_block :: encoded_block where
  "small_block = \<lparr>contentType = 2, contentEncoding = 1, contentChecksum = crc32c_spec [1, 2, 3], content = [1, 2, 3]\<rparr>"

lemma small_block: "encode_block sample_env 2 [1, 2, 3] 1 = Inr small_block"
  by (simp add: encode_block.simps encoding_defs block_with_ok [OF good_sample] small_block_def)


text \<open>
  C6: A block decodes to the bytes it was encoded from, whichever encoding was asked for, even
  an unknown one. Its content is never longer than those bytes; its encoding is one of the three
  known ones, and with any other it is refused.
\<close>

theorem block_roundtrip:
  assumes "good_env env" and "length raw < 2 ^ 31"
  shows "\<exists>b. encode_block env i raw encoding = Inr b \<and> contentType b = i \<and>
    length (content b) \<le> length raw \<and> decode_block env b = Inr raw \<and>
    (\<forall>e. e \<noteq> PBSF_ENCODING_IDENTITY \<and> e \<noteq> PBSF_ENCODING_LZO \<and> e \<noteq> PBSF_ENCODING_ZSTD \<longrightarrow>
       decode_block env (b\<lparr>contentEncoding := e\<rparr>) = Inl UnknownEncoding)"
proof -
  obtain b where b: "encode_block env i raw encoding = Inr b" "stores env i raw b"
    using encode_stores [OF assms] by blast
  have "length (content b) < 2 ^ 62" using b(2) assms(2) by (simp add: stores_def)
  then have "decode_block env (b\<lparr>contentEncoding := e\<rparr>) = Inl UnknownEncoding"
    if "e \<noteq> PBSF_ENCODING_IDENTITY" "e \<noteq> PBSF_ENCODING_LZO" "e \<noteq> PBSF_ENCODING_ZSTD" for e
    using that b(2) by (simp add: decode_block_def crc32c_buffer_ok [OF assms(1)] stores_def)
  with b show ?thesis by (auto simp: stores_def)
qed

theorem block_roundtrip_witness:
  "decode_block sample_env small_block = Inr [1, 2, 3] \<and>
   decode_block sample_env (small_block\<lparr>contentEncoding := 3\<rparr>) = Inl UnknownEncoding"
  using block_roundtrip [OF good_sample, of "[1, 2, 3]" 2 1] by (auto simp: small_block encoding_defs)

text \<open>
  C24: For libraries that keep their documented contracts the wrappers of zstd, lzo, lz4 (both
  compressors) and gipfeli undo themselves: their buffers are large enough and the stored sizes
  are the right ones.
\<close>

theorem codecs_roundtrip:
  assumes "zstd_contract zs" and "lzo_contract lz" and "lz4_contract l4" and "gipfeli_contract gi"
    and "length src \<le> LZ4_MAX_INPUT_SIZE"
  shows "rbind (zstd_compress zs junk src) (zstd_decompress zs junk') = Inr src \<and>
    rbind (lzo_compress lz junk src) (lzo_decompress lz junk') = Inr src \<and>
    rbind (lz4_compress l4 junk src) (lz4_decompress l4 junk') = Inr src \<and>
    rbind (lz4hc_compress l4 junk src) (lz4_decompress l4 junk') = Inr src \<and>
    rbind (gipfeli_compress gi junk src) (gipfeli_decompress gi junk') = Inr src"
proof -
  have n: "length src < 2 ^ 31" "length src < 2 ^ 62 - 128" using assms(5) by (simp_all add: LZ4_MAX_INPUT_SIZE_def)
  show ?thesis
    using zstd_layout [OF assms(1) n(1), of junk junk'] lzo_layout [OF assms(2) n(2), of junk junk']
      lz4_roundtrip [OF assms(3,5), of junk junk'] gipfeli_roundtrip [OF assms(4) n(1), of junk junk']
    by auto
qed

theorem codecs_roundtrip_witness:
  "rbind (zstd_compress rle_zstd (\<lambda>i. 7) [5, 5, 5]) (zstd_decompress rle_zstd (\<lambda>i. 8)) = Inr [5, 5, 5]"
  using codecs_roundtrip [OF rle_zstd_contract rle_lzo_contract rle_lz4_contract rle_gipfeli_contract, of "[5, 5, 5]"]
  by (simp add: LZ4_MAX_INPUT_SIZE_def)

text \<open>
  C27: Decompression believes the size in front of the data. A block too short to hold a size
  is read out of bounds, and a frame that yields fewer bytes than the size says is accepted by the
  wrapper of zstd with the rest of the result uninitialized.
\<close>

theorem decompress_unchecked:
  assumes "4 \<le> length src" and "n = of_mem (take 4 src)" and "zs_decompress lib (scast (n :: 32 word)) (drop 4 src) = (out, res)"
    and "\<not> zs_is_error lib res" and "length out \<le> unat n" and "length s4 < 4" and "length s8 < 8"
  shows "zstd_decompress lib junk src = Inr (out @ map junk [length out..<unat n]) \<and>
    zstd_decompress lib junk s4 = Inl (Undefined OutOfBounds) \<and> lzo_decompress lzo junk s8 = Inl (Undefined OutOfBounds)"
proof -
  have "unat n < 2 ^ LENGTH(32)" by (rule unsigned_less)
  then have "unat n < 2 ^ 63" by simp
  then show ?thesis
    using assms decompress_short
    by (simp add: zstd_decompress_def read_prefix_def Let_def buffer_new_ok store_at_def drop_map)
qed

theorem decompress_unchecked_witness:
  "zstd_decompress rle_zstd (\<lambda>i. 0xAA) [3, 0, 0, 0, 0, 7] = Inr [7, 0xAA, 0xAA]"
proof -
  have n: "of_mem (take 4 [3, 0, 0, 0, 0, 7]) = (3 :: 32 word)" by (simp add: of_mem_def)
  have d: "zs_decompress rle_zstd (scast (3 :: 32 word)) (drop 4 [3, 0, 0, 0, 0, 7]) = ([7], size_of_buffer [7])"
    by (simp add: rle_zstd_def rle_decode_def)
  have "zstd_decompress rle_zstd (\<lambda>i. 0xAA) [3, 0, 0, 0, 0, 7] = Inr ([7] @ map (\<lambda>i. 0xAA) [length [7 :: byte]..<unat (3 :: 32 word)])"
    by (rule decompress_unchecked [OF _ n [symmetric] d, of "[]" "[]", THEN conjunct1]) (simp_all add: rle_zstd_def)
  then show ?thesis by (simp add: upt_rec)
qed

section \<open>Operations on indexed files\<close>

text \<open>
  C16: Inserting into a file is updating the map it represents: the new key gets its object,
  everything else stays, the bytes already in the file are untouched and the index is marked for
  writing.
\<close>

theorem insert_refines:
  assumes "good_env env" and "key_ok K" and "file_rep env r K c f" and "is_key K k"
    and "T \<in> snd ` set (rl_entries r)" and "storable T v" and "length (file_data f) + 2 ^ 32 < 2 ^ 63 - 1"
  shows "\<exists>f' x. indexed_insert env r K (k, T, v) f = Inr f' \<and> file_rep env r K (c(k \<mapsto> (T, v))) f' \<and>
    ix_need_write_index f' \<and> file_data f' = file_data f @ x"
proof -
  from insert_rep [OF assms] obtain f' where f': "indexed_insert env r K (k, T, v) f = Inr f'"
      "file_rep env r K (c(k \<mapsto> (T, v))) f'" "ix_need_write_index f'" by blast
  obtain s where s: "ix_stream_ptr f = Some s" "fs_good s" using assms(3) by (auto simp: file_rep_def)
  have "length (fs_data s) + length (stored_bytes env (rl_entries r) (T, v)) < 2 ^ 63 - 1"
    using assms(7) length_stored_bytes [OF assms(1,6), of "rl_entries r"] by (simp add: file_data_def s(1))
  from append_block [OF assms(1,6) s(2) this] have "\<exists>x. file_data f' = file_data f @ x"
    using f'(1) s(1) by (auto simp: indexed_insert_def deref_stream_def file_data_def)
  with f' show ?thesis by blast
qed

theorem insert_refines_witness:
  "\<exists>f' x. indexed_insert sample_env sample_realm run_key (run 3, count_ctype, count_val 9) sample_file = Inr f' \<and>
    file_rep sample_env sample_realm run_key (sample_contents(run 3 \<mapsto> (count_ctype, count_val 9))) f' \<and>
    ix_need_write_index f' \<and> file_data f' = file_data sample_file @ x"
proof (rule insert_refines [OF good_sample run_key_ok(1) sample_file_rep(1) run_key_ok(2) _ storable_count])
  show "count_ctype \<in> snd ` set (rl_entries sample_realm)" using realm_sample by simp
  show "length (file_data sample_file) + 2 ^ 32 < 2 ^ 63 - 1" using sample_file_rep(3) by simp
qed

text \<open>
  C15: The index is kept sorted by the key's order. Iterating gives every key of the map once, in
  ascending order, and in reverse the other way round; each entry reads its own object.
  \<^verbatim>\<open>lower_bound\<close> and \<^verbatim>\<open>upper_bound\<close> are the numbers of keys below, and not above, the key.
\<close>

theorem index_order:
  assumes "good_env env" and "key_ok K" and "file_rep env r K c f" and "is_key K k"
  shows "sorted_wrt (k_less K) (indexed_indices f) \<and> set (indexed_indices f) = dom c \<and>
    indexed_lower_bound K k f = length (filter (\<lambda>k'. k_less K k' k) (indexed_indices f)) \<and>
    indexed_upper_bound K k f = length (filter (\<lambda>k'. \<not> k_less K k k') (indexed_indices f)) \<and>
    (\<exists>es. indexed_elems env f = Inr es \<and> indexed_relems env f = Inr (rev es) \<and> map fst es = indexed_indices f \<and>
       (\<forall>(k', z) \<in> set es. \<exists>s T v z' s'. ix_stream_ptr f = Some s \<and> c k' = Some (T, v) \<and>
          lazy_block_as env r T z s = Inr ((v, z'), s')))"
proof -
  have ord: "ordered_keys (k_less K) (is_key K)" using assms(2) by (simp add: key_ok_def)
  note m = index_rep_sorted [OF assms(3)]
  have "\<exists>es. indexed_elems env f = Inr es \<and> indexed_relems env f = Inr (rev es) \<and> map fst es = indexed_indices f \<and>
       (\<forall>(k', z) \<in> set es. \<exists>s T v z' s'. ix_stream_ptr f = Some s \<and> c k' = Some (T, v) \<and>
          lazy_block_as env r T z s = Inr ((v, z'), s'))"
  proof (intro exI [of _ "map (entry_at env) (ix_index f)"] conjI indexed_elems_eq ballI)
    show "map fst (map (entry_at env) (ix_index f)) = indexed_indices f"
      by (simp add: indexed_indices_def entry_at_def)
    fix e
    assume "e \<in> set (map (entry_at env) (ix_index f))"
    then show "case e of (k', z) \<Rightarrow> \<exists>s T v z' s'. ix_stream_ptr f = Some s \<and> c k' = Some (T, v) \<and>
          lazy_block_as env r T z s = Inr ((v, z'), s')"
      using entry_reads [OF assms(1,2,3), of "fst e" "snd e"] by (simp add: split_beta del: set_map)
  qed
  moreover have "sorted_wrt (k_less K) (indexed_indices f)" using m(1) by (simp add: sorted_map_def indexed_indices_def)
  ultimately show ?thesis
    using m ordered_keys.lower_bound_count [OF ord assms(4) m(1)] ordered_keys.upper_bound_count [OF ord assms(4) m(1)]
    by (simp add: indexed_lower_bound_def indexed_upper_bound_def indexed_indices_def)
qed

theorem index_order_witness:
  "sorted_wrt uint_less (indexed_indices sample_file) \<and> set (indexed_indices sample_file) = {run 2, run 7}"
proof -
  have "dom sample_contents = {run 2, run 7}" by (auto simp: sample_contents_def sample_inserts_def)
  then show ?thesis
    using index_order [OF good_sample run_key_ok(1) sample_file_rep(1) run_key_ok(2)]
    by (simp add: run_key_def uint_key_def)
qed

text \<open>
  C17: Insertions and reads can be interleaved on one open file. Every sequence of operations
  the map allows can be run and no other, each read seeing the last insertion of its key, and the
  file ends up representing the map's last state.
\<close>

theorem interleaved_operations:
  assumes "good_env env" and "key_ok K" and "realm_ok (rl_entries r)" and "file_rep env r K c f"
    and "list_all (event_ok r K) es" and "length (file_data f) + 2 ^ 32 * (length es + 1) < 2 ^ 63 - 1"
  shows "((\<exists>f'. file_run env r K f es f') \<longleftrightarrow> map_run c es \<noteq> None) \<and>
    (\<forall>f'. file_run env r K f es f' \<longrightarrow> (\<exists>c'. map_run c es = Some c' \<and> file_rep env r K c' f'))"
  using run_simulated [OF assms(1,2,3) _ assms(4,5,6)] run_exists [OF assms(1,2,3) _ assms(4,5,6)] by fastforce

definition sample_events :: "file_event list" where
  "sample_events =
     [Got (run 7) count_ctype (count_val 4), Missing (run 3), Inserted (run 3) count_ctype (count_val 9),
      Mismatched (run 2) count_ctype, Got (run 3) count_ctype (count_val 9),
      Inserted (run 7) point_ctype point_val, Got (run 7) point_ctype point_val]"

theorem interleaved_operations_witness:
  "\<exists>f'. file_run sample_env sample_realm run_key sample_file sample_events f'"
proof -
  have r: "realm_ok (rl_entries sample_realm)" using realm_sample by simp
  have ok: "list_all (event_ok sample_realm run_key) sample_events"
    using run_key_ok(2) storable_point storable_count realm_sample by (simp add: sample_events_def)
  have room: "length (file_data sample_file) + 2 ^ 32 * (length sample_events + 1) < 2 ^ 63 - 1"
    using sample_file_rep(3) by (simp add: sample_events_def)
  have "map_run sample_contents sample_events \<noteq> None"
    using point_ne_count by (simp add: sample_events_def sample_contents_at)
  then show ?thesis
    using interleaved_operations [OF good_sample run_key_ok(1) r sample_file_rep(1) ok room] by blast
qed

text \<open>
  C28: Reading the object of a key a second time through the same entry throws
  \<^verbatim>\<open>bad_checksum_error\<close> when the block is not compressed, because the first read moved its content
  out, and gives the object again when it is.
\<close>

theorem second_read:
  assumes "good_env env" and "key_ok K" and "file_rep env r K c f" and "is_key K k" and "c k = Some (T, v)"
    and "b = stored_block env (rl_entries r) T v" and "contentChecksum b \<noteq> crc32c_spec []"
  shows "\<exists>z s z' s'. indexed_lookup env K k f = Inr z \<and> ix_stream_ptr f = Some s \<and>
    lazy_block_as env r T z s = Inr ((v, z'), s') \<and>
    lazy_block_as env r T z' s' =
      (if contentEncoding b = PBSF_ENCODING_IDENTITY then Inl BadChecksum else Inr ((v, z'), s'))"
proof -
  from find_rep(2) [OF assms(2,3,4,5)] obtain p s where p: "indexed_lookup env K k f = Inr (lazy_at env p)"
      "ix_stream_ptr f = Some s" "fs_good s" "length (fs_data s) < 2 ^ 63 - 1"
      "stored_at env (rl_entries r) (fs_data s) p (T, v)" "storable T v" by blast
  let ?z = "(lazy_at env p)\<lparr>lazy_result := opt_in_place (decoded_from b)\<rparr>"
  from lazy_block_stored [OF assms(1) p(6,3,4,5)] obtain s' where
    s': "lazy_block_as env r T (lazy_at env p) s = Inr ((v, ?z), s')" by (auto simp: assms(6))
  have "lazy_deref ?z s' = Inr ((decoded_from b, ?z), s')" by (rule lazy_deref_again) simp
  then have "lazy_block_as env r T ?z s' =
      (if contentEncoding b = PBSF_ENCODING_IDENTITY then Inl BadChecksum else Inr ((v, ?z), s'))"
    using accessor_as_again [OF assms(1) p(6) assms(6,7)] by (simp add: lazy_block_as_def)
  with p(1,2) s' show ?thesis by blast
qed

lemma small_frame: "zstd_compress rle_zstd junk [4, 0, 0, 0] = Inr [4, 0, 0, 0, 0, 4, 0, 0, 0]"
proof -
  have r: "rle_encode [4, 0, 0, 0] = [0, 4, 0, 0, 0]" by (simp add: rle_encode_def)
  have s: "size_of_buffer [4, 0, 0, 0] = 4" "size_of_buffer [0, 4, 0, 0, 0] = 5" by (simp_all add: size_of_buffer_def)
  have m: "mem_bytes (4 :: 32 word) = [4, 0, 0, 0]" by code_simp
  show ?thesis
    by (simp add: zstd_compress_def Let_def rle_zstd_def r s m buffer_new_def store_at_def buffer_resize_def upt_rec)
qed

lemma count_block:
  "stored_block sample_env entries count_ctype (count_val 4) =
    \<lparr>contentType = type_id count_ctype entries, contentEncoding = PBSF_ENCODING_IDENTITY,
     contentChecksum = crc32c_spec [4, 0, 0, 0], content = [4, 0, 0, 0]\<rparr>"
proof -
  have raw: "encode (c_ty count_ctype) (count_val 4) = [4, 0, 0, 0]"
    by (simp add: count_ctype_def count_val_def prim_val_bytes_def mem_bytes_def le_bytes_4)
  have "zstd_compress (env_zstd sample_env) (env_junk sample_env) [4, 0, 0, 0] = Inr [4, 0, 0, 0, 0, 4, 0, 0, 0]"
    by (simp add: sample_env_def small_frame)
  moreover have "env_preferred_encoding sample_env = PBSF_ENCODING_ZSTD"
    by (simp add: env_preferred_encoding_def) (simp add: sample_env_def)
  ultimately show ?thesis
    by (simp add: stored_block_def raw encode_block.simps encoding_defs block_with_ok [OF good_sample])
qed

theorem second_read_witness:
  "\<exists>z s z' s'. indexed_lookup sample_env run_key (run 7) sample_file = Inr z \<and> ix_stream_ptr sample_file = Some s \<and>
    lazy_block_as sample_env sample_realm count_ctype z s = Inr ((count_val 4, z'), s') \<and>
    lazy_block_as sample_env sample_realm count_ctype z' s' = Inl BadChecksum"
proof -
  have "crc32c_spec [4, 0, 0, 0] \<noteq> crc32c_spec []"
    by (simp add: crc32c_spec_def byte_bits_def upt_rec crc_bit_def)
  then show ?thesis
    using second_read [OF good_sample run_key_ok(1) sample_file_rep(1) run_key_ok(2) sample_contents_at(1) refl]
    by (simp add: count_block)
qed

text \<open>
  C29: Moving a file gives an object with everything the file had; what is left of the old one
  keeps the flag that its index has to be written, so destroying it dereferences a null pointer
  when the file was new or had been changed.
\<close>

theorem moved_from:
  assumes "file_rep env r K c f" and "indexed_move f = (new, old)"
  shows "file_rep env r K c new \<and> indexed_insert env r K t old = Inl (Undefined NullPointer) \<and>
    indexed_close env r K old = (if ix_need_write_index f then Inl (Undefined NullPointer) else Inr old)"
  using assms by (auto simp: indexed_move_def indexed_close_def indexed_insert_def deref_stream_def)

theorem moved_from_witness:
  "indexed_close sample_env sample_realm run_key (snd (indexed_move sample_file)) = Inl (Undefined NullPointer)"
  using moved_from [OF sample_file_rep(1), of "fst (indexed_move sample_file)" "snd (indexed_move sample_file)"] sample_file_rep(2)
  by simp

end
