(* ===== verification/RangeFacts.thy ===== *)
theory RangeFacts
  imports Ranges
begin

text \<open>
  What the range utilities compute: indexed maps, reductions of ranges whose iterators hold
  their own elements, and the filters and maps of a container's range.
\<close>

section \<open>Indexed maps\<close>

definition either_seq ::
  "('i \<Rightarrow> 'w \<Rightarrow> 'i \<Rightarrow> 'v list \<Rightarrow> bool) \<Rightarrow> ('j \<Rightarrow> 'w \<Rightarrow> 'j \<Rightarrow> 'u list \<Rightarrow> bool) \<Rightarrow>
   'i + 'j \<Rightarrow> 'w \<Rightarrow> 'i + 'j \<Rightarrow> ('v + 'u) list \<Rightarrow> bool" where
  "either_seq seq1 seq2 s w e vs \<longleftrightarrow>
     (\<exists>i e' us. s = Inl i \<and> e = Inl e' \<and> vs = map Inl us \<and> seq1 i w e' us) \<or>
     (\<exists>j e' us. s = Inr j \<and> e = Inr e' \<and> vs = map Inr us \<and> seq2 j w e' us)"

lemma either_input:
  assumes p1: "input_iterator ops1 seq1" and p2: "input_iterator ops2 seq2"
  shows "input_iterator (either_ops ops1 ops2) (either_seq seq1 seq2)"
proof unfold_locales
  fix s w e v vs
  show "either_seq seq1 seq2 s w e [] \<Longrightarrow> it_eq (either_ops ops1 ops2) s e"
    using input_iterator.at_end [OF p1] input_iterator.at_end [OF p2]
    by (auto simp: either_seq_def either_ops_def)
  show "either_seq seq1 seq2 s w e (v # vs) \<Longrightarrow> \<not> it_eq (either_ops ops1 ops2) s e"
    using input_iterator.at_more [OF p1] input_iterator.at_more [OF p2]
    by (auto simp: either_seq_def either_ops_def Cons_eq_map_conv)
  show "either_seq seq1 seq2 s w e (v # vs) \<Longrightarrow>
      \<exists>s'. it_deref (either_ops ops1 ops2) s = Inr (v, s') \<and> either_seq seq1 seq2 s' w e (v # vs)"
    using input_iterator.deref [OF p1] input_iterator.deref [OF p2]
    by (fastforce simp: either_seq_def either_ops_def Cons_eq_map_conv)
  show "either_seq seq1 seq2 s w e (v # vs) \<Longrightarrow>
      \<exists>s' w'. it_incr (either_ops ops1 ops2) s w = Inr (s', w') \<and> either_seq seq1 seq2 s' w' e vs"
    using input_iterator.incr [OF p1] input_iterator.incr [OF p2]
    by (fastforce simp: either_seq_def either_ops_def Cons_eq_map_conv)
qed

lemma either_iterators:
  assumes p1: "pure_iterator ops1 seq1" and p2: "pure_iterator ops2 seq2"
  shows "pure_iterator (either_ops ops1 ops2) (either_seq seq1 seq2)"
proof -
  note i = p1 [unfolded pure_iterator_def, THEN conjunct1] p2 [unfolded pure_iterator_def, THEN conjunct1]
  show ?thesis
    unfolding pure_iterator_def pure_iterator_axioms_def
    using either_input [OF i] pure_iterator.world [OF p1] pure_iterator.world [OF p2]
      pure_iterator.pure_end_refl [OF p1] pure_iterator.pure_end_refl [OF p2]
    by (auto simp: either_seq_def either_ops_def split: sum.splits)
qed

text \<open>Two iterators with a world each: the first changes the first world, the second the second.\<close>

definition fst_world :: "('i, 'v, 'w) iter_ops \<Rightarrow> ('i, 'v, 'w \<times> 'x) iter_ops" where
  "fst_world ops =
     \<lparr>it_deref = it_deref ops,
      it_incr = (\<lambda>i (w, x). rbind (it_incr ops i w) (\<lambda>(i', w'). Inr (i', (w', x)))), it_eq = it_eq ops\<rparr>"

definition snd_world :: "('i, 'v, 'x) iter_ops \<Rightarrow> ('i, 'v, 'w \<times> 'x) iter_ops" where
  "snd_world ops =
     \<lparr>it_deref = it_deref ops,
      it_incr = (\<lambda>i (w, x). rbind (it_incr ops i x) (\<lambda>(i', x'). Inr (i', (w, x')))), it_eq = it_eq ops\<rparr>"

lemma fst_world_iterator:
  assumes i: "input_iterator ops seq"
  shows "input_iterator (fst_world ops) (\<lambda>i w. seq i (fst w))"
proof unfold_locales
  fix i w e v vs
  show "seq i (fst w) e [] \<Longrightarrow> it_eq (fst_world ops) i e"
    using input_iterator.at_end [OF i] by (simp add: fst_world_def)
  assume h: "seq i (fst w) e (v # vs)"
  show "\<not> it_eq (fst_world ops) i e" using input_iterator.at_more [OF i h] by (simp add: fst_world_def)
  show "\<exists>i'. it_deref (fst_world ops) i = Inr (v, i') \<and> seq i' (fst w) e (v # vs)"
    using input_iterator.deref [OF i h] by (simp add: fst_world_def)
  show "\<exists>i' w'. it_incr (fst_world ops) i w = Inr (i', w') \<and> seq i' (fst w') e vs"
    using input_iterator.incr [OF i h] by (cases w) (auto simp: fst_world_def)
qed

lemma snd_world_iterator:
  assumes i: "input_iterator ops seq"
  shows "input_iterator (snd_world ops) (\<lambda>i w. seq i (snd w))"
proof unfold_locales
  fix i w e v vs
  show "seq i (snd w) e [] \<Longrightarrow> it_eq (snd_world ops) i e"
    using input_iterator.at_end [OF i] by (simp add: snd_world_def)
  assume h: "seq i (snd w) e (v # vs)"
  show "\<not> it_eq (snd_world ops) i e" using input_iterator.at_more [OF i h] by (simp add: snd_world_def)
  show "\<exists>i'. it_deref (snd_world ops) i = Inr (v, i') \<and> seq i' (snd w) e (v # vs)"
    using input_iterator.deref [OF i h] by (simp add: snd_world_def)
  show "\<exists>i' w'. it_incr (snd_world ops) i w = Inr (i', w') \<and> seq i' (snd w') e vs"
    using input_iterator.incr [OF i h] by (cases w) (auto simp: snd_world_def)
qed

lemma two_worlds:
  fixes ops1 :: "('i, 'v, 'w) iter_ops" and ops2 :: "('j, 'u, 'x) iter_ops"
  assumes i: "input_iterator ops1 seq1" "input_iterator ops2 seq2"
    and refl: "\<And>i. it_eq ops1 i i" "\<And>j. it_eq ops2 j j"
  shows "zippable (either_ops (fst_world ops1) (snd_world ops2))
    (either_seq (\<lambda>i w. seq1 i (fst w)) (\<lambda>j w. seq2 j (snd w))) (\<lambda>a b. isl a \<noteq> isl b)"
proof -
  let ?ops = "either_ops (fst_world ops1) (snd_world ops2) :: ('i + 'j, 'v + 'u, 'w \<times> 'x) iter_ops"
  let ?seq = "either_seq (\<lambda>i (w :: 'w \<times> 'x). seq1 i (fst w)) (\<lambda>j w. seq2 j (snd w))"
  have refl: "it_eq ?ops a a" for a
    using refl by (auto simp: either_ops_def fst_world_def snd_world_def split: sum.splits)
  have deref: "it_deref ?ops a = Inr (v, a') \<Longrightarrow> isl a' = isl a" for a a' v
    by (cases a) (auto simp: either_ops_def rbind_Inr_iff)
  have incr: "it_incr ?ops a w = Inr (a', w') \<Longrightarrow>
      isl a' = isl a \<and> (if isl a then snd w' = snd w else fst w' = fst w)" for a a' w w'
    by (cases a; cases w) (auto simp: either_ops_def fst_world_def snd_world_def rbind_Inr_iff)
  have frame: "?seq b w' e vs" if "isl a \<noteq> isl b" "it_incr ?ops a w = Inr (a', w')" "?seq b w e vs" for a a' b w w' e vs
    using incr [OF that(2)] that(1,3) by (auto simp: either_seq_def)
  have axioms: "zippable_axioms ?ops ?seq (\<lambda>a b. isl a \<noteq> isl b)"
  proof
    fix a a' b e :: "'i + 'j" and v w w' vs
    show "it_eq ?ops a a" by (rule refl)
    show "isl a \<noteq> isl b \<Longrightarrow> isl b \<noteq> isl a" by simp
    show "isl a \<noteq> isl b \<Longrightarrow> it_deref ?ops a = Inr (v, a') \<Longrightarrow> isl a' \<noteq> isl b" using deref by simp
    show "isl a \<noteq> isl b \<Longrightarrow> it_incr ?ops a w = Inr (a', w') \<Longrightarrow> isl a' \<noteq> isl b" using incr by simp
    show "isl a \<noteq> isl b \<Longrightarrow> it_incr ?ops a w = Inr (a', w') \<Longrightarrow> ?seq b w e vs \<Longrightarrow> ?seq b w' e vs" by (rule frame)
  qed
  show ?thesis
    unfolding zippable_def
    by (rule conjI [OF either_input [OF fst_world_iterator [OF i(1)] snd_world_iterator [OF i(2)]] axioms])
qed

lemma zip_lists_two: "zip_lists [as, bs] = map2 (\<lambda>a b. [a, b]) as bs"
proof (induction as arbitrary: bs)
  case (Cons a as)
  then show ?case by (cases bs) simp_all
qed simp

text \<open>\<^verbatim>\<open>zip\<close> of two ranges of different types.\<close>

definition zip_two ::
  "('i \<Rightarrow> 'i \<Rightarrow> bool) \<Rightarrow> ('j \<Rightarrow> 'j \<Rightarrow> bool) \<Rightarrow> 'i range \<Rightarrow> 'j range \<Rightarrow> ('i + 'j) zip_iterator range" where
  "zip_two eq1 eq2 r1 r2 =
     zip_range (\<lambda>s t. case (s, t) of (Inl i, Inl i') \<Rightarrow> eq1 i i' | (Inr j, Inr j') \<Rightarrow> eq2 j j' | _ \<Rightarrow> False)
       [make_range (Inl (rg_begin r1)) (Inl (rg_end r1)), make_range (Inr (rg_begin r2)) (Inr (rg_end r2))]"

definition two_world_ops ::
  "('i, 'v, 'w) iter_ops \<Rightarrow> ('j, 'u, 'x) iter_ops \<Rightarrow> (('i + 'j) zip_iterator, ('v + 'u) list, 'w \<times> 'x) iter_ops" where
  "two_world_ops ops1 ops2 = zip_ops (either_ops (fst_world ops1) (snd_world ops2))"

definition two_world_seq ::
  "('i \<Rightarrow> 'w \<Rightarrow> 'i \<Rightarrow> 'v list \<Rightarrow> bool) \<Rightarrow> ('j \<Rightarrow> 'x \<Rightarrow> 'j \<Rightarrow> 'u list \<Rightarrow> bool) \<Rightarrow>
   ('i + 'j) zip_iterator \<Rightarrow> 'w \<times> 'x \<Rightarrow> ('i + 'j) zip_iterator \<Rightarrow> ('v + 'u) list list \<Rightarrow> bool" where
  "two_world_seq seq1 seq2 =
     zip_seq (\<lambda>a b. isl a \<noteq> isl b) (either_seq (\<lambda>i w. seq1 i (fst w)) (\<lambda>j w. seq2 j (snd w)))"

lemma zip_two_worlds:
  assumes i: "input_iterator ops1 seq1" "input_iterator ops2 seq2"
    and refl: "\<And>i. it_eq ops1 i i" "\<And>j. it_eq ops2 j j"
  shows "input_iterator (two_world_ops ops1 ops2) (two_world_seq seq1 seq2)"
    and "seq1 (rg_begin r1) (fst w) (rg_end r1) us \<Longrightarrow> seq2 (rg_begin r2) (snd w) (rg_end r2) vs \<Longrightarrow>
      two_world_seq seq1 seq2 (rg_begin (zip_two (it_eq ops1) (it_eq ops2) r1 r2)) w
        (rg_end (zip_two (it_eq ops1) (it_eq ops2) r1 r2)) (map2 (\<lambda>u v. [Inl u, Inr v]) us vs)"
proof -
  note z = two_worlds [OF i refl]
  show "input_iterator (two_world_ops ops1 ops2) (two_world_seq seq1 seq2)"
    unfolding two_world_ops_def two_world_seq_def by (rule zippable.zip_iterator_seq [OF z])
  let ?ops = "either_ops (fst_world ops1) (snd_world ops2)"
  have eq: "(\<lambda>s t. case (s, t) of (Inl i, Inl i') \<Rightarrow> it_eq ops1 i i' | (Inr j, Inr j') \<Rightarrow> it_eq ops2 j j' | _ \<Rightarrow> False)
      = it_eq ?ops"
    by (simp add: either_ops_def fst_world_def snd_world_def fun_eq_iff split: sum.splits)
  assume h: "seq1 (rg_begin r1) (fst w) (rg_end r1) us" "seq2 (rg_begin r2) (snd w) (rg_end r2) vs"
  let ?es = "[Inl (rg_end r1), Inr (rg_end r2)]"
  have e: "z_begins (make_zip_iterator (it_eq ?ops) ?es ?es) = ?es" by (simp add: make_zip_iterator_def check_end_def)
  have "two_world_seq seq1 seq2 (make_zip_iterator (it_eq ?ops) [Inl (rg_begin r1), Inr (rg_begin r2)] ?es) w
      (make_zip_iterator (it_eq ?ops) ?es ?es) (zip_lists [map Inl us, map Inr vs])"
    unfolding two_world_seq_def make_zip_iterator_def [of _ "[Inl (rg_begin r1), Inr (rg_begin r2)]"]
    by (rule zippable.check_end_seq [OF z]) (use h e in \<open>auto simp: either_seq_def\<close>)
  then show "two_world_seq seq1 seq2 (rg_begin (zip_two (it_eq ops1) (it_eq ops2) r1 r2)) w
        (rg_end (zip_two (it_eq ops1) (it_eq ops2) r1 r2)) (map2 (\<lambda>u v. [Inl u, Inr v]) us vs)"
    unfolding zip_two_def eq
    by (simp add: zip_range_def make_range_def zip_lists_two zip_map_map split_def comp_def)
qed

lemma integral_all:
  assumes "n < 2 ^ 64"
  shows "\<exists>m. n \<le> m \<and> integral_seq 0 w (- 1 :: 64 word) (map word_of_nat [0..<m])"
proof (intro exI conjI)
  have "unat (- 1 :: 64 word) = 2 ^ 64 - 1" by (simp add: unsigned_minus_1_eq_mask mask_eq_exp_minus_1)
  then show "n \<le> unat (- 1 :: 64 word)" using assms by simp
  show "integral_seq 0 w (- 1 :: 64 word) (map word_of_nat [0..<unat (- 1 :: 64 word)])"
    unfolding integral_seq_def unsigned_0 by (rule conjI [OF word_zero_le refl])
qed

lemma zip_lists_tagged: "zip_lists [map Inl vs, map Inr ns] = map (\<lambda>(v, n). [Inl v, Inr n]) (zip vs ns)"
  by (simp add: zip_lists_two zip_map_map split_def comp_def)

lemma zip_short: "length xs \<le> n \<Longrightarrow> zip xs (map f [0..<n]) = zip xs (map f [0..<length xs])"
  by (rule nth_equalityI) simp_all

context pure_iterator begin

lemma map_indexed_elems:
  assumes "seq (rg_begin r) w (rg_end r) vs" and "length vs < 2 ^ 64" and "length vs < k"
    and f: "\<And>v n. f v n = Inr (g v n)"
  shows "\<exists>w'. range_elems k (map_indexed_ops ops f) (map_indexed ops r) w =
    Inr (map2 g vs (map word_of_nat [0..<length vs]), w')"
proof -
  let ?ops = "either_ops ops (integral_ops :: (64 word, 64 word, 'w) iter_ops)"
  let ?seq = "either_seq seq integral_seq :: 'i + 64 word \<Rightarrow> 'w \<Rightarrow> 'i + 64 word \<Rightarrow> ('v + 64 word) list \<Rightarrow> bool"
  obtain m where m: "length vs \<le> m" "integral_seq 0 w (- 1 :: 64 word) (map word_of_nat [0..<m])"
    using integral_all [OF assms(2), of w] by (elim exE conjE)
  let ?idx = "map word_of_nat [0..<m] :: 64 word list"
  have e: "pure_iterator ?ops ?seq"
    by (rule either_iterators [OF pure_iterator_axioms]) unfold_locales
  have z: "input_iterator (zip_ops ?ops) (zip_seq (\<lambda>i j. True) ?seq)" by (rule zippable.zip_iterator_seq [OF pure_iterator.pure_zippable [OF e]])
  have mi: "input_iterator (map_indexed_ops ops f) (mapping_seq (zip_seq (\<lambda>i j. True) ?seq) (spread (apply_indexed f)))"
    unfolding map_indexed_ops_def by (rule input_iterator.mapping_iterator_seq [OF z])
  let ?es = "[Inl (rg_end r), Inr (- 1)] :: ('i + 64 word) list"
  let ?z = "make_zip_iterator (it_eq ?ops) [Inl (rg_begin r), Inr 0] ?es"
  let ?e = "make_zip_iterator (it_eq ?ops) ?es ?es"
  have e_begins: "z_begins ?e = ?es" by (simp add: make_zip_iterator_def check_end_def)
  have seqs: "?seq (Inl (rg_begin r)) w (Inl (rg_end r)) (map Inl vs)" "?seq (Inr 0) w (Inr (- 1)) (map Inr ?idx)"
    unfolding either_seq_def using assms(1) m(2) by blast+
  have "zip_seq (\<lambda>i j. True) ?seq ?z w ?e (zip_lists [map Inl vs, map Inr ?idx])"
    unfolding make_zip_iterator_def
    by (rule zippable.check_end_seq [OF pure_iterator.pure_zippable [OF e]]) (use seqs e_begins in \<open>simp_all add: make_zip_iterator_def\<close>)
  moreover have "zip_lists [map Inl vs, map Inr ?idx] =
      map (\<lambda>(v, n). [Inl v, Inr n]) (zip vs (map word_of_nat [0..<length vs]))"
    by (simp only: zip_lists_tagged zip_short [OF m(1)])
  ultimately have zs: "zip_seq (\<lambda>i j. True) ?seq ?z w ?e (map (\<lambda>(v, n). [Inl v, Inr n]) (zip vs (map word_of_nat [0..<length vs])))"
    by simp
  have "mapping_seq (zip_seq (\<lambda>i j. True) ?seq) (spread (apply_indexed f)) (rg_begin (map_indexed ops r)) w
      (rg_end (map_indexed ops r)) (map2 g vs (map word_of_nat [0..<length vs]))"
    unfolding mapping_seq_def
    by (intro exI conjI disjI1)
      (use zs f in \<open>auto simp: map_indexed_def map_range_def zip_range_def make_range_def
         make_mapping_iterator_def spread_def spread_call_eq\<close>)
  then show ?thesis unfolding range_elems_def
    by (rule input_iterator.collect_all [OF mi]) (use assms(3) in simp)
qed

end

section \<open>Reductions\<close>

lemma accumulate_integral_world:
  "accumulate k integral_ops f acc (i :: 'a::len word) e w = Inr (r, w') \<Longrightarrow> w' = w"
proof (induction k arbitrary: acc i)
  case (Suc k)
  then show ?case by (cases "i = e") (simp_all add: integral_ops_def)
qed simp

text \<open>\<^verbatim>\<open>*first\<close> of an integral iterator is its own member, which \<^verbatim>\<open>++first\<close> increments.\<close>

definition integral_own :: "'a::len word \<Rightarrow> 'a word result" where
  "integral_own i = Inr i"

lemma reduce_integral_range:
  assumes "a < e" and "unat e - unat a \<le> k"
  shows "reduce k (\<lambda>_. integral_ops) (Inside integral_own) f (make_range a e) c w =
    Inr ((foldl f (a + 1) (map word_of_nat [Suc (unat a)..<unat e]), c), w)"
proof -
  have lt: "unat a < unat e" using assms(1) by (simp add: word_less_nat_alt)
  then have upt: "[unat a..<unat e] = unat a # [Suc (unat a)..<unat e]" by (rule upt_conv_Cons)
  have seq: "integral_seq a w e (a # map word_of_nat [Suc (unat a)..<unat e])"
    unfolding integral_seq_def upt using assms(1) by simp
  have "integral_seq (a + 1) w e (map word_of_nat [Suc (unat a)..<unat e])"
    by (rule integral_seq_Cons(3) [OF seq])
  then obtain w' where acc: "accumulate k integral_ops f (a + 1) (a + 1) e w =
      Inr (foldl f (a + 1) (map word_of_nat [Suc (unat a)..<unat e]), w')"
    using integral.accumulate_foldl [of "a + 1" w e _ k f "a + 1"] assms(2) lt by fastforce
  moreover have "w' = w" by (rule accumulate_integral_world [OF acc])
  ultimately show ?thesis
    using assms(1) by (simp add: reduce_def make_range_def integral_ops_def integral_own_def)
qed

text \<open>\<^verbatim>\<open>*first\<close> of a mapping iterator is the value it stores, which \<^verbatim>\<open>++first\<close> destroys.\<close>

definition mapping_own :: "('i, 'b) mapping_iterator \<Rightarrow> 'b result" where
  "mapping_own m = opt_value (mi_value m)"

lemma reduce_mapped_range:
  assumes "xs \<noteq> []" and "\<And>x. f x = Inr (g x)"
  shows "reduce k (\<lambda>xs. mapping_ops s (vec_ops xs) f) (Inside mapping_own) h (map_range (make_range 0 (length xs))) xs w =
    Inl (Undefined ReadIndeterminate)"
  using assms
  by (cases xs; cases s) (simp_all add: reduce_def map_range_def make_range_def make_mapping_iterator_def mapping_ops_def
    vec_ops_def mapping_incr_def mapping_deref_def opt_empty_def opt_emplace_def opt_assign_null_def opt_construct_def
    opt_value_def opt_destruct_def mapping_own_def)

text \<open>A move out of the first element leaves the elements the fold goes on to read.\<close>

lemma vec_seq_tl: "vec_seq (u # xs) (Suc 0) w (Suc (length xs)) xs"
proof -
  have "map (\<lambda>j. (u # xs) ! j) [Suc 0..<Suc (length xs)] = map (\<lambda>j. xs ! j) [0..<length xs]"
    by (simp only: map_Suc_upt [symmetric] map_map) simp
  then show ?thesis by (simp add: vec_seq_def map_nth)
qed

lemma reduce_element:
  assumes "mv 0 (x # xs) = u # xs"
  shows "reduce (Suc (length (x # xs))) vec_ops (Element mv) f (make_range 0 (length (x # xs))) (x # xs) () =
    Inr ((foldl f x xs, u # xs), ())"
proof -
  let ?k = "Suc (length (x # xs))" and ?ops = "\<lambda>ys. vec_ops ys :: (nat, 'a, unit) iter_ops"
  have "vec_seq (u # xs) (Suc 0) () (Suc (length xs)) xs"
    by (rule vec_seq_tl)
  then have "\<exists>w'. accumulate ?k (?ops (u # xs)) f x (Suc 0) (Suc (length xs)) () = Inr (foldl f x xs, w')"
    by (rule vec.accumulate_foldl) simp
  then have acc: "accumulate ?k (?ops (u # xs)) f x (Suc 0) (Suc (length xs)) () = Inr (foldl f x xs, ())"
    by simp
  have "it_eq (?ops (x # xs)) 0 (Suc (length xs)) = False" "it_deref (?ops (x # xs)) 0 = Inr (x, 0)"
      "it_incr (?ops (x # xs)) 0 () = Inr (Suc 0, ())"
    by (simp_all add: vec_ops_def)
  then show ?thesis using assms acc by (simp add: reduce_def make_range_def del: accumulate.simps)
qed

lemma reduce_no_element: "reduce k vec_ops home f (make_range 0 0) xs w = Inl OutOfRange"
  by (simp add: reduce_def make_range_def vec_ops_def)

section \<open>Ranges of several containers\<close>

text \<open>An iterator that knows its container, so that ranges of different containers can be zipped.\<close>

definition cursor_ops :: "('v list \<times> nat, 'v, 'w) iter_ops" where
  "cursor_ops =
     \<lparr>it_deref = (\<lambda>(xs, i). if i < length xs then Inr (xs ! i, (xs, i)) else Inl (Undefined OutOfBounds)),
      it_incr = (\<lambda>(xs, i) w. Inr ((xs, Suc i), w)), it_eq = (=)\<rparr>"

definition cursor_random_access :: "('v list \<times> nat) random_access" where
  "cursor_random_access =
     \<lparr>ra_decr = (\<lambda>(xs, i). (xs, i - 1)), ra_plus = (\<lambda>(xs, i) n. (xs, nat (int i + n))),
      ra_minus = (\<lambda>(xs, i) n. (xs, nat (int i - n))),
      ra_diff = (\<lambda>(xs, i) (ys, j). int i - int j), ra_less = (\<lambda>(xs, i) (ys, j). i < j)\<rparr>"

definition cursor_seq :: "'v list \<times> nat \<Rightarrow> 'w \<Rightarrow> 'v list \<times> nat \<Rightarrow> 'v list \<Rightarrow> bool" where
  "cursor_seq c w e vs \<longleftrightarrow> fst c = fst e \<and> vec_seq (fst c) (snd c) w (snd e) vs"

definition container_range :: "'v list \<Rightarrow> ('v list \<times> nat) range" where
  "container_range xs = make_range (xs, 0) (xs, length xs)"

interpretation cursor: pure_iterator "cursor_ops :: ('v list \<times> nat, 'v, 'w) iter_ops" cursor_seq
proof unfold_locales
  fix c e :: "'v list \<times> nat" and w w' :: 'w and v vs
  show "cursor_seq c w e [] \<Longrightarrow> it_eq cursor_ops c e"
    by (cases c; cases e) (auto simp: cursor_seq_def cursor_ops_def vec_seq_def)
  show "cursor_seq c w e vs \<Longrightarrow> cursor_seq c w' e vs" by (auto simp: cursor_seq_def vec_seq_def)
  show "it_eq cursor_ops c c" by (simp add: cursor_ops_def)
  assume "cursor_seq c w e (v # vs)"
  then obtain xs i j where ce: "c = (xs, i)" "e = (xs, j)" and s: "vec_seq xs i w j (v # vs)"
    by (cases c; cases e) (auto simp: cursor_seq_def)
  note c = vec_seq_Cons [OF s]
  show "\<not> it_eq cursor_ops c e" using c(1) by (simp add: ce cursor_ops_def)
  show "\<exists>c'. it_deref cursor_ops c = Inr (v, c') \<and> cursor_seq c' w e (v # vs)"
    using c s by (simp add: ce cursor_ops_def cursor_seq_def)
  show "\<exists>c' w'. it_incr cursor_ops c w = Inr (c', w') \<and> cursor_seq c' w' e vs"
    using c(4) by (simp add: ce cursor_ops_def cursor_seq_def)
qed

lemma cursor_seq_all: "cursor_seq (rg_begin (container_range xs)) w (rg_end (container_range xs)) xs"
  by (simp add: cursor_seq_def container_range_def make_range_def vec_seq_all)

lemma zip_lists_transpose:
  "uss \<noteq> [] \<Longrightarrow> zip_lists uss = map (\<lambda>i. map (\<lambda>us. us ! i) uss) [0..<Min (length ` set uss)]"
proof (induction uss rule: zip_lists.induct)
  case (2 uss)
  then show ?case by (simp add: Min_eq_iff [THEN iffD2, of _ 0])
next
  case (3 u us uss)
  show ?case
  proof (cases "list_all (\<lambda>us. us \<noteq> []) uss")
    case True
    then have ne: "\<And>x. x \<in> set uss \<Longrightarrow> x \<noteq> []" by (simp add: list_all_iff)
    let ?m = "Min (length ` set (us # map tl uss))"
    have "Suc ` (length ` set (us # map tl uss)) = length ` set ((u # us) # uss)"
      using ne by (force simp: image_image image_iff)
    then have m: "Min (length ` set ((u # us) # uss)) = Suc ?m"
      using mono_Min_commute [of Suc "length ` set (us # map tl uss)"] by (simp add: mono_def)
    have "map (\<lambda>i. map (\<lambda>us. us ! i) ((u # us) # uss)) [0..<Suc ?m] =
        (u # map hd uss) # map (\<lambda>i. map (\<lambda>us. us ! i) (us # map tl uss)) [0..<?m]"
      using ne by (simp add: upt_conv_Cons map_Suc_upt [symmetric] comp_def hd_conv_nth nth_tl del: upt_Suc)
    then show ?thesis using 3 True m by simp
  next
    case False
    then have "[] \<in> set uss" by (auto simp: list_all_iff)
    then have "Min (length ` set ((u # us) # uss)) = 0" by (intro Min_eqI) force+
    then show ?thesis using False by simp
  qed
qed simp

lemma zip_containers:
  assumes "xss \<noteq> []" and "\<And>xs. xs \<in> set xss \<Longrightarrow> length xs < k"
  shows "\<exists>w'. range_elems k (zip_ops cursor_ops) (zip_range (it_eq (cursor_ops :: (_, _, 'w) iter_ops))
    (map container_range xss)) (w :: 'w) =
    Inr (map (\<lambda>i. map (\<lambda>xs. xs ! i) xss) [0..<Min (length ` set xss)], w')"
proof -
  let ?ops = "cursor_ops :: ('v list \<times> nat, 'v, 'w) iter_ops"
  let ?bs = "map (\<lambda>xs. rg_begin (container_range xs)) xss" and ?es = "map (\<lambda>xs. rg_end (container_range xs)) xss"
  let ?e = "make_zip_iterator (it_eq ?ops) ?es ?es"
  have e: "z_begins ?e = ?es" by (simp add: make_zip_iterator_def check_end_def)
  have "list_all2 (\<lambda>(i, e) us. cursor_seq i w e us) (zip ?bs ?es) xss"
    by (simp add: list_all2_conv_all_nth cursor_seq_all)
  then have "zip_seq (\<lambda>i j. True) cursor_seq (make_zip_iterator (it_eq ?ops) ?bs ?es) w ?e (zip_lists xss)"
    unfolding make_zip_iterator_def [of _ ?bs] by (intro cursor.check_end_seq) (use assms(1) e in simp_all)
  moreover have "length (zip_lists xss) < k"
    using assms zip_lists_transpose [OF assms(1)] by (cases xss) (auto simp: Min_less_iff)
  ultimately have "\<exists>w'. it_collect k (zip_ops ?ops) (make_zip_iterator (it_eq ?ops) ?bs ?es) ?e w = Inr (zip_lists xss, w')"
    by (rule input_iterator.collect_all [OF cursor.zip_iterator_seq])
  then show ?thesis
    unfolding zip_lists_transpose [OF assms(1)] by (simp add: range_elems_def zip_range_def make_range_def comp_def)
qed

end
