(* ===== verification/Writers.thy ===== *)
theory Writers
  imports RangeFacts
begin

text \<open>
  The output iterators of \<^verbatim>\<open>utils/iter-util.hh\<close> against one contract: a sink holds what has
  been written, and writing a value appends what the adaptor makes of it. The adaptors keep
  the contract, so chains of them do; \<^verbatim>\<open>std::back_insert_iterator\<close> provides it. For the multiplexer,
  also what becomes of an rvalue on its way from one destination to the next.
\<close>

locale sink =
  fixes ops :: "('o, 'v) out_ops" and ok :: "nat \<Rightarrow> 'o \<Rightarrow> bool" and written :: "'o \<Rightarrow> 'u list"
    and able :: "'v \<Rightarrow> bool" and put :: "'v \<Rightarrow> 'u list"
  assumes writes: "ok (Suc n) out \<Longrightarrow> able v \<Longrightarrow> \<exists>o1 o2. oi_assign ops v out = Inr o1 \<and> oi_incr ops o1 = Inr o2 \<and>
      ok n o2 \<and> written o2 = written out @ put v"
    and room: "ok (Suc n) out \<Longrightarrow> ok n out"

text \<open>The state of the adaptors, as sinks.\<close>

definition transforming_sink_ok ::
  "(nat \<Rightarrow> 'o \<Rightarrow> bool) \<Rightarrow> ('a \<Rightarrow> 'b) \<Rightarrow> nat \<Rightarrow> ('a \<Rightarrow> 'b, 'o) transforming_output \<Rightarrow> bool" where
  "transforming_sink_ok ok g n t \<longleftrightarrow> to_fn t = g \<and> ok n (to_iter t)"

definition filtering_sink_ok ::
  "(nat \<Rightarrow> 'o \<Rightarrow> bool) \<Rightarrow> ('a \<Rightarrow> bool) \<Rightarrow> nat \<Rightarrow> ('a \<Rightarrow> bool, 'o) filtering_output \<Rightarrow> bool" where
  "filtering_sink_ok ok p n t \<longleftrightarrow> fo_pred t = p \<and> ok n (fo_iter t)"

context sink begin

lemma out_copy_written:
  "ok (length vs + n) out \<Longrightarrow> list_all able vs \<Longrightarrow>
   \<exists>out'. out_copy ops vs out = Inr out' \<and> ok n out' \<and> written out' = written out @ concat (map put vs)"
proof (induction vs arbitrary: out)
  case (Cons v vs)
  obtain o1 o2 where o: "oi_assign ops v out = Inr o1" "oi_incr ops o1 = Inr o2" "ok (length vs + n) o2"
      "written o2 = written out @ put v"
    using writes [of "length vs + n" out v] Cons.prems by auto
  show ?case using Cons.IH [OF o(3)] Cons.prems(2) o by auto
qed simp

text \<open>\<^verbatim>\<open>copy\<close> from a range to a sink.\<close>

lemma range_copy_written:
  assumes "input_iterator iops seq"
  shows "seq i w e vs \<Longrightarrow> length vs < k \<Longrightarrow> ok (length vs + n) out \<Longrightarrow> list_all able vs \<Longrightarrow>
    \<exists>out' w'. copy_loop k iops ops i e w out = Inr (out', w') \<and> ok n out' \<and>
      written out' = written out @ concat (map put vs)"
proof (induction vs arbitrary: i w k out)
  case Nil
  then show ?case using input_iterator.at_end [OF assms Nil(1)] by (cases k) auto
next
  case (Cons v vs)
  then obtain k' where k: "k = Suc k'" by (cases k) auto
  obtain i1 where i1: "it_deref iops i = Inr (v, i1)" "seq i1 w e (v # vs)"
    using input_iterator.deref [OF assms Cons.prems(1)] by blast
  obtain i2 w2 where i2: "it_incr iops i1 w = Inr (i2, w2)" "seq i2 w2 e vs"
    using input_iterator.incr [OF assms i1(2)] by blast
  obtain o1 o2 where o: "oi_assign ops v out = Inr o1" "oi_incr ops o1 = Inr o2" "ok (length vs + n) o2"
      "written o2 = written out @ put v"
    using writes [of "length vs + n" out v] Cons.prems by auto
  have "length vs < k'" "list_all able vs" using Cons.prems k by auto
  from Cons.IH [OF i2(2) this(1) o(3) this(2)] show ?case
    using i1(1) i2(1) o(1,2,4) input_iterator.at_more [OF assms Cons.prems(1)] k by auto
qed

lemma transforming_sink:
  "sink (transforming_ops ops) (transforming_sink_ok ok g) (\<lambda>t. written (to_iter t)) (\<lambda>v. able (g v)) (\<lambda>v. put (g v))"
proof unfold_locales
  fix out v n
  show "transforming_sink_ok ok g (Suc n) out \<Longrightarrow> transforming_sink_ok ok g n out"
    by (simp add: transforming_sink_ok_def room)
  assume h: "transforming_sink_ok ok g (Suc n) out" "able (g v)"
  then have "ok (Suc n) (to_iter out)" by (simp add: transforming_sink_ok_def)
  from writes [OF this h(2)] obtain o1 o2 where
    "oi_assign ops (g v) (to_iter out) = Inr o1" "oi_incr ops o1 = Inr o2" "ok n o2"
    "written o2 = written (to_iter out) @ put (g v)" by blast
  then show "\<exists>o1 o2. oi_assign (transforming_ops ops) v out = Inr o1 \<and>
      oi_incr (transforming_ops ops) o1 = Inr o2 \<and> transforming_sink_ok ok g n o2 \<and>
      written (to_iter o2) = written (to_iter out) @ put (g v)"
    using h by (auto simp: transforming_ops_def transforming_sink_ok_def mixin_deref_def)
qed

lemma filtering_sink:
  "sink (filtering_output_ops ops) (filtering_sink_ok ok p) (\<lambda>t. written (fo_iter t)) (\<lambda>v. p v \<longrightarrow> able v)
     (\<lambda>v. if p v then put v else [])"
proof unfold_locales
  fix out v n
  show "filtering_sink_ok ok p (Suc n) out \<Longrightarrow> filtering_sink_ok ok p n out"
    by (simp add: filtering_sink_ok_def room)
  assume h: "filtering_sink_ok ok p (Suc n) out" "p v \<longrightarrow> able v"
  show "\<exists>o1 o2. oi_assign (filtering_output_ops ops) v out = Inr o1 \<and>
      oi_incr (filtering_output_ops ops) o1 = Inr o2 \<and> filtering_sink_ok ok p n o2 \<and>
      written (fo_iter o2) = written (fo_iter out) @ (if p v then put v else [])"
  proof (cases "p v")
    case True
    then have "ok (Suc n) (fo_iter out)" "able v" using h by (auto simp: filtering_sink_ok_def)
    from writes [OF this] obtain o1 o2 where
      "oi_assign ops v (fo_iter out) = Inr o1" "oi_incr ops o1 = Inr o2" "ok n o2"
      "written o2 = written (fo_iter out) @ put v" by blast
    then show ?thesis using h True by (auto simp: filtering_output_ops_def filtering_sink_ok_def mixin_incr_def)
  next
    case False
    then show ?thesis using h by (auto simp: filtering_output_ops_def filtering_sink_ok_def mixin_incr_def room)
  qed
qed

text \<open>A multiplexer that is given an lvalue writes it to every destination.\<close>

lemma multiplex_lvalue:
  "list_all (ok (Suc m)) outs \<Longrightarrow> n = length outs \<Longrightarrow> able v \<Longrightarrow>
   \<exists>o1 o2. write_to_iter_tuple (replicate n (assign_lvalue ops)) v outs = Inr (o1, v) \<and>
     increment_iter_tuple (replicate n ops) o1 = Inr o2 \<and> list_all (ok m) o2 \<and>
     map written o2 = map (\<lambda>out. written out @ put v) outs"
proof (induction outs arbitrary: n)
  case (Cons out outs)
  then obtain k where n: "n = Suc k" "k = length outs" by simp
  obtain o1 o2 where o: "oi_assign ops v out = Inr o1" "oi_incr ops o1 = Inr o2" "ok m o2"
      "written o2 = written out @ put v"
    using writes [of m out v] Cons.prems by auto
  obtain p1 p2 where p: "write_to_iter_tuple (replicate k (assign_lvalue ops)) v outs = Inr (p1, v)"
      "increment_iter_tuple (replicate k ops) p1 = Inr p2" "list_all (ok m) p2"
      "map written p2 = map (\<lambda>out. written out @ put v) outs"
    using Cons.IH [of k] Cons.prems n by auto
  have "assign_lvalue ops v out = Inr (o1, v)" using o(1) by (simp add: assign_lvalue_def)
  then show ?case using o p n by simp
qed simp

end

section \<open>std::back_insert_iterator\<close>

text \<open>Assignment is \<^verbatim>\<open>push_back\<close> on the container.\<close>

definition push_back :: "'v \<Rightarrow> 'v list \<Rightarrow> 'v list result" where
  "push_back v xs = Inr (xs @ [v])"

definition back_ops :: "('v list, 'v) out_ops" where
  "back_ops = \<lparr>oi_assign = push_back, oi_incr = mixin_incr\<rparr>"

interpretation back_inserter: sink back_ops "\<lambda>n xs. True" "\<lambda>xs. xs" "\<lambda>v. True" "\<lambda>v. [v]"
  by unfold_locales (simp_all add: back_ops_def push_back_def mixin_incr_def)

text \<open>
  An rvalue is moved into the container, by \<^verbatim>\<open>push_back(T&&)\<close>; \<open>moved\<close> is what the move constructor
  of the type leaves of its source.
\<close>

definition back_insert_move :: "('v \<Rightarrow> 'v) \<Rightarrow> ('v list, 'v) assignment" where
  "back_insert_move moved v xs = rbind (push_back v xs) (\<lambda>xs'. Inr (xs', moved v))"

lemma multiplex_back_move:
  "n = length outs \<Longrightarrow> multiplex_move (replicate n (back_insert_move moved)) v outs =
     Inr (map2 (\<lambda>out i. out @ [(moved ^^ i) v]) outs [0..<n], (moved ^^ n) v)"
  unfolding multiplex_move_def
proof (induction outs arbitrary: v n)
  case (Cons out outs)
  then obtain k where n: "n = Suc k" "k = length outs" by simp
  have "[0..<n] = 0 # map Suc [0..<k]" unfolding n(1) map_Suc_upt by (rule upt_conv_Cons) simp
  then show ?case using Cons.IH [of k "moved v"] n
    by (simp add: back_insert_move_def push_back_def funpow_swap1 zip_map2 comp_def split_def)
qed simp

text \<open>A filtering writer that does not take a value leaves it to the ones after it.\<close>

definition passed_on :: "('v \<Rightarrow> 'v) \<Rightarrow> ('v \<Rightarrow> bool) list \<Rightarrow> 'v \<Rightarrow> 'v" where
  "passed_on moved ps v = fold (\<lambda>p u. if p u then moved u else u) ps v"

fun filtered_outs :: "('v \<Rightarrow> 'v) \<Rightarrow> ('v \<Rightarrow> bool) list \<Rightarrow> 'v \<Rightarrow> 'v list list \<Rightarrow> 'v list list" where
  "filtered_outs moved (p # ps) v (out # outs) =
     (if p v then (out @ [v]) # filtered_outs moved ps (moved v) outs else out # filtered_outs moved ps v outs)"
| "filtered_outs moved _ v _ = []"

lemma filtered_outs_nth:
  "length ps = length outs \<Longrightarrow> filtered_outs moved ps v outs =
     map (\<lambda>i. let u = passed_on moved (take i ps) v in outs ! i @ (if (ps ! i) u then [u] else [])) [0..<length outs]"
proof (induction moved ps v outs rule: filtered_outs.induct)
  case (1 moved p ps v out outs)
  have upt: "[0..<length (out # outs)] = 0 # map Suc [0..<length outs]"
    unfolding map_Suc_upt length_Cons by (rule upt_conv_Cons) simp
  show ?case using 1 unfolding upt by (simp add: passed_on_def Let_def)
qed simp_all

lemma multiplex_filtering_move:
  assumes "length ps = length outs"
  shows "multiplex_move (replicate (length outs) (filtering_move (back_insert_move moved) mixin_incr)) v
      (map2 filtering_writer ps outs) =
    Inr (map2 filtering_writer ps (filtered_outs moved ps v outs), passed_on moved ps v)"
  using assms unfolding multiplex_move_def
  by (induction moved ps v outs rule: filtered_outs.induct)
    (simp_all add: filtering_move_def filtering_writer_def back_insert_move_def push_back_def mixin_incr_def passed_on_def)

lemma multiplex_filtering_lvalue:
  "length ps = length outs \<Longrightarrow>
   oi_assign (multiplex_ops (replicate (length outs) (filtering_output_ops back_ops))) v (map2 filtering_writer ps outs) =
     Inr (map2 filtering_writer ps (map2 (\<lambda>p out. if p v then out @ [v] else out) ps outs))"
proof -
  have "length ps = length outs \<Longrightarrow>
    write_to_iter_tuple (replicate (length outs) (assign_lvalue (filtering_output_ops back_ops))) v (map2 filtering_writer ps outs) =
      Inr (map2 filtering_writer ps (map2 (\<lambda>p out. if p v then out @ [v] else out) ps outs), v)"
    by (induction ps outs rule: list_induct2)
      (simp_all add: assign_lvalue_def filtering_output_ops_def filtering_writer_def back_ops_def push_back_def mixin_incr_def)
  then show "length ps = length outs \<Longrightarrow> ?thesis" by (simp add: multiplex_ops_def)
qed

text \<open>\<^verbatim>\<open>variadic_insert_iterator\<close> over a container whose \<^verbatim>\<open>insert\<close> appends.\<close>

interpretation variadic_inserter: sink "variadic_insert_ops push_back" "\<lambda>n xs. True" "\<lambda>xs. xs" "\<lambda>v. True" "\<lambda>v. [v]"
  by unfold_locales (simp_all add: variadic_insert_ops_def push_back_def mixin_incr_def)

section \<open>spread_writer\<close>

lemma index_sequence: "make_index_sequence n = [0..<n]"
  by (simp add: make_index_sequence_def make_integer_sequence_eq)

lemma spread_writes:
  "write_to_iter_tuple (map assign_lvalue (map transforming_ops (replicate (length is) back_ops))) vs
     (map (\<lambda>i. transformed_writer (F i) (outs ! i)) is) =
   Inr (map (\<lambda>i. transformed_writer (F i) (outs ! i @ [F i vs])) is, vs)"
  by (induction "is") (simp_all add: assign_lvalue_def transforming_ops_def transformed_writer_def back_ops_def push_back_def mixin_deref_def)

lemma spread_writer_back:
  assumes "length outs \<le> length vs"
  shows "oi_assign (spread_writer_ops (replicate (length outs) back_ops)) vs (spread_writer outs) =
    Inr (spread_writer (map2 (\<lambda>out v. out @ [v]) outs vs))"
  using spread_writes [of "[0..<length outs]" vs "\<lambda>i t. the (pick1 i t)" outs] assms
  by (auto simp: spread_writer_ops_def multiplex_ops_def spread_writer_def index_sequence pick1_eq)

text \<open>
  Two destinations of different types are a list over their sum, and each position has the
  operations of its own type.
\<close>

definition left_out :: "('o, 'v) out_ops \<Rightarrow> ('o + 'p, 'v) out_ops" where
  "left_out ops =
     \<lparr>oi_assign = (\<lambda>v s. case s of Inl it \<Rightarrow> rbind (oi_assign ops v it) (\<lambda>it'. Inr (Inl it')) | _ \<Rightarrow> Inl (Undefined OutOfBounds)),
      oi_incr = (\<lambda>s. case s of Inl it \<Rightarrow> rbind (oi_incr ops it) (\<lambda>it'. Inr (Inl it')) | _ \<Rightarrow> Inl (Undefined OutOfBounds))\<rparr>"

definition right_out :: "('p, 'v) out_ops \<Rightarrow> ('o + 'p, 'v) out_ops" where
  "right_out ops =
     \<lparr>oi_assign = (\<lambda>v s. case s of Inr it \<Rightarrow> rbind (oi_assign ops v it) (\<lambda>it'. Inr (Inr it')) | _ \<Rightarrow> Inl (Undefined OutOfBounds)),
      oi_incr = (\<lambda>s. case s of Inr it \<Rightarrow> rbind (oi_incr ops it) (\<lambda>it'. Inr (Inr it')) | _ \<Rightarrow> Inl (Undefined OutOfBounds))\<rparr>"

definition two_outs :: "'o \<Rightarrow> 'p \<Rightarrow> ('v list \<Rightarrow> 'v, 'o + 'p) transforming_output list" where
  "two_outs a b = spread_writer [Inl a, Inr b]"

definition out_fst :: "('v list \<Rightarrow> 'v, 'o + 'p) transforming_output list \<Rightarrow> 'o" where
  "out_fst outs = projl (to_iter (outs ! 0))"

definition out_snd :: "('v list \<Rightarrow> 'v, 'o + 'p) transforming_output list \<Rightarrow> 'p" where
  "out_snd outs = projr (to_iter (outs ! 1))"

lemma two_outs_eq: "two_outs a b =
    [transformed_writer (\<lambda>t. the (pick1 0 t)) (Inl a), transformed_writer (\<lambda>t. the (pick1 1 t)) (Inr b)]"
  by (simp add: two_outs_def spread_writer_def index_sequence upt_rec)

lemma two_outs_parts [simp]: "out_fst (two_outs a b) = a" "out_snd (two_outs a b) = b"
  by (simp_all add: two_outs_eq out_fst_def out_snd_def transformed_writer_def)

lemma two_outs_step:
  "oi_assign (spread_writer_ops [left_out ops1, right_out ops2]) [u, v] (two_outs a b) =
     rbind (oi_assign ops1 u a) (\<lambda>a'. rbind (oi_assign ops2 v b) (\<lambda>b'. Inr (two_outs a' b')))"
  "oi_incr (spread_writer_ops [left_out ops1, right_out ops2]) (two_outs a b) =
     rbind (oi_incr ops1 a) (\<lambda>a'. rbind (oi_incr ops2 b) (\<lambda>b'. Inr (two_outs a' b')))"
  by (auto simp: two_outs_eq spread_writer_ops_def multiplex_ops_def assign_lvalue_def transforming_ops_def transformed_writer_def
      mixin_deref_def left_out_def right_out_def pick1_eq rbind_def split: sum.splits)

definition two_sinks_ok ::
  "(nat \<Rightarrow> 'o \<Rightarrow> bool) \<Rightarrow> (nat \<Rightarrow> 'p \<Rightarrow> bool) \<Rightarrow> nat \<Rightarrow> ('v list \<Rightarrow> 'v, 'o + 'p) transforming_output list \<Rightarrow> bool" where
  "two_sinks_ok ok1 ok2 n outs \<longleftrightarrow> (\<exists>a b. outs = two_outs a b \<and> ok1 n a \<and> ok2 n b)"

definition able_pair :: "('v \<Rightarrow> bool) \<Rightarrow> ('v \<Rightarrow> bool) \<Rightarrow> 'v list \<Rightarrow> bool" where
  "able_pair able1 able2 t \<longleftrightarrow> (\<exists>u v. t = [u, v] \<and> able1 u \<and> able2 v)"

lemma spread_sinks:
  assumes s1: "sink ops1 ok1 wr1 able1 put1" and s2: "sink ops2 ok2 wr2 able2 put2"
  shows "sink (spread_writer_ops [left_out ops1, right_out ops2]) (two_sinks_ok ok1 ok2)
      (\<lambda>outs. wr1 (out_fst outs)) (able_pair able1 able2) (\<lambda>t. put1 (t ! 0))"
    and "sink (spread_writer_ops [left_out ops1, right_out ops2]) (two_sinks_ok ok1 ok2)
      (\<lambda>outs. wr2 (out_snd outs)) (able_pair able1 able2) (\<lambda>t. put2 (t ! 1))"
proof -
  let ?ops = "spread_writer_ops [left_out ops1, right_out ops2]"
  have room: "two_sinks_ok ok1 ok2 (Suc n) outs \<Longrightarrow> two_sinks_ok ok1 ok2 n outs" for n outs
    unfolding two_sinks_ok_def using sink.room [OF s1] sink.room [OF s2] by blast
  have step: "\<exists>a' b' o1. oi_assign ?ops t outs = Inr o1 \<and> oi_incr ?ops o1 = Inr (two_outs a' b') \<and>
      two_sinks_ok ok1 ok2 n (two_outs a' b') \<and>
      wr1 a' = wr1 (out_fst outs) @ put1 (t ! 0) \<and> wr2 b' = wr2 (out_snd outs) @ put2 (t ! 1)"
    if "two_sinks_ok ok1 ok2 (Suc n) outs" "able_pair able1 able2 t" for n outs t
  proof -
    obtain a b u v where ab: "outs = two_outs a b" "ok1 (Suc n) a" "ok2 (Suc n) b" "t = [u, v]" "able1 u" "able2 v"
      using \<open>two_sinks_ok ok1 ok2 (Suc n) outs\<close> \<open>able_pair able1 able2 t\<close>
      by (auto simp: two_sinks_ok_def able_pair_def)
    from sink.writes [OF s1 ab(2,5)] obtain a1 a2 where a: "oi_assign ops1 u a = Inr a1" "oi_incr ops1 a1 = Inr a2"
      "ok1 n a2" "wr1 a2 = wr1 a @ put1 u" by blast
    from sink.writes [OF s2 ab(3,6)] obtain b1 b2 where b: "oi_assign ops2 v b = Inr b1" "oi_incr ops2 b1 = Inr b2"
      "ok2 n b2" "wr2 b2 = wr2 b @ put2 v" by blast
    show ?thesis
      using a b by (intro exI [of _ a2] exI [of _ b2] exI [of _ "two_outs a1 b1"])
        (auto simp: ab two_outs_step two_sinks_ok_def)
  qed
  show "sink ?ops (two_sinks_ok ok1 ok2) (\<lambda>outs. wr1 (out_fst outs)) (able_pair able1 able2)
      (\<lambda>t. put1 (t ! 0))"
    by unfold_locales (use step room in fastforce)+
  show "sink ?ops (two_sinks_ok ok1 ok2) (\<lambda>outs. wr2 (out_snd outs)) (able_pair able1 able2) (\<lambda>t. put2 (t ! 1))"
    by unfold_locales (use step room in fastforce)+
qed

end
