(* ===== verification/UtilityProperties.thy ===== *)
theory UtilityProperties
  imports RangeFacts Writers "HOL-Library.Option_ord"
begin

text \<open>
  The properties of the utility headers: sign conversions, argument packs and composition,
  optionals and lazy values, output iterators, and the lazy ranges.
\<close>

section \<open>misc.hh and functional.hh\<close>

text \<open>
  In a checked build \<^verbatim>\<open>to_signed\<close> throws exactly for the unsigned values the signed type
  does not have, \<^verbatim>\<open>to_unsigned\<close> exactly for the negative ones, and where they return the number
  is unchanged; without the checks the bits are kept and nothing is thrown.
\<close>

lemma sign_conversions:
  "to_signed cfg (x :: 'a::len word) =
     (if debug cfg \<and> int (unat x) \<noteq> sint x then Inl OutOfRange else Inr x) \<and>
   to_unsigned cfg x = (if debug cfg \<and> int (unat x) \<noteq> sint x then Inl OutOfRange else Inr x)"
proof -
  have "int (unat x) = sint x \<longleftrightarrow> unat x < 2 ^ (LENGTH('a) - 1)"
  proof
    assume "int (unat x) = sint x"
    then have "0 \<le> sint x" by (metis of_nat_0_le_iff)
    then show "unat x < 2 ^ (LENGTH('a) - 1)" using sint_nonneg_iff [of x] by blast
  qed (simp add: sint_small)
  moreover have "unat x > 2 ^ (LENGTH('a) - 1) - 1 \<longleftrightarrow> \<not> unat x < 2 ^ (LENGTH('a) - 1)"
    using zero_less_power [of "2 :: nat" "LENGTH('a) - 1"] by arith
  ultimately show ?thesis
    using sint_nonneg_iff [of x] by (auto simp: to_signed_def to_unsigned_def)
qed

text \<open>
  The template recursions over argument packs compute the folds of the list of
  arguments, a reversed call passes the reversed list, and a collected result applies every
  function to the one argument.
\<close>

lemma argument_packs:
  "static_foldr f (xs @ [y]) = Some (foldr f xs y) \<and> static_foldl f (x # xs) = Some (foldl f x xs) \<and>
   reverse_call g args = g (rev args) \<and> spread g args = g args \<and> map_tuple h args = map h args \<and>
   collect_result fns v = map (\<lambda>f. f v) fns"
  by (simp add: static_foldr_append static_foldl_Cons reverse_call_eq spread_def spread_call_eq map_tuple_eq
      collect_result_eq)

text \<open>
  The two folds agree on an associative operation, which is what \<^verbatim>\<open>sumall\<close> and the packing
  of characters into an integer rely on.
\<close>

lemma folds_agree:
  assumes "\<And>a b c. f (f a b) c = f a (f b c)"
  shows "static_foldr f xs = static_foldl f xs"
  by (rule static_folds_agree [OF assms])

text \<open>
  \<^verbatim>\<open>compose\<close> applies its last function first, \<^verbatim>\<open>pipe\<close> its first, and \<^verbatim>\<open>pipe\<close> is \<^verbatim>\<open>compose\<close> of the
  reversed functions.
\<close>

lemma composition:
  assumes "fs \<noteq> []"
  shows "compose fs = Some (\<lambda>v. foldr (\<lambda>f x. f x) fs v) \<and> pipe fs = Some (\<lambda>v. foldl (\<lambda>x f. f x) v fs) \<and>
    pipe fs = compose (rev fs)"
  using assms by (simp add: compose_foldr pipe_foldl foldl_conv_foldr)

section \<open>optional.hh and lazy-value.hh\<close>

text \<open>
  C32: An optional is HOL's option, \<^verbatim>\<open>swap\<close> with an empty one aside: from optionals in
  which the flag and the union agree, every operation returns such optionals, with the values the
  specification says, and none destroys, reads or overwrites an object that is not there. \<^verbatim>\<open>swap\<close>
  exchanges the two, except when only the left one has a value: then the right one gets what the
  whole optional converts to, \<open>conv\<close>, and not the value it holds (an \<^verbatim>\<open>optional<bool>\<close> that holds
  \<^verbatim>\<open>false\<close> converts to \<^verbatim>\<open>true\<close>). The holder for types with a trivial destructor behaves like the
  other one.
\<close>

theorem optional_refines:
  assumes "opt_inv x" and "opt_inv y"
  shows "opt_copy x = Inr x \<and> opt_assign x y = Inr y \<and> opt_destroy x = Inr () \<and>
    (\<exists>z. opt_emplace v x = Inr z \<and> opt_inv z \<and> opt_abs z = Some v) \<and>
    (\<exists>z. opt_assign_value v x = Inr z \<and> opt_inv z \<and> opt_abs z = Some v) \<and>
    (\<exists>z. opt_assign_null x = Inr z \<and> opt_inv z \<and> opt_abs z = None) \<and>
    (\<exists>z. opt_move moved x = Inr (x, z) \<and> opt_inv z \<and> opt_abs z = map_option moved (opt_abs x)) \<and>
    (\<exists>z. opt_assign_move moved x y = Inr (y, z) \<and> opt_inv z \<and> opt_abs z = map_option moved (opt_abs y)) \<and>
    (\<exists>z. opt_swap conv x y = Inr (y, z) \<and> opt_inv z \<and>
      opt_abs z = (if opt_abs x \<noteq> None \<and> opt_abs y = None then Some (conv x) else opt_abs x)) \<and>
    (\<forall>u. opt_value x = Inr u \<longleftrightarrow> opt_abs x = Some u) \<and> (opt_bool x \<longleftrightarrow> opt_abs x \<noteq> None) \<and>
    opt_abs opt_nullopt = None \<and> opt_abs (make_optional v) = Some v \<and>
    triv_copy x = opt_copy x \<and> triv_move moved x = opt_move moved x \<and> triv_destruct x = opt_destruct x"
proof -
  have "opt_destroy x = Inr ()" using assms(1) by (elim opt_inv_cases) (simp_all add: opt_defs)
  then show ?thesis
    using assms opt_move_abs [OF assms(1)] opt_assign_move_abs [OF assms] opt_swap_cases [OF assms]
    by (auto simp: opt_copy_abs opt_assign_abs opt_emplace_abs opt_assign_value_abs opt_assign_null_abs
        opt_value_abs triv_holder opt_bool_def make_optional_def opt_of_value_def opt_nullopt_def opt_has_value
        split: option.splits)
qed

theorem optional_refines_witness:
  "opt_assign (opt_in_place (3 :: nat)) opt_empty = Inr opt_empty \<and>
   (\<exists>z. opt_swap has_value (opt_in_place False) opt_empty = Inr (opt_empty, z) \<and> opt_abs z = Some True)"
proof -
  have "has_value (opt_in_place False)" by (simp add: opt_in_place_def)
  then show ?thesis
    using optional_refines [where x = "opt_in_place (3 :: nat)" and y = opt_empty and v = 0 and moved = id and conv = opt_the]
      optional_refines [where x = "opt_in_place False" and y = opt_empty and v = True and moved = id and conv = has_value]
    by simp blast
qed

text \<open>
  C38: All thirty comparison operators of optionals, the six with each other, with a value on
  either side and with \<^verbatim>\<open>nullopt\<close> on either side, are those of the option order in which none comes
  before every value.
\<close>

theorem optional_order:
  assumes "opt_inv x" and "opt_inv y"
  shows "(opt_eq x y \<longleftrightarrow> opt_abs x = opt_abs y) \<and> (opt_ne x y \<longleftrightarrow> opt_abs x \<noteq> opt_abs y) \<and>
    (opt_lt x y \<longleftrightarrow> opt_abs x < opt_abs y) \<and> (opt_le x y \<longleftrightarrow> opt_abs x \<le> opt_abs y) \<and>
    (opt_gt x y \<longleftrightarrow> opt_abs x > opt_abs y) \<and> (opt_ge x y \<longleftrightarrow> opt_abs x \<ge> opt_abs y) \<and>
    (opt_eq_val x v \<longleftrightarrow> opt_abs x = Some v) \<and> (val_eq_opt v x \<longleftrightarrow> Some v = opt_abs x) \<and>
    (opt_ne_val x v \<longleftrightarrow> opt_abs x \<noteq> Some v) \<and> (val_ne_opt v x \<longleftrightarrow> Some v \<noteq> opt_abs x) \<and>
    (opt_lt_val x v \<longleftrightarrow> opt_abs x < Some v) \<and> (val_lt_opt v x \<longleftrightarrow> Some v < opt_abs x) \<and>
    (opt_le_val x v \<longleftrightarrow> opt_abs x \<le> Some v) \<and> (val_le_opt v x \<longleftrightarrow> Some v \<le> opt_abs x) \<and>
    (opt_gt_val x v \<longleftrightarrow> opt_abs x > Some v) \<and> (val_gt_opt v x \<longleftrightarrow> Some v > opt_abs x) \<and>
    (opt_ge_val x v \<longleftrightarrow> opt_abs x \<ge> Some v) \<and> (val_ge_opt v x \<longleftrightarrow> Some v \<ge> opt_abs x) \<and>
    (opt_eq_null x \<longleftrightarrow> opt_abs x = None) \<and> (null_eq_opt x \<longleftrightarrow> None = opt_abs x) \<and>
    (opt_ne_null x \<longleftrightarrow> opt_abs x \<noteq> None) \<and> (null_ne_opt x \<longleftrightarrow> None \<noteq> opt_abs x) \<and>
    (opt_lt_null x \<longleftrightarrow> opt_abs x < None) \<and> (null_lt_opt x \<longleftrightarrow> None < opt_abs x) \<and>
    (opt_le_null x \<longleftrightarrow> opt_abs x \<le> None) \<and> (null_le_opt x \<longleftrightarrow> None \<le> opt_abs x) \<and>
    (opt_gt_null x \<longleftrightarrow> opt_abs x > None) \<and> (null_gt_opt x \<longleftrightarrow> None > opt_abs x) \<and>
    (opt_ge_null x \<longleftrightarrow> opt_abs x \<ge> None) \<and> (null_ge_opt x \<longleftrightarrow> None \<ge> opt_abs x)"
  using assms by (elim opt_inv_cases) (auto simp: opt_cmp_defs opt_defs)

theorem optional_order_witness:
  "opt_lt opt_empty (opt_in_place (3 :: nat)) \<and> \<not> opt_lt (opt_in_place (3 :: nat)) opt_empty \<and>
   opt_gt_val (opt_in_place (3 :: nat)) 2 \<and> \<not> val_gt_opt 2 (opt_in_place (3 :: nat))"
  using optional_order [OF opt_abs_simps(3) opt_abs_simps(4), of "3 :: nat"]
    optional_order [where x = "opt_in_place (3 :: nat)" and y = opt_empty and v = 2] by simp

text \<open>
  A lazy value runs its computation on the first access and never again: later accesses
  return the first result and leave the world alone.
\<close>

lemma lazy_once:
  assumes "run w = Inr (v, w1)"
  shows "\<exists>z1. lazy_deref (lazy_new run) w = Inr ((v, z1), w1) \<and> (\<forall>w'. lazy_deref z1 w' = Inr ((v, z1), w'))"
proof (intro exI conjI allI)
  let ?z = "(lazy_new run)\<lparr>lazy_result := opt_in_place v\<rparr>"
  show "lazy_deref (lazy_new run) w = Inr ((v, ?z), w1)"
    by (rule lazy_deref_first) (simp_all add: lazy_new_def assms)
  show "lazy_deref ?z w' = Inr ((v, ?z), w')" for w' by (rule lazy_deref_again) simp
qed

section \<open>iter-util.hh: writing\<close>

text \<open>
  C35: A chain of output adaptors writes what the functions say: copying values to
  \<^verbatim>\<open>transformed_writer(g, filtering_writer(p, back_inserter(c)))\<close> appends to \<^verbatim>\<open>c\<close> the images that satisfy
  the predicate, in order.
\<close>

theorem writer_chain:
  "\<exists>out. out_copy (transforming_ops (filtering_output_ops back_ops)) vs
      (transformed_writer g (filtering_writer p c)) = Inr out \<and>
    fo_iter (to_iter out) = c @ filter p (map g vs)"
proof -
  let ?put = "\<lambda>v. if p (g v) then [g v] else []"
  have start: "transforming_sink_ok (filtering_sink_ok (\<lambda>n xs. True) p) g n (transformed_writer g (filtering_writer p c))" for n
    by (simp add: transforming_sink_ok_def filtering_sink_ok_def transformed_writer_def filtering_writer_def)
  have "concat (map ?put vs) = filter p (map g vs)" by (induction vs) simp_all
  then show ?thesis
    using sink.out_copy_written [OF sink.transforming_sink [OF back_inserter.filtering_sink] start, of vs]
    by (auto simp: list_all_iff transformed_writer_def filtering_writer_def)
qed

text \<open>
  C40: A multiplexer that is given an lvalue writes it unchanged to every destination, to
  filtering ones if it satisfies their predicates. An rvalue it forwards to one destination after
  another, and each gets what those before it have left: the i-th of several back inserters the
  value after i moves, and a filtering writer the value after a move for each writer before it that
  took it, so that a value that is rejected reaches the next writer whole.
\<close>

theorem multiplexed_values:
  assumes "n = length outs" and "length ps = length outs"
  shows "(\<exists>o1. oi_assign (multiplex_ops (replicate n back_ops)) v outs = Inr o1 \<and>
      oi_incr (multiplex_ops (replicate n back_ops)) o1 = Inr (map (\<lambda>out. out @ [v]) outs)) \<and>
    oi_assign (multiplex_ops (replicate n (filtering_output_ops back_ops))) v (map2 filtering_writer ps outs) =
      Inr (map2 filtering_writer ps (map2 (\<lambda>p out. if p v then out @ [v] else out) ps outs)) \<and>
    multiplex_move (replicate n (back_insert_move moved)) v outs =
      Inr (map2 (\<lambda>out i. out @ [(moved ^^ i) v]) outs [0..<n], (moved ^^ n) v) \<and>
    multiplex_move (replicate n (filtering_move (back_insert_move moved) mixin_incr)) v (map2 filtering_writer ps outs) =
      Inr (map2 filtering_writer ps (map (\<lambda>i. let u = passed_on moved (take i ps) v
                                             in outs ! i @ (if (ps ! i) u then [u] else [])) [0..<n]),
           passed_on moved ps v)"
  using back_inserter.multiplex_lvalue [of outs n v] assms multiplex_filtering_lvalue [OF assms(2), of v]
    multiplex_filtering_move [OF assms(2), of moved v] multiplex_back_move [OF assms(1), of moved v]
    filtered_outs_nth [OF assms(2), of moved v]
  by (auto simp: multiplex_ops_def list_all_iff)

theorem multiplexed_values_witness:
  "multiplex_move (replicate 2 (back_insert_move (\<lambda>v. []))) [7 :: nat] [[], []] = Inr ([[[7]], [[]]], []) \<and>
   multiplex_move (replicate 2 (filtering_move (back_insert_move (\<lambda>v. [])) mixin_incr)) [7 :: nat]
     (map2 filtering_writer [\<lambda>v. v = [], \<lambda>v. v = [7]] [[], []]) =
     Inr (map2 filtering_writer [\<lambda>v. v = [], \<lambda>v. v = [7]] [[], [[7]]], [])"
  using multiplexed_values [of 2 "[[], []]" "[\<lambda>v. v = [], \<lambda>v. v = [7]]" "[7 :: nat]" "\<lambda>v. []"]
  by (simp add: upt_rec eval_nat_numeral passed_on_def)

text \<open>
  \<^verbatim>\<open>spread_writer\<close> writes the i-th component of a tuple to the i-th destination.
\<close>

lemma spread_values:
  assumes "length outs \<le> length t"
  shows "oi_assign (spread_writer_ops (replicate (length outs) back_ops)) t (spread_writer outs) =
    Inr (spread_writer (map2 (\<lambda>out v. out @ [v]) outs t))"
  by (rule spread_writer_back [OF assms])

section \<open>Ranges\<close>

text \<open>
  C33: The lazy views of a container show what the functions of the same names give on lists:
  \<^verbatim>\<open>map\<close>, whether it stores its values, skips unused ones or is ephemeral, and \<^verbatim>\<open>filter\<close>.
\<close>

theorem lazy_views:
  assumes "\<And>x. f x = Inr (g x)" and "length xs < k"
  shows "(\<exists>w'. range_elems k (mapping_ops s (vec_ops xs) f) (map_range (make_range 0 (length xs))) w = Inr (map g xs, w')) \<and>
    (\<exists>w'. range_elems k (ephemeral_ops (vec_ops xs) f) (map_ephemeral_range (make_range 0 (length xs))) w = Inr (map g xs, w')) \<and>
    (\<exists>r w1 w2. filter_range k (vec_ops xs) p (make_range 0 (length xs)) w = Inr (r, w1) \<and>
       range_elems k (filtering_ops k (vec_ops xs) p) r w1 = Inr (filter p xs, w2))"
proof (intro conjI)
  have fg: "map f xs = map Inr (map g xs)" by (simp add: assms(1))
  have "mapping_seq (vec_seq xs) f (make_mapping_iterator 0) w (make_mapping_iterator (length xs)) (map g xs)"
    unfolding mapping_seq_def using fg vec_seq_all
    by (intro exI [of _ xs]) (simp add: make_mapping_iterator_def del: map_map)
  then show "\<exists>w'. range_elems k (mapping_ops s (vec_ops xs) f) (map_range (make_range 0 (length xs))) w = Inr (map g xs, w')"
    unfolding range_elems_def map_range_def make_range_def range.simps
    by (rule input_iterator.collect_all [OF vec.mapping_iterator_seq]) (use assms(2) in simp)
  have "ephemeral_seq (vec_seq xs) f 0 w (length xs) (map g xs)"
    unfolding ephemeral_seq_def by (intro exI [of _ xs] conjI vec_seq_all fg)
  then show "\<exists>w'. range_elems k (ephemeral_ops (vec_ops xs) f) (map_ephemeral_range (make_range 0 (length xs))) w = Inr (map g xs, w')"
    unfolding range_elems_def map_ephemeral_range_def make_range_def range.simps
    by (rule input_iterator.collect_all [OF vec.ephemeral_iterator_seq]) (use assms(2) in simp)
  let ?fe = "\<lparr>fi_it = length xs, fi_end = length xs\<rparr>"
  obtain b w1 where b: "make_filtering_iterator k (vec_ops xs) p 0 (length xs) w = Inr (b, w1)"
      "filtering_seq k (vec_seq xs) p b w1 ?fe (filter p xs)"
    using vec.make_filtering_seq [OF vec_seq_all, of xs k ?fe p w] assms(2) by auto
  obtain k' where k: "k = Suc k'" using assms(2) by (cases k) auto
  have e: "make_filtering_iterator k (vec_ops xs) p (length xs) (length xs) w1 = Inr (?fe, w1)"
    by (simp add: make_filtering_iterator_def k vec_ops_def)
  have "length (filter p xs) < k" using assms(2) length_filter_le [of p xs] by linarith
  from input_iterator.collect_all [OF vec.filtering_iterator_seq b(2) this]
  show "\<exists>r w1 w2. filter_range k (vec_ops xs) p (make_range 0 (length xs)) w = Inr (r, w1) \<and>
       range_elems k (filtering_ops k (vec_ops xs) p) r w1 = Inr (filter p xs, w2)"
    using b(1) e by (auto simp: filter_range_def make_range_def range_elems_def)
qed

theorem lazy_views_witness:
  "\<exists>w'. range_elems 4 (mapping_ops True (vec_ops [2, 3, 4 :: nat]) (\<lambda>x. Inr (x * x)))
      (map_range (make_range 0 (length [2, 3, 4 :: nat]))) () = Inr ([4, 9, 16 :: nat], w')"
  using lazy_views [of "\<lambda>x. Inr (x * x)" "\<lambda>x. x * x :: nat" "[2, 3, 4]" 4 True "()"] by simp

text \<open>
  C34: \<^verbatim>\<open>zip\<close> shows the tuples of the elements at equal positions and stops at the end of the
  shortest range.
\<close>

theorem zip_shortest:
  assumes "(xss :: 'v list list) \<noteq> []" and "\<forall>xs \<in> set xss. length xs < k"
  shows "\<exists>w'. range_elems k (zip_ops cursor_ops) (zip_range (=) (map container_range xss)) (w :: 'w) =
    Inr (map (\<lambda>i. map (\<lambda>xs. xs ! i) xss) [0..<Min (length ` set xss)], w')"
proof -
  have "it_eq (cursor_ops :: ('v list \<times> nat, 'v, 'w) iter_ops) = (=)" by (simp add: cursor_ops_def)
  then show ?thesis using zip_containers [of xss k w] assms by simp
qed

theorem zip_shortest_witness:
  "\<exists>w'. range_elems 5 (zip_ops cursor_ops) (zip_range (=) (map container_range [[1, 2, 3], [4, 5 :: nat]])) () =
    Inr ([[1, 4], [2, 5]], w')"
  using zip_shortest [of "[[1, 2, 3], [4, 5 :: nat]]" 5 "()"] by (simp add: upt_rec eval_nat_numeral)

text \<open>
  C39: Stepping back from the end of zipped ranges of different lengths does not give the
  last tuple: every iterator is at the end of its own range and steps back on its own.
\<close>

theorem zip_backwards:
  assumes "ys \<noteq> []" and "length ys < length xs"
  shows "\<exists>z. it_deref (zip_ops cursor_ops) (ra_decr (zip_random_access (=) cursor_random_access)
      (rg_end (zip_range (=) [container_range xs, container_range ys]))) = Inr ([last xs, last ys], z)"
proof -
  have "xs \<noteq> []" using assms by auto
  then show ?thesis using assms
    by (simp add: zip_range_def make_range_def container_range_def make_zip_iterator_def check_end_def zip_ops_def
        zip_random_access_def cursor_random_access_def cursor_ops_def last_conv_nth)
qed

theorem zip_backwards_witness:
  "\<exists>z. it_deref (zip_ops cursor_ops) (ra_decr (zip_random_access (=) cursor_random_access)
      (rg_end (zip_range (=) [container_range [1, 2, 3], container_range [7 :: nat]]))) = Inr ([3, 7], z)"
  using zip_backwards [of "[7 :: nat]" "[1, 2, 3]"] by simp

text \<open>
  \<^verbatim>\<open>map_indexed\<close> calls its function with each element and its position.
\<close>

lemma indexed_map:
  assumes "\<And>v n. f v n = Inr (g v n)" and "length xs < 2 ^ 64" and "length xs < k"
  shows "\<exists>w'. range_elems k (map_indexed_ops (vec_ops xs) f)
      (map_indexed (vec_ops xs :: (nat, 'v, 'w) iter_ops) (make_range 0 (length xs))) (w :: 'w) =
    Inr (map2 g xs (map word_of_nat [0..<length xs]), w')"
  by (rule vec.map_indexed_elems) (use assms in \<open>simp_all add: make_range_def vec_seq_all\<close>)

text \<open>
  C36: \<^verbatim>\<open>reduce\<close> without an initial value is the left fold from the first element, and throws
  on an empty container. It moves the initial value out of the container's first element, which is
  left as the move leaves it, though the caller only asked to read the range; a constant container
  stays as it is.
\<close>

theorem reduce_container:
  "reduce_vector moved f (x # xs) = Inr (foldl f x xs, moved x # xs) \<and>
   reduce_const_vector f (x # xs) = Inr (foldl f x xs, x # xs) \<and>
   reduce_vector moved f [] = Inl OutOfRange \<and> reduce_const_vector f [] = Inl OutOfRange"
  unfolding reduce_vector_def reduce_const_vector_def
  using reduce_element [of "\<lambda>i ys. ys[i := moved (ys ! i)]" x xs "moved x" f] reduce_element [of "\<lambda>i ys. ys" x xs x f]
  by (simp add: reduce_no_element)

text \<open>
  C37: On iterators that hold their own element the first element is read after the iterator
  has moved on: a range of integers is folded with its first number replaced by the second, and
  on a mapped range a value is read that is no longer there.
\<close>

theorem reduce_stashing:
  assumes "a < e" and "unat e - unat a \<le> k" and "xs \<noteq> []" and "\<And>x. f x = Inr (g x)"
  shows "reduce k (\<lambda>_. integral_ops) (Inside integral_own) h (make_range a e) () w =
      Inr ((foldl h (a + 1) (map word_of_nat [Suc (unat a)..<unat e]), ()), w) \<and>
    reduce k (\<lambda>xs. mapping_ops s (vec_ops xs) f) (Inside mapping_own) h' (map_range (make_range 0 (length xs))) xs w =
      Inl (Undefined ReadIndeterminate)"
  by (rule conjI [OF reduce_integral_range [OF assms(1,2)] reduce_mapped_range [OF assms(3,4)]])

theorem reduce_stashing_witness:
  "reduce 9 (\<lambda>_. integral_ops) (Inside integral_own) (+) (make_range (1 :: 32 word) 4) () () = Inr ((2 + 2 + 3, ()), ())"
proof -
  have "reduce 9 (\<lambda>_. integral_ops) (Inside integral_own) (+) (make_range (1 :: 32 word) 4) () () =
      Inr ((foldl (+) (1 + 1) (map word_of_nat [Suc (unat (1 :: 32 word))..<unat (4 :: 32 word)]), ()), ())"
    using reduce_stashing [of 1 "4 :: 32 word" 9 "[0 :: nat]" Inr id "(+)" "()" False "(+)"] by simp
  moreover have "[Suc (unat (1 :: 32 word))..<unat (4 :: 32 word)] = [2, 3]" by (simp add: upt_rec)
  ultimately show ?thesis by simp
qed

end
