(* ===== verification/Pipelines.thy ===== *)
theory Pipelines
  imports SequentialFile RangeFacts Writers
begin

text \<open>
  The programs of \<^verbatim>\<open>example/\<close>: pipelines from sequential files through the lazy ranges of utils to
  sequential files. A file reader is an input iterator and a file writer a sink, so what a
  pipeline computes follows from the contracts of its parts.
\<close>

section \<open>Files as the ends of a pipeline\<close>

text \<open>The write iterator takes an object of any type of the realm; its type is found by overloading.\<close>

definition assign_as :: "ctype \<Rightarrow> ('w, ctype \<times> val) out_ops \<Rightarrow> ('w, val) out_ops" where
  "assign_as T ops = \<lparr>oi_assign = (\<lambda>v. oi_assign ops (T, v)), oi_incr = oi_incr ops\<rparr>"

text \<open>There is room for \<open>n\<close> blocks if there is room for \<open>n\<close> times the longest one.\<close>

definition block_room :: "('w \<Rightarrow> bool) \<Rightarrow> ('w \<Rightarrow> nat \<Rightarrow> bool) \<Rightarrow> nat \<Rightarrow> 'w \<Rightarrow> bool" where
  "block_room ok cap n w \<longleftrightarrow> ok w \<and> (\<exists>m. cap w (2 ^ 32 * n + m))"

lemma block_room_less: "block_room ok cap (Suc n) w \<Longrightarrow> block_room ok cap n w"
proof -
  assume "block_room ok cap (Suc n) w"
  then obtain m where m: "ok w" "cap w (2 ^ 32 * Suc n + m)" unfolding block_room_def by blast
  have "2 ^ 32 * Suc n + m = 2 ^ 32 * n + (2 ^ 32 + m)" by simp
  with m show "block_room ok cap n w" unfolding block_room_def by metis
qed

context output_stream begin

lemma block_sink:
  assumes "good_env env"
  shows "sink (heterogeneous_write_ops env ops entries) (block_room ok cap) out (\<lambda>(T, v). storable T v) (stored_bytes env entries)"
proof unfold_locales
  fix n w and item :: "ctype \<times> val"
  show "block_room ok cap (Suc n) w \<Longrightarrow> block_room ok cap n w" by (rule block_room_less)
  assume r: "block_room ok cap (Suc n) w" and i: "case item of (T, v) \<Rightarrow> storable T v"
  obtain T v where item: "item = (T, v)" "storable T v" using i by (cases item) auto
  obtain m where m: "ok w" "cap w (2 ^ 32 * Suc n + m)" using r by (auto simp: block_room_def)
  let ?len = "length (stored_bytes env entries (T, v))"
  have "?len \<le> 2 ^ 32" using length_stored_bytes [OF assms item(2), of entries] by simp
  then have eq: "2 ^ 32 * Suc n + m = ?len + (2 ^ 32 * n + (2 ^ 32 - ?len + m))" by simp
  have "cap w (?len + (2 ^ 32 * n + (2 ^ 32 - ?len + m)))" using m(2) unfolding eq .
  from emitsD [OF emits_write_block [OF assms item(2)] m(1) this]
  obtain w' where "write_block env ops entries T v w = Inr w'" "ok w'"
      "out w' = out w @ stored_bytes env entries (T, v)" "cap w' (2 ^ 32 * n + (2 ^ 32 - ?len + m))" by blast
  then show "\<exists>o1 o2. oi_assign (heterogeneous_write_ops env ops entries) item w = Inr o1 \<and>
      oi_incr (heterogeneous_write_ops env ops entries) o1 = Inr o2 \<and> block_room ok cap n o2 \<and>
      out o2 = out w @ stored_bytes env entries item"
    by (auto simp: item(1) heterogeneous_write_ops_def mixin_incr_def block_room_def)
qed

end

lemma typed_sink:
  assumes "sink ops ok wr able put"
  shows "sink (assign_as T ops) ok wr (\<lambda>v. able (T, v)) (\<lambda>v. put (T, v))"
  using assms by (simp add: sink_def assign_as_def)

abbreviation "file_room \<equiv> block_room fs_appending fs_cap"

text \<open>The sink at the end of a file opened for writing.\<close>

lemma file_sink:
  assumes "good_env env"
  shows "sink (assign_as T (write_iterator_ops env r)) file_room fs_data (storable T)
    (\<lambda>v. stored_bytes env (rl_entries r) (T, v))"
  using typed_sink [OF fs_out.block_sink [OF assms, of "rl_entries r"], of T] by (simp add: write_iterator_ops_def)

lemma file_room_start:
  assumes "fs_appending s" and "length (fs_data s) + 2 ^ 32 * n < 2 ^ 63 - 1"
  shows "file_room n s"
  using assms by (auto simp: block_room_def fs_cap_def intro!: exI [of _ 0])

lemma open_output_sink:
  "\<exists>s. open_sequential_output_file env file r True = Inr s \<and> fs_appending s \<and> fs_data s = header_bytes (rl_id r)"
  by (rule open_new_file) simp

text \<open>The source at the begin of a file opened for reading.\<close>

abbreviation "file_seq d \<equiv> skipping_seq (fs_ok d) fs_rem"

lemma file_iterator:
  assumes "good_env env"
  shows "input_iterator (skipping_read_ops env fs_ops entries T) (file_seq d env entries T)"
  by (rule fs.skipping_iterator [OF assms])

lemma file_source:
  assumes env: "good_env env" and "realm_ok (rl_entries r)" and "items_ok (rl_entries r) items"
    and "T \<in> snd ` set (rl_entries r)" and d: "d = file_bytes env r items"
    and "length d < 2 ^ 63 - 1" and "length items < fuel (env_cfg env)"
  shows "\<exists>s rg s1. open_sequential_input_file env (Some d) r = Inr s \<and> read_one_type env r T s = Inr (rg, s1) \<and>
    file_seq d env (rl_entries r) T (rg_begin rg) s1 (rg_end rg) (items_of T items)"
proof -
  have cfg: "fuel_enough (env_cfg env)" using env by (simp add: good_env_def)
  obtain s where s: "open_sequential_input_file env (Some d) r = Inr s"
      "fs_ok d s" "fs_rem s = concat (map (stored_bytes env (rl_entries r)) items)"
    using open_for_reading(1) [OF cfg _ assms(6) refl] d by (auto simp: file_bytes_def)
  from fs.skipping_read_start [OF env assms(2,4,3) s(2,3) assms(7)] s(1) show ?thesis
    by (auto simp: read_one_type_def make_range_def)
qed

lemma skipping_read_refl: "it_eq (skipping_read_ops env ops entries T) i i"
  by (simp add: skipping_read_ops_def mapping_ops_def filtering_ops_def parse_iterator_ops_def)

text \<open>\<^verbatim>\<open>filter\<close> over any iterator.\<close>

lemma filter_range_seq:
  assumes it: "input_iterator ops seq" and s: "seq (rg_begin r) w (rg_end r) us" and k: "length us < k"
    and refl: "\<And>i. it_eq ops i i"
  shows "\<exists>r' w'. filter_range k ops p r w = Inr (r', w') \<and>
    filtering_seq k seq p (rg_begin r') w' (rg_end r') (filter p us)"
proof -
  let ?fe = "\<lparr>fi_it = rg_end r, fi_end = rg_end r\<rparr>"
  obtain b w1 where b: "make_filtering_iterator k ops p (rg_begin r) (rg_end r) w = Inr (b, w1)"
      "filtering_seq k seq p b w1 ?fe (filter p us)"
    using input_iterator.make_filtering_seq [OF it s k, of ?fe p] by auto
  obtain k' where "k = Suc k'" using k by (cases k) auto
  then have "make_filtering_iterator k ops p (rg_end r) (rg_end r) w1 = Inr (?fe, w1)"
    by (simp add: make_filtering_iterator_def refl)
  with b show ?thesis by (simp add: filter_range_def make_range_def)
qed

lemma map_range_seq:
  assumes "seq (rg_begin r) w (rg_end r) us" and "map f us = map Inr vs"
  shows "mapping_seq seq f (rg_begin (map_range r)) w (rg_end (map_range r)) vs"
  using assms by (auto simp: mapping_seq_def map_range_def make_range_def make_mapping_iterator_def)

end
