(* ===== verification/Examples.thy ===== *)
theory Examples
  imports Pipelines
begin

text \<open>
  The programs of \<^verbatim>\<open>example/\<close>: \<^verbatim>\<open>gen-src\<close> writes raw data, \<^verbatim>\<open>single-input\<close> makes two files of it,
  \<^verbatim>\<open>multi-input\<close> reads these in parallel and \<^verbatim>\<open>dump\<close> prints a file. A program is a function of the
  files, a map from names to contents; a stream is closed, and its file has its final content,
  when the program ends.
\<close>

type_synonym files = "string \<rightharpoonup> byte list"

section \<open>defs.hh\<close>

text \<open>All four data types are \<^verbatim>\<open>int\<close>, a 32-bit integer in two's complement.\<close>

definition int_ctype :: ctype where
  "int_ctype = \<lparr>c_name = ''int'', c_ty = TPrim Num4\<rparr>"

definition ExampleRealm :: realm where
  "ExampleRealm = \<lparr>rl_id = 1, rl_entries = [(1, int_ctype)]\<rparr>"

definition int_val :: "32 word \<Rightarrow> val" where
  "int_val n = VPrim (P4 n)"

fun the_int :: "val \<Rightarrow> 32 word result" where
  "the_int (VPrim (P4 n)) = Inr n"
| "the_int _ = Inl (Undefined ReadIndeterminate)"

definition fits_int :: "int \<Rightarrow> bool" where
  "fits_int x \<longleftrightarrow> - (2 ^ 31) \<le> x \<and> x < 2 ^ 31"

definition int_add :: "32 word \<Rightarrow> 32 word \<Rightarrow> 32 word result" where
  "int_add a b = (if fits_int (sint a + sint b) then Inr (a + b) else Inl (Undefined SignedOverflow))"

definition int_above :: "int \<Rightarrow> val \<Rightarrow> bool" where
  "int_above n v = (case the_int v of Inr x \<Rightarrow> sint x > n | Inl e \<Rightarrow> False)"

section \<open>gen-src.cc\<close>

function gen_loop :: "environment \<Rightarrow> int \<Rightarrow> fstream \<Rightarrow> fstream result" where
  "gen_loop env i raw_writer =
     (if i < 10
      then rbind (oi_assign (assign_as int_ctype (write_iterator_ops env ExampleRealm)) (int_val (word_of_int i)) raw_writer) (\<lambda>w1.
           rbind (oi_incr (assign_as int_ctype (write_iterator_ops env ExampleRealm)) w1) (gen_loop env (i + 1)))
      else Inr raw_writer)"
  by pat_completeness auto
termination by (relation "measure (\<lambda>(env, i, w). nat (10 - i))") auto

declare gen_loop.simps [simp del]

definition gen_src :: "environment \<Rightarrow> files \<Rightarrow> files result" where
  "gen_src env fs =
     rbind (open_sequential_output_file env (fs ''raw.bs'') ExampleRealm True) (\<lambda>raw_file.
     rbind (gen_loop env 0 raw_file) (\<lambda>raw_file. Inr (fs(''raw.bs'' \<mapsto> fs_data raw_file))))"

section \<open>single-input.cc\<close>

definition find_hit :: "val \<Rightarrow> val result" where
  "find_hit r = rbind (the_int r) (\<lambda>r. rbind (int_add r 1) (\<lambda>h. Inr (int_val h)))"

definition esum :: "val \<Rightarrow> val result" where
  "esum r = rbind (the_int r) (\<lambda>r. rbind (int_add r 2) (\<lambda>e. Inr (int_val e)))"

definition raw_cut :: "val \<Rightarrow> bool" where
  "raw_cut r = int_above 3 r"

definition hit_cut :: "val \<Rightarrow> bool" where
  "hit_cut h = (case the_int h of Inr x \<Rightarrow> sint x < 8 | Inl e \<Rightarrow> False)"

text \<open>\<^verbatim>\<open>collect_result\<close> gives a tuple; a call that fails ends the evaluation.\<close>

fun all_results :: "'a result list \<Rightarrow> 'a list result" where
  "all_results [] = Inr []"
| "all_results (r # rs) = rbind r (\<lambda>x. rbind (all_results rs) (\<lambda>xs. Inr (x # xs)))"

abbreviation "int_reader_ops env \<equiv> skipping_read_ops env fs_ops (rl_entries ExampleRealm) int_ctype"
abbreviation "int_writer_ops env \<equiv> assign_as int_ctype (write_iterator_ops env ExampleRealm)"

definition hit_and_esum :: "val \<Rightarrow> val list result" where
  "hit_and_esum r = all_results (collect_result [find_hit, esum] r)"

definition single_input :: "environment \<Rightarrow> files \<Rightarrow> files result" where
  "single_input env fs =
     (let k = fuel (env_cfg env) in
     rbind (open_sequential_input_file env (fs ''raw.bs'') ExampleRealm) (\<lambda>raw_file.
     rbind (read_one_type env ExampleRealm int_ctype raw_file) (\<lambda>(raw_data, raw_file).
     rbind (filter_range k (int_reader_ops env) raw_cut raw_data raw_file) (\<lambda>(cut_raw, raw_file).
     rbind (open_sequential_output_file env (fs ''hit.bs'') ExampleRealm True) (\<lambda>hit_file.
     rbind (open_sequential_output_file env (fs ''esum.bs'') ExampleRealm True) (\<lambda>esum_file.
     rbind (range_copy k (mapping_ops False (filtering_ops k (int_reader_ops env) raw_cut) hit_and_esum)
              (spread_writer_ops [left_out (filtering_output_ops (int_writer_ops env)), right_out (int_writer_ops env)])
              (map_range cut_raw) raw_file (two_outs (filtering_writer hit_cut hit_file) esum_file)) (\<lambda>(outs, raw_file).
       Inr (fs(''hit.bs'' \<mapsto> fs_data (fo_iter (out_fst outs)), ''esum.bs'' \<mapsto> fs_data (out_snd outs))))))))))"

section \<open>multi-input.cc\<close>

definition reconstruct :: "val \<Rightarrow> val \<Rightarrow> val result" where
  "reconstruct hit es = rbind (the_int hit) (\<lambda>h. rbind (the_int es) (\<lambda>e. rbind (int_add h e) (\<lambda>s. Inr (int_val s))))"

fun reconstruct_tuple :: "(val + val) list \<Rightarrow> val result" where
  "reconstruct_tuple [Inl hit, Inr es] = reconstruct hit es"
| "reconstruct_tuple _ = Inl (Undefined OutOfBounds)"

definition cut :: "val \<Rightarrow> bool" where
  "cut sig = int_above 3 sig"

definition multi_input :: "environment \<Rightarrow> files \<Rightarrow> files result" where
  "multi_input env fs =
     (let k = fuel (env_cfg env); R = int_reader_ops env;
          signal_ops = mapping_ops False (two_world_ops R R) (spread reconstruct_tuple) in
     rbind (open_sequential_input_file env (fs ''hit.bs'') ExampleRealm) (\<lambda>hit_file.
     rbind (open_sequential_input_file env (fs ''esum.bs'') ExampleRealm) (\<lambda>esum_file.
     rbind (read_one_type env ExampleRealm int_ctype hit_file) (\<lambda>(hits, hit_file).
     rbind (read_one_type env ExampleRealm int_ctype esum_file) (\<lambda>(esums, esum_file).
     let signals = map_range (zip_two (it_eq R) (it_eq R) hits esums) in
     rbind (filter_range k signal_ops cut signals (hit_file, esum_file)) (\<lambda>(good_signals, in_files).
     rbind (open_sequential_output_file env (fs ''sig.bs'') ExampleRealm True) (\<lambda>sig_file.
     rbind (range_copy k (filtering_ops k signal_ops cut) (int_writer_ops env) good_signals in_files sig_file) (\<lambda>(sig_file, in_files).
       Inr (fs(''sig.bs'' \<mapsto> fs_data sig_file))))))))))"

section \<open>dump.cc\<close>

text \<open>\<^verbatim>\<open>std::cout\<close> is the string printed so far.\<close>

fun dec_digits :: "nat \<Rightarrow> string" where
  "dec_digits n = (if n < 10 then [char_of (48 + n)] else dec_digits (n div 10) @ [char_of (48 + n mod 10)])"

declare dec_digits.simps [simp del]

definition dec_int :: "32 word \<Rightarrow> string" where
  "dec_int n = (if sint n < 0 then CHR ''-'' # dec_digits (nat (- sint n)) else dec_digits (nat (sint n)))"

definition newline :: string where
  "newline = [CHR 0x0A]"

definition ostream_iterator_ops :: "(string, val) out_ops" where
  "ostream_iterator_ops =
     \<lparr>oi_assign = (\<lambda>v cout. rbind (the_int v) (\<lambda>n. Inr (cout @ dec_int n @ newline))), oi_incr = mixin_incr\<rparr>"

fun dump :: "environment \<Rightarrow> files \<Rightarrow> string list \<Rightarrow> string \<Rightarrow> string result" where
  "dump env fs [] cout = Inr cout"
| "dump env fs (name # names) cout =
     rbind (open_sequential_input_file env (fs name) ExampleRealm) (\<lambda>s.
     rbind (read_one_type env ExampleRealm int_ctype s) (\<lambda>(ints, s).
     rbind (range_copy (fuel (env_cfg env)) (int_reader_ops env) ostream_iterator_ops ints s (cout @ name @ '':'' @ newline)) (\<lambda>(cout, s).
       dump env fs names (cout @ newline))))"

section \<open>What the programs compute\<close>

lemma int_add_eq: "fits_int (sint a + sint b) \<Longrightarrow> int_add a b = Inr (a + b) \<and> sint (a + b) = sint a + sint b"
proof -
  assume r: "fits_int (sint a + sint b)"
  then have "signed_take_bit 31 (sint a + sint b) = sint a + sint b"
    by (intro signed_take_bit_int_eq_self) (simp_all add: fits_int_def)
  then have "sint (a + b) = sint a + sint b" by (simp add: sint_word_ariths)
  with r show ?thesis by (simp add: int_add_def)
qed

text \<open>A file of \<^verbatim>\<open>int\<close>s.\<close>

definition int_file :: "environment \<Rightarrow> 32 word list \<Rightarrow> byte list" where
  "int_file env ns = file_bytes env ExampleRealm (map (\<lambda>n. (int_ctype, int_val n)) ns)"

lemma example_realm: "realm_ok (rl_entries ExampleRealm)" "int_ctype \<in> snd ` set (rl_entries ExampleRealm)"
  by (simp_all add: ExampleRealm_def realm_ok_def)

lemma storable_int: "storable int_ctype (int_val n)"
  by (simp add: storable_def int_ctype_def int_val_def encodable_def prim_val_bytes_def has_type_prim)

lemma int_items: "items_ok (rl_entries ExampleRealm) (map (\<lambda>n. (int_ctype, int_val n)) ns)"
  using storable_int example_realm by (auto simp: items_ok_def)

lemma items_of_ints: "items_of int_ctype (map (\<lambda>n. (int_ctype, int_val n)) ns) = map int_val ns"
  by (simp add: items_of_def comp_def)

lemma int_file_eq: "int_file env ns =
    header_bytes (rl_id ExampleRealm) @ concat (map (\<lambda>v. stored_bytes env (rl_entries ExampleRealm) (int_ctype, v)) (map int_val ns))"
  by (simp add: int_file_def file_bytes_def comp_def)

lemma length_int_file: "good_env env \<Longrightarrow> length (int_file env ns) \<le> 8 + 2 ^ 32 * length ns"
  using length_stored_items [OF _ int_items, of env ns] by (simp add: int_file_def)

lemma int_source:
  assumes "good_env env" and "d = int_file env ns" and "length d < 2 ^ 63 - 1" and "length ns < fuel (env_cfg env)"
  shows "\<exists>s rg s1. open_sequential_input_file env (Some d) ExampleRealm = Inr s \<and>
    read_one_type env ExampleRealm int_ctype s = Inr (rg, s1) \<and>
    file_seq d env (rl_entries ExampleRealm) int_ctype (rg_begin rg) s1 (rg_end rg) (map int_val ns)"
  using file_source [OF assms(1) example_realm(1) int_items example_realm(2), of d ns] assms(2-4)
  by (simp add: int_file_def items_of_ints)

lemma room_new_file:
  assumes "fs_appending s" and "fs_data s = header_bytes i" and "8 + 2 ^ 32 * n < 2 ^ 63 - 1"
  shows "file_room (n + 0) s"
  by (rule file_room_start [OF assms(1)]) (use assms(2,3) in simp)

lemma cut_ints: "filter (int_above n) (map int_val xs) = map int_val (filter (\<lambda>x. n < sint x) xs)"
  by (simp add: filter_map comp_def int_above_def int_val_def)

lemma hit_and_esum_eq:
  assumes "fits_int (sint r + 2)" and "3 < sint r"
  shows "hit_and_esum (int_val r) = Inr [int_val (r + 1), int_val (r + 2)]"
proof -
  have "fits_int (sint r + 1)" using assms by (simp add: fits_int_def)
  then show ?thesis
    using assms int_add_eq [of r 1] int_add_eq [of r 2]
    by (simp add: hit_and_esum_def collect_result_eq find_hit_def esum_def int_val_def)
qed

lemma new_int_file:
  "\<exists>s. open_sequential_output_file env file ExampleRealm True = Inr s \<and> fs_appending s \<and>
     fs_data s = header_bytes (rl_id ExampleRealm)"
  by (rule open_output_sink)

text \<open>Copying pairs of integers to the two files of \<^verbatim>\<open>single-input\<close>.\<close>

lemma copy_to_two_files:
  assumes env: "good_env env" and it: "input_iterator ops seq"
    and pairs: "seq i w e (map (\<lambda>(a, b). [int_val a, int_val b]) pairs)" "length pairs < k"
    and room: "8 + 2 ^ 32 * length pairs < 2 ^ 63 - 1"
    and h: "fs_appending h" "fs_data h = header_bytes (rl_id ExampleRealm)"
    and es: "fs_appending es" "fs_data es = header_bytes (rl_id ExampleRealm)"
  shows "\<exists>outs w'. copy_loop k ops
      (spread_writer_ops [left_out (filtering_output_ops (int_writer_ops env)), right_out (int_writer_ops env)])
      i e w (two_outs (filtering_writer hit_cut h) es) = Inr (outs, w') \<and>
    fs_data (fo_iter (out_fst outs)) = int_file env (filter (\<lambda>h. sint h < 8) (map fst pairs)) \<and>
    fs_data (out_snd outs) = int_file env (map snd pairs)"
proof -
  let ?tuples = "map (\<lambda>(a, b). [int_val a, int_val b]) pairs" and ?outs = "two_outs (filtering_writer hit_cut h) es"
  let ?st = "\<lambda>v. stored_bytes env (rl_entries ExampleRealm) (int_ctype, v)"
  note fsink = file_sink [OF env, of int_ctype ExampleRealm]
  note sinks = spread_sinks [OF sink.filtering_sink [OF fsink, of hit_cut] fsink]
  have "filtering_sink_ok file_room hit_cut (length pairs + 0) (filtering_writer hit_cut h)"
    using room_new_file [OF h room] by (simp add: filtering_sink_ok_def filtering_writer_def)
  then have start: "two_sinks_ok (filtering_sink_ok file_room hit_cut) file_room (length ?tuples + 0) ?outs"
    using room_new_file [OF es room] by (auto simp: two_sinks_ok_def)
  have able: "list_all (able_pair (\<lambda>v. hit_cut v \<longrightarrow> storable int_ctype v) (storable int_ctype)) ?tuples"
    using storable_int by (auto simp: list_all_iff able_pair_def)
  have "length ?tuples < k" using pairs(2) by simp
  note copies = sink.range_copy_written [OF sinks(1) it pairs(1) this start able]
    sink.range_copy_written [OF sinks(2) it pairs(1) this start able]
  obtain outs w' where o: "copy_loop k ops
      (spread_writer_ops [left_out (filtering_output_ops (int_writer_ops env)), right_out (int_writer_ops env)])
      i e w ?outs = Inr (outs, w')"
      "fs_data (fo_iter (out_fst outs)) = fs_data h @ concat (map (\<lambda>t. if hit_cut (t ! 0) then ?st (t ! 0) else []) ?tuples)"
      "fs_data (out_snd outs) = fs_data es @ concat (map (\<lambda>t. ?st (t ! 1)) ?tuples)"
    using copies by (auto simp: filtering_writer_def)
  have "concat (map (\<lambda>t. if hit_cut (t ! 0) then ?st (t ! 0) else []) ?tuples) =
      concat (map ?st (map int_val (filter (\<lambda>h. sint h < 8) (map fst pairs))))"
    by (induction pairs) (auto simp: hit_cut_def int_val_def)
  moreover have "concat (map (\<lambda>t. ?st (t ! 1)) ?tuples) = concat (map ?st (map int_val (map snd pairs)))"
    by (induction pairs) auto
  ultimately show ?thesis
    using o(1) by (intro exI [of _ outs] exI [of _ w'] conjI) (simp_all only: o(2,3) h(2) es(2) int_file_eq)
qed

lemma single_input_files:
  assumes env: "good_env env" and raw: "fs ''raw.bs'' = Some (int_file env raws)"
    and fuel: "length raws < fuel (env_cfg env)" and room: "8 + 2 ^ 32 * length raws < 2 ^ 63 - 1"
    and ok: "\<forall>r \<in> set raws. 3 < sint r \<longrightarrow> fits_int (sint r + 2)" and cut: "cuts = filter (\<lambda>r. 3 < sint r) raws"
  shows "single_input env fs =
    Inr (fs(''hit.bs'' \<mapsto> int_file env (filter (\<lambda>h. sint h < 8) (map (\<lambda>r. r + 1) cuts)),
            ''esum.bs'' \<mapsto> int_file env (map (\<lambda>r. r + 2) cuts)))"
proof -
  let ?k = "fuel (env_cfg env)" and ?d = "int_file env raws" and ?e = "rl_entries ExampleRealm"
  let ?seq = "file_seq ?d env ?e int_ctype" and ?vals = "map int_val cuts"
  have "length ?d < 2 ^ 63 - 1" using length_int_file [OF env, of raws] room by linarith
  from int_source [OF env refl this fuel] obtain s rg s1 where s: "open_sequential_input_file env (Some ?d) ExampleRealm = Inr s"
      "read_one_type env ExampleRealm int_ctype s = Inr (rg, s1)"
      "?seq (rg_begin rg) s1 (rg_end rg) (map int_val raws)" by blast
  note it = file_iterator [OF env, of ?e int_ctype ?d]
  have "length (map int_val raws) < ?k" using fuel by simp
  from filter_range_seq [OF it s(3) this skipping_read_refl, of raw_cut] obtain rg2 s2 where
    f: "filter_range ?k (int_reader_ops env) raw_cut rg s1 = Inr (rg2, s2)"
      "filtering_seq ?k ?seq raw_cut (rg_begin rg2) s2 (rg_end rg2) ?vals"
    by (auto simp: raw_cut_def [abs_def] cut_ints cut)
  let ?pairs = "map (\<lambda>r. (r + 1, r + 2)) cuts"
  have "map hit_and_esum ?vals = map Inr (map (\<lambda>(a, b). [int_val a, int_val b]) ?pairs)"
    using ok hit_and_esum_eq by (auto simp: cut)
  note m = map_range_seq [of "filtering_seq ?k ?seq raw_cut", OF f(2) this]
  obtain h where h: "open_sequential_output_file env (fs ''hit.bs'') ExampleRealm True = Inr h" "fs_appending h"
      "fs_data h = header_bytes (rl_id ExampleRealm)" using new_int_file by blast
  obtain es where es: "open_sequential_output_file env (fs ''esum.bs'') ExampleRealm True = Inr es" "fs_appending es"
      "fs_data es = header_bytes (rl_id ExampleRealm)" using new_int_file by blast
  have n: "length ?pairs \<le> length raws" by (simp add: cut)
  then have "8 + 2 ^ 32 * length ?pairs < 2 ^ 63 - 1" "length ?pairs < ?k" using room fuel by simp_all
  from copy_to_two_files [OF env input_iterator.mapping_iterator_seq [OF input_iterator.filtering_iterator_seq [OF it]]
      m this(2,1) h(2,3) es(2,3), of False]
  show ?thesis
    using s(1,2) f(1) h(1) es(1) by (auto simp: single_input_def raw Let_def range_copy_def comp_def)
qed

text \<open>Copying integers to one file.\<close>

lemma copy_to_file:
  assumes env: "good_env env" and it: "input_iterator ops seq" and ns: "seq i w e (map int_val ns)" "length ns < k"
    and room: "8 + 2 ^ 32 * length ns < 2 ^ 63 - 1"
    and s: "fs_appending s" "fs_data s = header_bytes (rl_id ExampleRealm)"
  shows "\<exists>s' w'. copy_loop k ops (int_writer_ops env) i e w s = Inr (s', w') \<and> fs_data s' = int_file env ns"
proof -
  have able: "list_all (storable int_ctype) (map int_val ns)" using storable_int by (simp add: list_all_iff)
  have start: "file_room (length (map int_val ns) + 0) s" using room_new_file [OF s room] by simp
  have "length (map int_val ns) < k" using ns(2) by simp
  from sink.range_copy_written [OF file_sink [OF env, of int_ctype ExampleRealm] it ns(1) this start able]
  show ?thesis by (auto simp: int_file_eq s(2) simp del: map_map)
qed

text \<open>The sums \<^verbatim>\<open>multi-input\<close> reconstructs from two files, read in parallel.\<close>

definition signal_ops ::
  "environment \<Rightarrow> (((skipping_read_iterator + skipping_read_iterator) zip_iterator, val) mapping_iterator, val, fstream \<times> fstream) iter_ops" where
  [simp]: "signal_ops env = mapping_ops False (two_world_ops (int_reader_ops env) (int_reader_ops env)) (spread reconstruct_tuple)"

definition signal_seq where
  "signal_seq env d1 d2 = mapping_seq (two_world_seq (file_seq d1 env (rl_entries ExampleRealm) int_ctype)
     (file_seq d2 env (rl_entries ExampleRealm) int_ctype)) (spread reconstruct_tuple)"

lemma signals:
  assumes env: "good_env env"
    and hits: "file_seq d1 env (rl_entries ExampleRealm) int_ctype (rg_begin r1) t1 (rg_end r1) (map int_val hits)"
    and esums: "file_seq d2 env (rl_entries ExampleRealm) int_ctype (rg_begin r2) t2 (rg_end r2) (map int_val esums)"
    and ok: "\<forall>(h, e) \<in> set (zip hits esums). fits_int (sint h + sint e)"
    and r: "r = map_range (zip_two (it_eq (int_reader_ops env)) (it_eq (int_reader_ops env)) r1 r2)"
  shows "input_iterator (signal_ops env) (signal_seq env d1 d2)" and "it_eq (signal_ops env) a a"
    and "signal_seq env d1 d2 (rg_begin r) (t1, t2) (rg_end r) (map int_val (map2 (+) hits esums))"
proof -
  let ?R = "int_reader_ops env" and ?e = "rl_entries ExampleRealm"
  let ?zseq = "two_world_seq (file_seq d1 env ?e int_ctype) (file_seq d2 env ?e int_ctype)"
  let ?zip = "zip_two (it_eq ?R) (it_eq ?R) r1 r2" and ?pairs = "map2 (\<lambda>u v. [Inl u, Inr v]) (map int_val hits) (map int_val esums)"
  note z = zip_two_worlds [OF file_iterator [OF env, of ?e int_ctype d1] file_iterator [OF env, of ?e int_ctype d2]
      skipping_read_refl skipping_read_refl]
  show "input_iterator (signal_ops env) (signal_seq env d1 d2)"
    unfolding signal_ops_def signal_seq_def by (rule input_iterator.mapping_iterator_seq [OF z(1)])
  show "it_eq (signal_ops env) a a"
    by (simp add: mapping_ops_def two_world_ops_def zip_ops_def zip_eq_def list_all2_same either_ops_def fst_world_def
        snd_world_def skipping_read_refl split: sum.splits)
  have zs: "?zseq (rg_begin ?zip) (t1, t2) (rg_end ?zip) ?pairs"
    by (rule z(2)) (simp_all only: fst_conv snd_conv hits esums)
  have "reconstruct_tuple [Inl (int_val h), Inr (int_val e)] = Inr (int_val (h + e))" if "(h, e) \<in> set (zip hits esums)" for h e
  proof -
    have "fits_int (sint h + sint e)" using ok that by blast
    then show ?thesis using int_add_eq [of h e] by (simp add: reconstruct_def int_val_def)
  qed
  then have "map (spread reconstruct_tuple) ?pairs = map Inr (map int_val (map2 (+) hits esums))"
    by (auto simp: zip_map_map spread_def spread_call_eq)
  from map_range_seq [of ?zseq, OF zs this]
  show "signal_seq env d1 d2 (rg_begin r) (t1, t2) (rg_end r) (map int_val (map2 (+) hits esums))"
    unfolding signal_seq_def r .
qed

lemma multi_input_files:
  assumes env: "good_env env" and files: "fs ''hit.bs'' = Some (int_file env hits)" "fs ''esum.bs'' = Some (int_file env esums)"
    and fuel: "length hits < fuel (env_cfg env)" "length esums < fuel (env_cfg env)"
    and room: "8 + 2 ^ 32 * length hits < 2 ^ 63 - 1" "8 + 2 ^ 32 * length esums < 2 ^ 63 - 1"
    and ok: "\<forall>(h, e) \<in> set (zip hits esums). fits_int (sint h + sint e)"
  shows "multi_input env fs =
    Inr (fs(''sig.bs'' \<mapsto> int_file env (filter (\<lambda>x. 3 < sint x) (map2 (+) hits esums))))"
proof -
  let ?k = "fuel (env_cfg env)" and ?e = "rl_entries ExampleRealm" and ?sums = "map2 (+) hits esums"
  let ?d1 = "int_file env hits" and ?d2 = "int_file env esums"
  have len: "length ?d1 < 2 ^ 63 - 1" "length ?d2 < 2 ^ 63 - 1"
    using length_int_file [OF env, of hits] length_int_file [OF env, of esums] room by linarith+
  from int_source [OF env refl len(1) fuel(1)] obtain s1 r1 t1 where
    h: "open_sequential_input_file env (Some ?d1) ExampleRealm = Inr s1"
      "read_one_type env ExampleRealm int_ctype s1 = Inr (r1, t1)"
      "file_seq ?d1 env ?e int_ctype (rg_begin r1) t1 (rg_end r1) (map int_val hits)" by blast
  from int_source [OF env refl len(2) fuel(2)] obtain s2 r2 t2 where
    e: "open_sequential_input_file env (Some ?d2) ExampleRealm = Inr s2"
      "read_one_type env ExampleRealm int_ctype s2 = Inr (r2, t2)"
      "file_seq ?d2 env ?e int_ctype (rg_begin r2) t2 (rg_end r2) (map int_val esums)" by blast
  note m = signals [OF env h(3) e(3) ok refl]
  have cuts: "filter cut (map int_val ?sums) = map int_val (filter (\<lambda>x. 3 < sint x) ?sums)"
    by (simp only: cut_def [abs_def] cut_ints)
  have "length (map int_val ?sums) < ?k" using fuel by simp
  from filter_range_seq [OF m(1,3) this m(2), of cut, unfolded cuts] obtain rg w where
    f: "filter_range ?k (signal_ops env) cut
        (map_range (zip_two (it_eq (int_reader_ops env)) (it_eq (int_reader_ops env)) r1 r2)) (t1, t2) = Inr (rg, w)"
      "filtering_seq ?k (signal_seq env ?d1 ?d2) cut (rg_begin rg) w (rg_end rg)
        (map int_val (filter (\<lambda>x. 3 < sint x) ?sums))"
    by blast
  obtain s where s: "open_sequential_output_file env (fs ''sig.bs'') ExampleRealm True = Inr s" "fs_appending s"
      "fs_data s = header_bytes (rl_id ExampleRealm)" using new_int_file by blast
  have "length (filter (\<lambda>x. 3 < sint x) ?sums) \<le> length hits"
    using length_filter_le [of "\<lambda>x. 3 < sint x" ?sums] by simp
  then have "length (filter (\<lambda>x. 3 < sint x) ?sums) < ?k" "8 + 2 ^ 32 * length (filter (\<lambda>x. 3 < sint x) ?sums) < 2 ^ 63 - 1"
    using fuel(1) room(1) by simp_all
  from copy_to_file [OF env input_iterator.filtering_iterator_seq [OF m(1)] f(2) this s(2,3)]
  show ?thesis
    using h(1,2) e(1,2) f(1) s(1) by (auto simp: multi_input_def files Let_def range_copy_def)
qed

lemma gen_loop_copies:
  "i \<le> 10 \<Longrightarrow> gen_loop env i s = out_copy (int_writer_ops env) (map (\<lambda>j. int_val (word_of_int j)) [i..9]) s"
proof (induction "nat (10 - i)" arbitrary: i s)
  case 0
  then show ?case by (simp add: gen_loop.simps)
next
  case (Suc n)
  then have i: "i < 10" by simp
  then have "[i..9] = i # [i + 1..9]" by (simp add: upto_rec1)
  moreover have "gen_loop env (i + 1) s' = out_copy (int_writer_ops env) (map (\<lambda>j. int_val (word_of_int j)) [i + 1..9]) s'" for s'
    using Suc i by simp
  then have "gen_loop env (i + 1) = out_copy (int_writer_ops env) (map (\<lambda>j. int_val (word_of_int j)) [i + 1..9])"
    by (rule ext)
  ultimately show ?case using i by (simp add: gen_loop.simps [of env i])
qed

lemma gen_src_files:
  assumes env: "good_env env"
  shows "gen_src env fs = Inr (fs(''raw.bs'' \<mapsto> int_file env [0, 1, 2, 3, 4, 5, 6, 7, 8, 9]))"
proof -
  obtain s where s: "open_sequential_output_file env (fs ''raw.bs'') ExampleRealm True = Inr s" "fs_appending s"
      "fs_data s = header_bytes (rl_id ExampleRealm)" using new_int_file by blast
  let ?ns = "[0, 1, 2, 3, 4, 5, 6, 7, 8, 9] :: 32 word list"
  have "file_room (length ?ns + 0) s" by (rule room_new_file [OF s(2,3)]) simp
  moreover have "list_all (storable int_ctype) (map int_val ?ns)" using storable_int by simp
  ultimately obtain s' where "out_copy (int_writer_ops env) (map int_val ?ns) s = Inr s'" "fs_data s' = int_file env ?ns"
    using sink.out_copy_written [OF file_sink [OF env, of int_ctype ExampleRealm], of "map int_val ?ns" 0 s]
    by (auto simp: int_file_eq s(3) simp del: list.map)
  moreover have "map (\<lambda>j. int_val (word_of_int j)) [0..9] = map int_val ?ns" by (simp add: upto_rec1)
  ultimately show ?thesis using s(1) gen_loop_copies [of 0 env s] by (simp add: gen_src_def)
qed

section \<open>Printing\<close>

definition printed :: "val \<Rightarrow> string" where
  "printed v = (case the_int v of Inr n \<Rightarrow> dec_int n @ newline | Inl e \<Rightarrow> [])"

interpretation cout: sink ostream_iterator_ops "\<lambda>n s. True" "\<lambda>s. s" "\<lambda>v. \<exists>n. v = int_val n" printed
  by unfold_locales (auto simp: ostream_iterator_ops_def mixin_incr_def printed_def int_val_def)

definition file_text :: "string \<Rightarrow> 32 word list \<Rightarrow> string" where
  "file_text name ns = name @ '':'' @ newline @ concat (map (\<lambda>n. dec_int n @ newline) ns) @ newline"

lemma dump_prints:
  assumes env: "good_env env"
  shows "\<forall>name \<in> set names. fs name = Some (int_file env (ints name)) \<and> length (ints name) < fuel (env_cfg env) \<and>
      8 + 2 ^ 32 * length (ints name) < 2 ^ 63 - 1 \<Longrightarrow>
    dump env fs names out = Inr (out @ concat (map (\<lambda>name. file_text name (ints name)) names))"
proof (induction names arbitrary: out)
  case (Cons name names)
  let ?d = "int_file env (ints name)" and ?k = "fuel (env_cfg env)" and ?vals = "map int_val (ints name)"
  have n: "fs name = Some ?d" "length (ints name) < ?k" "8 + 2 ^ 32 * length (ints name) < 2 ^ 63 - 1"
    using Cons.prems by simp_all
  then have "length ?d < 2 ^ 63 - 1" using length_int_file [OF env, of "ints name"] by linarith
  from int_source [OF env refl this n(2)] obtain s rg s1 where
    s: "open_sequential_input_file env (Some ?d) ExampleRealm = Inr s" "read_one_type env ExampleRealm int_ctype s = Inr (rg, s1)"
      "file_seq ?d env (rl_entries ExampleRealm) int_ctype (rg_begin rg) s1 (rg_end rg) ?vals" by blast
  have "list_all (\<lambda>v. \<exists>n. v = int_val n) ?vals" "length ?vals < ?k" using n(2) by (auto simp: list_all_iff)
  from cout.range_copy_written [OF file_iterator [OF env] s(3) this(2) TrueI this(1), where out = "out @ name @ '':'' @ newline"]
  obtain w where "range_copy ?k (int_reader_ops env) ostream_iterator_ops rg s1 (out @ name @ '':'' @ newline) =
      Inr ((out @ name @ '':'' @ newline) @ concat (map printed ?vals), w)"
    by (auto simp: range_copy_def)
  moreover have "concat (map printed ?vals) = concat (map (\<lambda>n. dec_int n @ newline) (ints name))"
    by (simp add: printed_def int_val_def comp_def)
  ultimately show ?case
    using Cons.IH Cons.prems n(1) s(1,2) by (simp add: file_text_def)
qed simp

lemma sums_in_range:
  fixes raws :: "32 word list"
  assumes "\<forall>r \<in> set raws. fits_int (sint r + 10)" and "cuts = filter (\<lambda>r. 3 < sint r) raws"
    and "hits = filter (\<lambda>h. sint h < 8) (map (\<lambda>r. r + 1) cuts)" and "esums = map (\<lambda>r. r + 2) cuts"
  shows "\<forall>(h, e) \<in> set (zip hits esums). fits_int (sint h + sint e)"
proof clarify
  fix h e
  assume "(h, e) \<in> set (zip hits esums)"
  then have "h \<in> set hits" "e \<in> set esums" by (auto dest: set_zip_leftD set_zip_rightD)
  then obtain a b where a: "a \<in> set raws" "3 < sint a" "h = a + 1" "sint h < 8"
      and b: "b \<in> set raws" "3 < sint b" "e = b + 2"
    using assms(2-4) by auto
  have "fits_int (sint a + 10)" "fits_int (sint b + 10)" using assms(1) a(1) b(1) by blast+
  then have "fits_int (sint a + sint (1 :: 32 word))" "fits_int (sint b + sint (2 :: 32 word))" "sint b < 2 ^ 31 - 10"
    using a(2) b(2) by (simp_all add: fits_int_def)
  then show "fits_int (sint h + sint e)"
    using int_add_eq [of a 1] int_add_eq [of b 2] a b by (simp add: fits_int_def)
qed

lemma digits: "dec_int 5 = ''5''" "dec_int 6 = ''6''" "dec_int 7 = ''7''" "dec_int 8 = ''8''" "dec_int 9 = ''9''"
  "dec_int 10 = ''10''" "dec_int 11 = ''11''" "dec_int 13 = ''13''" "dec_int 15 = ''15''"
  by code_simp+

end
