(* ===== verification/TornFiles.thy ===== *)
theory TornFiles
  imports SequentialFile Samples
begin

text \<open>
  Sequential files that end in the middle of a block, as an interrupted program leaves them. The
  iterators over such a file break: after the objects of the whole blocks an increment throws.
\<close>

section \<open>Iterators that break\<close>

text \<open>\<open>seq i w e vs\<close>: from iterator \<open>i\<close> the elements \<open>vs\<close>, at least one, are seen, and then incrementing throws.\<close>

locale breaking_iterator =
  fixes ops :: "('i, 'v, 'w) iter_ops" and seq :: "'i \<Rightarrow> 'w \<Rightarrow> 'i \<Rightarrow> 'v list \<Rightarrow> bool" and errors :: "error set"
  assumes not_empty: "seq i w e vs \<Longrightarrow> vs \<noteq> []"
    and at_more: "seq i w e vs \<Longrightarrow> \<not> it_eq ops i e"
    and deref: "seq i w e (v # vs) \<Longrightarrow> \<exists>i'. it_deref ops i = Inr (v, i') \<and> seq i' w e (v # vs)"
    and incr: "seq i w e (v # u # vs) \<Longrightarrow> \<exists>i' w'. it_incr ops i w = Inr (i', w') \<and> seq i' w' e (u # vs)"
    and breaks: "seq i w e [v] \<Longrightarrow> \<exists>x \<in> errors. it_incr ops i w = Inl x"

definition filtering_breaks ::
  "nat \<Rightarrow> ('i \<Rightarrow> 'w \<Rightarrow> 'i \<Rightarrow> 'a list \<Rightarrow> bool) \<Rightarrow> ('a \<Rightarrow> bool) \<Rightarrow>
   'i filtering_iterator \<Rightarrow> 'w \<Rightarrow> 'i filtering_iterator \<Rightarrow> 'a list \<Rightarrow> bool" where
  "filtering_breaks k seq pred m w e vs \<longleftrightarrow>
     (\<exists>us. seq (fi_it m) w (fi_it e) us \<and> vs = filter pred us \<and> length us < k \<and> fi_end m = fi_it e \<and> pred (hd us))"

context breaking_iterator begin

lemma collect_breaks: "seq i w e vs \<Longrightarrow> length vs < k \<Longrightarrow> \<exists>x \<in> errors. it_collect k ops i e w = Inl x"
proof (induction vs arbitrary: i w k)
  case Nil
  then show ?case using not_empty by blast
next
  case (Cons v vs)
  then obtain k' where k: "k = Suc k'" by (cases k) auto
  note more = at_more [OF Cons.prems(1)]
  obtain i1 where i1: "it_deref ops i = Inr (v, i1)" "seq i1 w e (v # vs)" using deref [OF Cons.prems(1)] by blast
  show ?case
  proof (cases vs)
    case Nil
    then show ?thesis using breaks [of i1 w e v] i1 more k by auto
  next
    case (Cons u us)
    then obtain i2 w2 where i2: "it_incr ops i1 w = Inr (i2, w2)" "seq i2 w2 e vs" using incr [of i1 w e v u us] i1(2) by blast
    then have "\<exists>x \<in> errors. it_collect k' ops i2 e w2 = Inl x" using Cons.IH [OF i2(2)] Cons.prems(2) k by simp
    then show ?thesis using i1(1) i2(1) more k by auto
  qed
qed

lemma mapping_breaks:
  "breaking_iterator (mapping_ops True ops f) (mapping_seq seq f) errors"
proof unfold_locales
  fix m w e vs
  show "mapping_seq seq f m w e vs \<Longrightarrow> vs \<noteq> []"
    using not_empty by (fastforce simp: mapping_seq_def)
  show "mapping_seq seq f m w e vs \<Longrightarrow> \<not> it_eq (mapping_ops True ops f) m e"
    using at_more by (auto simp: mapping_seq_def mapping_ops_def)
next
  fix m w e v vs
  assume "mapping_seq seq f m w e (v # vs)"
  then obtain u us where u: "seq (mi_it m) w (mi_it e) (u # us)" "f u = Inr v" "map f us = map Inr vs"
      "mi_value m = opt_empty \<or> mi_value m = opt_in_place v"
    by (auto simp: mapping_seq_def map_eq_Cons_conv)
  obtain i' where i': "it_deref ops (mi_it m) = Inr (u, i')" "seq i' w (mi_it e) (u # us)" using deref [OF u(1)] by blast
  show "\<exists>m'. it_deref (mapping_ops True ops f) m = Inr (v, m') \<and> mapping_seq seq f m' w e (v # vs)"
  proof (cases "mi_value m = opt_empty")
    case True
    then have "mapping_deref ops f m = Inr (v, m\<lparr>mi_it := i', mi_value := opt_in_place v\<rparr>)"
      using i' u(2) by (simp add: mapping_deref_def opt_emplace_abs opt_value_abs) (simp add: opt_empty_def)
    then show ?thesis using i'(2) u(2,3) by (auto simp: mapping_ops_def mapping_seq_def intro!: exI [of _ "u # us"])
  next
    case False
    then have "mi_value m = opt_in_place v" using u(4) by simp
    moreover from this have "mapping_deref ops f m = Inr (v, m)"
      by (simp add: mapping_deref_def opt_value_abs) (simp add: opt_in_place_def)
    ultimately show ?thesis using u(1-3) by (auto simp: mapping_ops_def mapping_seq_def intro!: exI [of _ "u # us"])
  qed
next
  fix m w e v u vs
  assume "mapping_seq seq f m w e (v # u # vs)"
  then obtain a b us where s: "seq (mi_it m) w (mi_it e) (a # b # us)" "f b = Inr u" "map f us = map Inr vs" "opt_inv (mi_value m)"
    by (auto simp: mapping_seq_def map_eq_Cons_conv)
  obtain i' w' where "it_incr ops (mi_it m) w = Inr (i', w')" "seq i' w' (mi_it e) (b # us)" using incr [OF s(1)] by blast
  then show "\<exists>m' w'. it_incr (mapping_ops True ops f) m w = Inr (m', w') \<and> mapping_seq seq f m' w' e (u # vs)"
    using s(2-4) by (auto simp: mapping_ops_def mapping_incr_def mapping_seq_def opt_assign_null_abs intro!: exI [of _ "b # us"])
next
  fix m w e v
  assume "mapping_seq seq f m w e [v]"
  then obtain a where s: "seq (mi_it m) w (mi_it e) [a]" "opt_inv (mi_value m)"
    by (auto simp: mapping_seq_def map_eq_Cons_conv)
  then show "\<exists>x \<in> errors. it_incr (mapping_ops True ops f) m w = Inl x"
    using breaks [OF s(1)] by (auto simp: mapping_ops_def mapping_incr_def opt_assign_null_abs)
qed

text \<open>Skipping either finds an element or breaks.\<close>

lemma forward_skip_breaks:
  assumes "seq (fi_it m) w (fi_it fe) us" and "fi_end m = fi_it fe" and "length us < k"
  shows "if filter pred us = [] then \<exists>x \<in> errors. forward_skip k ops pred m w = Inl x
    else \<exists>m' w'. forward_skip k ops pred m w = Inr (m', w') \<and> filtering_breaks k seq pred m' w' fe (filter pred us)"
proof -
  have "if filter pred us = [] then \<exists>x \<in> errors. forward_skip k ops pred m w = Inl x
    else \<exists>m' w' us'. forward_skip k ops pred m w = Inr (m', w') \<and> seq (fi_it m') w' (fi_it fe) us' \<and>
      fi_end m' = fi_it fe \<and> pred (hd us') \<and> filter pred us' = filter pred us \<and> length us' \<le> length us"
    using assms
  proof (induction us arbitrary: m w k)
    case Nil
    then show ?case using not_empty by blast
  next
    case (Cons u us)
    then obtain k' where k: "k = Suc k'" by (cases k) auto
    have ne: "\<not> it_eq ops (fi_it m) (fi_end m)" using at_more [OF Cons.prems(1)] Cons.prems(2) by simp
    obtain i1 where i1: "it_deref ops (fi_it m) = Inr (u, i1)" "seq i1 w (fi_it fe) (u # us)"
      using deref [OF Cons.prems(1)] by blast
    show ?case
    proof (cases "pred u")
      case True
      then show ?thesis using ne i1 k Cons.prems(2) by (auto intro!: exI [of _ "u # us"])
    next
      case F: False
      show ?thesis
      proof (cases us)
        case Nil
        then show ?thesis using breaks [of i1 w "fi_it fe" u] i1 ne k F by auto
      next
        case (Cons v vs)
        then obtain i2 w2 where i2: "it_incr ops i1 w = Inr (i2, w2)" "seq i2 w2 (fi_it fe) us"
          using incr [of i1 w "fi_it fe" u v vs] i1(2) by blast
        have step: "forward_skip k ops pred m w = forward_skip k' ops pred (m\<lparr>fi_it := i2\<rparr>) w2"
          using ne i1(1) i2(1) F k by simp
        have "seq (fi_it (m\<lparr>fi_it := i2\<rparr>)) w2 (fi_it fe) us" "fi_end (m\<lparr>fi_it := i2\<rparr>) = fi_it fe" "length us < k'"
          using i2(2) Cons.prems(2,3) k by simp_all
        note IH = Cons.IH [OF this]
        show ?thesis
        proof (cases "filter pred us = []")
          case True
          then show ?thesis using IH F by (simp add: step)
        next
          case ne: False
          with IH obtain m' w' us' where "forward_skip k' ops pred (m\<lparr>fi_it := i2\<rparr>) w2 = Inr (m', w')"
            "seq (fi_it m') w' (fi_it fe) us'" "fi_end m' = fi_it fe" "pred (hd us')"
            "filter pred us' = filter pred us" "length us' \<le> length us" by auto
          then show ?thesis using F ne by (auto simp: step intro!: exI [of _ us'])
        qed
      qed
    qed
  qed
  note skip = this
  show ?thesis
  proof (cases "filter pred us = []")
    case True
    then show ?thesis using skip by simp
  next
    case False
    with skip obtain m' w' us' where o: "forward_skip k ops pred m w = Inr (m', w')" "seq (fi_it m') w' (fi_it fe) us'"
      "fi_end m' = fi_it fe" "pred (hd us')" "filter pred us' = filter pred us" "length us' \<le> length us" by auto
    then have "filtering_breaks k seq pred m' w' fe (filter pred us)"
      unfolding filtering_breaks_def using assms(3) by (intro exI [of _ us']) simp
    with o(1) False show ?thesis by simp
  qed
qed

lemma filtering_iterator_breaks: "breaking_iterator (filtering_ops k ops pred) (filtering_breaks k seq pred) errors"
proof unfold_locales
  fix m w e vs
  assume "filtering_breaks k seq pred m w e vs"
  then obtain us where us: "seq (fi_it m) w (fi_it e) us" "vs = filter pred us" "pred (hd us)"
    by (auto simp: filtering_breaks_def)
  then obtain u us' where "us = u # us'" using not_empty by (cases us) auto
  then show "vs \<noteq> []" "\<not> it_eq (filtering_ops k ops pred) m e"
    using us at_more [OF us(1)] by (simp_all add: filtering_ops_def)
next
  fix m w e v vs
  assume h: "filtering_breaks k seq pred m w e (v # vs)"
  then obtain us0 where us0: "seq (fi_it m) w (fi_it e) us0" "v # vs = filter pred us0" "length us0 < k"
      "fi_end m = fi_it e" "pred (hd us0)" by (auto simp: filtering_breaks_def)
  then obtain us where us: "us0 = v # us" using not_empty by (cases us0) auto
  obtain i' where i': "it_deref ops (fi_it m) = Inr (v, i')" "seq i' w (fi_it e) (v # us)"
    using deref us0(1) us by blast
  have "filtering_breaks k seq pred (m\<lparr>fi_it := i'\<rparr>) w e (v # vs)"
    unfolding filtering_breaks_def using us0 us i'(2) by (intro exI [of _ us0]) simp
  then show "\<exists>m'. it_deref (filtering_ops k ops pred) m = Inr (v, m') \<and> filtering_breaks k seq pred m' w e (v # vs)"
    using i'(1) by (simp add: filtering_ops_def)
next
  have step: "if vs = [] then \<exists>x \<in> errors. it_incr (filtering_ops k ops pred) m w = Inl x
      else \<exists>m' w'. it_incr (filtering_ops k ops pred) m w = Inr (m', w') \<and> filtering_breaks k seq pred m' w' e vs"
    if "filtering_breaks k seq pred m w e (v # vs)" for m w e v vs
  proof -
    obtain us0 where us0: "seq (fi_it m) w (fi_it e) us0" "v # vs = filter pred us0" "length us0 < k"
        "fi_end m = fi_it e" "pred (hd us0)"
      using \<open>filtering_breaks k seq pred m w e (v # vs)\<close> by (auto simp: filtering_breaks_def)
    then obtain us where us: "us0 = v # us" "vs = filter pred us" using not_empty by (cases us0) auto
    show ?thesis
    proof (cases us)
      case Nil
      then show ?thesis using breaks [of "fi_it m" w "fi_it e" v] us0(1) us by (auto simp: filtering_ops_def)
    next
      case (Cons b bs)
      then obtain i2 w2 where i2: "it_incr ops (fi_it m) w = Inr (i2, w2)" "seq i2 w2 (fi_it e) us"
        using incr [of "fi_it m" w "fi_it e" v b bs] us0(1) us by blast
      from forward_skip_breaks [of "m\<lparr>fi_it := i2\<rparr>" w2 e us k pred] i2 us0(3,4) us
      show ?thesis by (simp add: filtering_ops_def split: if_splits)
    qed
  qed
  fix m w e v u vs
  show "filtering_breaks k seq pred m w e (v # u # vs) \<Longrightarrow>
      \<exists>m' w'. it_incr (filtering_ops k ops pred) m w = Inr (m', w') \<and> filtering_breaks k seq pred m' w' e (u # vs)"
    using step [of m w e v "u # vs"] by simp
  show "filtering_breaks k seq pred m w e [v] \<Longrightarrow> \<exists>x \<in> errors. it_incr (filtering_ops k ops pred) m w = Inl x"
    using step [of m w e v "[]"] by simp
qed

end

section \<open>A stream of objects that is cut off\<close>

text \<open>What is left in the stream is whole objects and a proper prefix of another one.\<close>

definition cut_off :: "ty \<Rightarrow> byte list \<Rightarrow> bool" where
  "cut_off t part \<longleftrightarrow> (\<exists>v k. encodable t v \<and> part = take k (encode t v) \<and> 0 < k \<and> k < length (encode t v))"

definition parse_iter_breaks ::
  "('s \<Rightarrow> bool) \<Rightarrow> ('s \<Rightarrow> byte list) \<Rightarrow> ty \<Rightarrow> parse_iter \<Rightarrow> 's \<Rightarrow> parse_iter \<Rightarrow> val list \<Rightarrow> bool" where
  "parse_iter_breaks ok rem t i w e vs \<longleftrightarrow> \<not> pi_live e \<and> pi_live i \<and>
     (\<exists>us part. vs = pi_value i # us \<and> ok w \<and> rem w = concat (map (encode t) us) @ part \<and>
        (\<forall>u \<in> set us. encodable t u) \<and> cut_off t part)"

context ending_stream begin

lemma incr_breaks:
  assumes cfg: "fuel_enough cfg" and w: "ok w" "rem w = part" "cut_off t part"
  shows "\<exists>x \<in> eof_errors. parse_iter_incr cfg ops t \<lparr>pi_live = True, pi_value = v\<rparr> w = Inl x"
proof -
  obtain u k where u: "encodable t u" "part = take k (encode t u)" "0 < k" "k < length (encode t u)"
    using w(3) by (auto simp: cut_off_def)
  then have "rem w \<noteq> []" using w(2) by auto
  then obtain w1 where w1: "peek_for_eof ops w = Inr (False, w1)" "ok w1" "rem w1 = take k (encode t u)"
    using peek_eof [OF w(1)] w(2) u(2) by auto
  then have "\<exists>x \<in> eof_errors. parse cfg ops t w1 = Inl x"
    using starved_parse [OF cfg u(1)] u(4) unfolding starves_def by blast
  then show ?thesis using w1(1) by (auto simp: parse_iter_incr_def)
qed

lemma parse_iterator_breaks:
  assumes "fuel_enough cfg"
  shows "breaking_iterator (parse_iterator_ops cfg ops t) (parse_iter_breaks ok rem t) eof_errors"
proof unfold_locales
  fix i w e vs
  show "parse_iter_breaks ok rem t i w e vs \<Longrightarrow> vs \<noteq> []" by (auto simp: parse_iter_breaks_def)
  show "parse_iter_breaks ok rem t i w e vs \<Longrightarrow> \<not> it_eq (parse_iterator_ops cfg ops t) i e"
    by (simp add: parse_iter_breaks_def parse_iterator_ops_def)
next
  fix i w e v vs
  show "parse_iter_breaks ok rem t i w e (v # vs) \<Longrightarrow>
      \<exists>i'. it_deref (parse_iterator_ops cfg ops t) i = Inr (v, i') \<and> parse_iter_breaks ok rem t i' w e (v # vs)"
    by (auto simp: parse_iter_breaks_def parse_iterator_ops_def)
next
  fix i w e v u vs
  assume "parse_iter_breaks ok rem t i w e (v # u # vs)"
  then obtain part where h: "\<not> pi_live e" "pi_live i" "pi_value i = v" "ok w"
      "rem w = encode t u @ (concat (map (encode t) vs) @ part)"
      "encodable t u" "\<forall>u \<in> set vs. encodable t u" "cut_off t part"
    by (auto simp: parse_iter_breaks_def)
  from iter_incr_next [OF assms h(6,4,5), of v] obtain w' where
    "parse_iter_incr cfg ops t i w = Inr (\<lparr>pi_live = True, pi_value = u\<rparr>, w')" "ok w'"
    "rem w' = concat (map (encode t) vs) @ part"
    using parse_iter_live [OF h(2)] h(3) by auto
  then show "\<exists>i' w'. it_incr (parse_iterator_ops cfg ops t) i w = Inr (i', w') \<and> parse_iter_breaks ok rem t i' w' e (u # vs)"
    using h by (auto simp: parse_iterator_ops_def parse_iter_breaks_def)
next
  fix i w e v
  assume "parse_iter_breaks ok rem t i w e [v]"
  then obtain part where "pi_live i" "ok w" "rem w = part" "cut_off t part"
    by (auto simp: parse_iter_breaks_def)
  then show "\<exists>x \<in> eof_errors. it_incr (parse_iterator_ops cfg ops t) i w = Inl x"
    using incr_breaks [OF assms, of w part t "pi_value i"] parse_iter_live [of i] by (simp add: parse_iterator_ops_def)
qed

text \<open>The first increment, made by the constructor of the iterator.\<close>

lemma begin_breaks:
  assumes cfg: "fuel_enough cfg" and w: "ok w" "rem w = concat (map (encode t) us) @ part"
    and us: "\<forall>u \<in> set us. encodable t u" and part: "cut_off t part" and e: "\<not> pi_live e"
  shows "if us = [] then \<exists>x \<in> eof_errors. parse_iter_begin cfg ops t w = Inl x
    else \<exists>i w'. parse_iter_begin cfg ops t w = Inr (i, w') \<and> parse_iter_breaks ok rem t i w' e us"
proof (cases us)
  case Nil
  then show ?thesis using incr_breaks [OF cfg w(1) _ part] w(2) by (simp add: parse_iter_begin_def)
next
  case (Cons u us')
  then have "rem w = encode t u @ (concat (map (encode t) us') @ part)" "encodable t u" using w(2) us by simp_all
  from iter_incr_next [OF cfg this(2) w(1) this(1), of "value_init t"] show ?thesis
    using Cons us part e by (auto simp: parse_iter_begin_def parse_iter_breaks_def)
qed

end

text \<open>The iterator over the objects of a file, with the stack and the loop bounds of the samples.\<close>

interpretation torn_blocks: breaking_iterator "parse_iterator_ops debug_cfg fs_ops t"
  "parse_iter_breaks (fs_ok d) fs_rem t" "{EarlyEof, IosFailure}"
  by (rule fs.parse_iterator_breaks [OF fuel_enough_debug])

section \<open>Reading a file that is cut off\<close>

context ending_stream begin

lemma skipping_read_breaks:
  assumes env: "good_env env" and "realm_ok entries" and "T \<in> snd ` set entries"
    and items: "items_ok entries items"
    and s: "ok s" "rem s = concat (map (stored_bytes env entries) items) @ part" and part: "cut_off block_ty part"
    and fuel: "length items < fuel (env_cfg env)" and k: "length items < k"
  shows "\<exists>x \<in> eof_errors. rbind (skipping_read_begin env ops entries T s) (\<lambda>(i, s1).
      it_collect k (skipping_read_ops env ops entries T) i skipping_read_end s1) = Inl x"
proof -
  let ?cfg = "env_cfg env" and ?vals = "map (stored_val env entries) items" and ?k = "fuel (env_cfg env)"
  let ?pred = "check_id (type_id T entries)" and ?pops = "parse_iterator_ops (env_cfg env) ops block_ty"
  let ?fe = "\<lparr>fi_it = parse_end, fi_end = parse_end\<rparr>" and ?seq = "parse_iter_breaks ok rem block_ty"
  have cfg: "fuel_enough ?cfg" using env by (simp add: good_env_def)
  have enc: "\<forall>u \<in> set ?vals. encodable block_ty u"
    using items stored_block_encodable [OF env] by (auto simp: items_ok_def stored_val_def)
  have bytes: "rem s = concat (map (encode block_ty) ?vals) @ part" by (simp only: stored_vals_bytes s(2))
  have e: "\<not> pi_live parse_end" by (simp add: parse_end_def)
  note first = begin_breaks [OF cfg s(1) bytes enc part e]
  note br = parse_iterator_breaks [OF cfg, of block_ty]
  show ?thesis
  proof (cases "items = []")
    case True
    then show ?thesis using first by (auto simp: skipping_read_begin_def)
  next
    case False
    then obtain it s1 where it: "parse_iter_begin ?cfg ops block_ty s = Inr (it, s1)" "?seq it s1 parse_end ?vals"
      using first by auto
    have skip: "if filter ?pred ?vals = []
      then \<exists>x \<in> eof_errors. make_filtering_iterator ?k ?pops ?pred it parse_end s1 = Inl x
      else \<exists>m s2. make_filtering_iterator ?k ?pops ?pred it parse_end s1 = Inr (m, s2) \<and>
        filtering_breaks ?k ?seq ?pred m s2 ?fe (filter ?pred ?vals)"
      using breaking_iterator.forward_skip_breaks [OF br, of "\<lparr>fi_it = it, fi_end = parse_end\<rparr>" s1 ?fe ?vals ?k ?pred] it(2) fuel
      by (simp add: make_filtering_iterator_def)
    show ?thesis
    proof (cases "filter ?pred ?vals = []")
      case True
      then show ?thesis using skip it(1) by (auto simp: skipping_read_begin_def)
    next
      case False
      with skip obtain m s2 where m: "make_filtering_iterator ?k ?pops ?pred it parse_end s1 = Inr (m, s2)"
        "filtering_breaks ?k ?seq ?pred m s2 ?fe (filter ?pred ?vals)" by auto
      have "mapping_seq (filtering_breaks ?k ?seq ?pred) (parse_from_block env T) (make_mapping_iterator m) s2
          skipping_read_end (items_of T items)"
        using m(2) filter_stored [OF env assms(2,3) items]
        by (auto simp: mapping_seq_def skipping_read_end_def make_mapping_iterator_def)
      moreover have "length (items_of T items) < k"
        using le_less_trans [OF length_filter_le k] by (simp add: items_of_def)
      ultimately have "\<exists>x \<in> eof_errors. it_collect k (skipping_read_ops env ops entries T) (make_mapping_iterator m)
          skipping_read_end s2 = Inl x"
        unfolding skipping_read_ops_def
        by (rule breaking_iterator.collect_breaks [OF breaking_iterator.mapping_breaks
              [OF breaking_iterator.filtering_iterator_breaks [OF br]]])
      then show ?thesis using it(1) m(1) by (simp add: skipping_read_begin_def)
    qed
  qed
qed

lemma starved_check_file:
  assumes "fuel_enough (env_cfg env)"
  shows "starved (check_file env ops r) (header_bytes i)"
  using starves_map [OF starved_parse [OF assms header_encodable, of i],
      of "\<lambda>v. header_eq \<lparr>fh_magic = magic, fh_realm = rl_id r\<rparr> (header_of v)"]
  by (simp add: check_file_def [abs_def] encode_header)

end

lemma take_concat:
  "n \<le> length (concat xss) \<Longrightarrow> \<forall>xs \<in> set xss. xs \<noteq> [] \<Longrightarrow>
   \<exists>k part. take n (concat xss) = concat (take k xss) @ part \<and> (part = [] \<or>
     k < length xss \<and> (\<exists>j. part = take j (xss ! k) \<and> 0 < j \<and> j < length (xss ! k)))"
proof (induction xss arbitrary: n)
  case (Cons xs xss)
  show ?case
  proof (cases "n < length xs")
    case True
    show ?thesis
    proof (cases "n = 0")
      case True
      then show ?thesis by (intro exI [of _ 0] exI [of _ "[]"]) simp
    next
      case False
      then show ?thesis using True by (intro exI [of _ 0] exI [of _ "take n xs"]) auto
    qed
  next
    case False
    then have "n - length xs \<le> length (concat xss)" using Cons.prems(1) by simp
    then obtain k part where kp: "take (n - length xs) (concat xss) = concat (take k xss) @ part"
      "part = [] \<or> k < length xss \<and> (\<exists>j. part = take j (xss ! k) \<and> 0 < j \<and> j < length (xss ! k))"
      using Cons.IH [of "n - length xs"] Cons.prems(2) by auto
    then show ?thesis using False by (intro exI [of _ "Suc k"] exI [of _ part]) auto
  qed
qed simp

lemma read_broken_header:
  assumes "fuel_enough (env_cfg env)" and "n < 8"
  shows "\<exists>x \<in> {EarlyEof, IosFailure}. open_sequential_input_file env (Some (take n (header_bytes i))) r = Inl x"
proof -
  let ?d = "take n (header_bytes i)"
  define s0 where "s0 = (ifstream_open (Some ?d))\<lparr>fs_throw := True\<rparr>"
  have "fs_ok ?d s0" "fs_rem s0 = ?d"
    using assms(2) by (simp_all add: s0_def ifstream_open_def fs_good_def fs_ok_def fs_rem_def)
  then have "\<exists>x \<in> {EarlyEof, IosFailure}. check_file env fs_ops r s0 = Inl x"
    using fs.starved_check_file [OF assms(1), of ?d r i] assms(2) unfolding starves_def by fastforce
  moreover have "fs_exceptions (ifstream_open (Some ?d)) = Inr s0"
    unfolding s0_def by (rule fs_exceptions_ok) (simp add: ifstream_open_def)
  ultimately show ?thesis by (auto simp: open_sequential_input_file_def)
qed

lemma stored_cut_off:
  assumes "good_env env" and "storable T v" and "part = take j (stored_bytes env entries (T, v))"
    and "0 < j" and "j < length (stored_bytes env entries (T, v))"
  shows "cut_off block_ty part"
  unfolding cut_off_def
  by (intro exI [of _ "block_val (stored_block env entries T v)"] exI [of _ j])
    (use stored_block_encodable [OF assms(1,2), of entries] assms(3-5) in \<open>simp add: stored_bytes_def encode_block_val\<close>)

lemma read_torn:
  assumes env: "good_env env" and realm: "realm_ok (rl_entries r)" and items: "items_ok (rl_entries r) items"
    and T: "T \<in> snd ` set (rl_entries r)" and fuel: "length items < fuel (env_cfg env)"
    and d: "d = header_bytes (rl_id r) @ concat (map (stored_bytes env (rl_entries r)) (take k items)) @ part"
    and part: "cut_off block_ty part" and len: "length d < 2 ^ 63 - 1"
  shows "\<exists>x \<in> {EarlyEof, IosFailure}. read_session env r T (Some d) = Inl x"
proof -
  have cfg: "fuel_enough (env_cfg env)" using env by (simp add: good_env_def)
  obtain s where s: "open_sequential_input_file env (Some d) r = Inr s" "fs_ok d s"
      "fs_rem s = concat (map (stored_bytes env (rl_entries r)) (take k items)) @ part"
    using open_for_reading(1) [OF cfg d len refl] by blast
  have "items_ok (rl_entries r) (take k items)" using items by (auto simp: items_ok_def dest: in_set_takeD)
  moreover have "length (take k items) < fuel (env_cfg env)" using fuel by simp
  ultimately have "\<exists>x \<in> {EarlyEof, IosFailure}. rbind (skipping_read_begin env fs_ops (rl_entries r) T s) (\<lambda>(i, s1).
      it_collect (fuel (env_cfg env)) (skipping_read_ops env fs_ops (rl_entries r) T) i skipping_read_end s1) = Inl x"
    using fs.skipping_read_breaks [OF env realm T _ s(2,3) part] by blast
  then show ?thesis
    using s(1) by (auto simp: read_session_def read_one_type_def range_elems_def make_range_def rbind_Inl_iff split: prod.splits)
qed

text \<open>A file with its end cut off is a header and whole blocks, or these and a part of a block, or less than a header.\<close>

lemma take_file:
  assumes "good_env env" and items: "items_ok (rl_entries r) items" and n: "n \<le> length (file_bytes env r items)"
  obtains (header) "n < 8" "take n (file_bytes env r items) = take n (header_bytes (rl_id r))"
    | (whole) k where "n = length (file_bytes env r (take k items))"
    | (torn) k part where "cut_off block_ty part"
        "take n (file_bytes env r items) =
           header_bytes (rl_id r) @ concat (map (stored_bytes env (rl_entries r)) (take k items)) @ part"
proof (cases "n < 8")
  case True
  then show thesis using header by (simp add: file_bytes_def)
next
  case False
  define xss where "xss = map (stored_bytes env (rl_entries r)) items"
  have "n - 8 \<le> length (concat xss)" using n False by (simp add: file_bytes_def xss_def)
  moreover have "\<forall>xs \<in> set xss. xs \<noteq> []"
    by (auto simp: xss_def stored_bytes_def block_bytes_def)
  ultimately obtain k part where kp: "take (n - 8) (concat xss) = concat (take k xss) @ part"
    "part = [] \<or> k < length xss \<and> (\<exists>j. part = take j (xss ! k) \<and> 0 < j \<and> j < length (xss ! k))"
    using take_concat by blast
  have d: "take n (file_bytes env r items) =
      header_bytes (rl_id r) @ concat (map (stored_bytes env (rl_entries r)) (take k items)) @ part"
    using False kp(1) by (simp add: file_bytes_def xss_def take_map)
  show thesis
  proof (cases "part = []")
    case True
    then have "take n (file_bytes env r items) = file_bytes env r (take k items)" using d by (simp add: file_bytes_def)
    then have "n = length (file_bytes env r (take k items))" using n by (metis length_take min.absorb2)
    then show thesis by (rule whole)
  next
    case False
    then obtain j where k: "k < length items" and j: "part = take j (xss ! k)" "0 < j" "j < length (xss ! k)"
      using kp(2) by (auto simp: xss_def)
    moreover obtain T v where Tv: "items ! k = (T, v)" by fastforce
    moreover have "storable T v" using nth_mem [OF k] items Tv by (auto simp: items_ok_def)
    ultimately have "cut_off block_ty part"
      using stored_cut_off [OF assms(1), of T v part j "rl_entries r"] by (simp add: xss_def)
    then show thesis using torn d by blast
  qed
qed

lemma read_truncated:
  assumes "good_env env" and "realm_ok (rl_entries r)" and "T \<in> snd ` set (rl_entries r)"
    and "items_ok (rl_entries r) items" and "length items < fuel (env_cfg env)"
    and "length (file_bytes env r items) < 2 ^ 63 - 1" and "n \<le> length (file_bytes env r items)"
    and no_end: "\<And>k. n \<noteq> length (file_bytes env r (take k items))"
  shows "\<exists>x \<in> {EarlyEof, IosFailure}. read_session env r T (Some (take n (file_bytes env r items))) = Inl x"
proof (rule take_file [OF assms(1,4,7)])
  assume "n < 8" and d: "take n (file_bytes env r items) = take n (header_bytes (rl_id r))"
  moreover have "fuel_enough (env_cfg env)" using assms(1) by (simp add: good_env_def)
  ultimately show ?thesis
    using read_broken_header [of env n "rl_id r" r] by (auto simp: read_session_def)
next
  fix k
  assume "n = length (file_bytes env r (take k items))"
  then show ?thesis using no_end by blast
next
  fix k part
  assume part: "cut_off block_ty part" and d: "take n (file_bytes env r items) =
      header_bytes (rl_id r) @ concat (map (stored_bytes env (rl_entries r)) (take k items)) @ part"
  have "length (take n (file_bytes env r items)) < 2 ^ 63 - 1" using assms(6) by (simp add: min_def)
  then show ?thesis by (rule read_torn [OF assms(1,2,4,3,5) d part])
qed

end
