(* ===== verification/Spec2Isabelle.thy ===== *)
theory Spec2Isabelle
  imports SerializerProperties StorageProperties UtilityProperties Examples TornFiles
begin

text \<open>
  bamboo-shoot3 (bs3): a C++ library that serializes objects (pbss), stores them in files (pbsf)
  and brings the utilities both are built from (utils).

  \<^bold>\<open>How the program fits together.\<close> \<^verbatim>\<open>pbss::serialize\<close> and \<^verbatim>\<open>pbss::parse\<close> are templates over the
  type of the object and over a stream. The stream is a \<^verbatim>\<open>char_range_writer\<close> or
  \<^verbatim>\<open>char_range_reader\<close> on memory, or a standard file stream. Integers of variable length count
  elements and bytes; structs are plain sequences of members or tagged sequences, whose readers
  skip tags they do not know. A data block of pbsf is the serialization of an object, compressed
  by a wrapper around zstd or LZO if that makes it shorter, with the CRC-32C of the raw bytes and
  the number its type has in the file's realm. The block itself is again serialized by pbss, as a
  struct. A sequential file is a header followed by blocks, read through a filtering and a mapping
  iterator of utils. An indexed file has, besides the blocks of its objects, a block with the map
  from keys to positions and a last block of known size with the position of that map.

  \<^bold>\<open>Theories and sources\<close> (paths under \<^verbatim>\<open>include/bs3\<close> unless they start with \<^verbatim>\<open>src\<close>). A definition
  has the name of the function it models; the constructor or operator of a class \<^verbatim>\<open>c\<close> is prefixed
  with a short form of \<^verbatim>\<open>c\<close>.

  \<^item> \<open>Prelude\<close>: bytes, the errors (one constructor for each exception of \<^verbatim>\<open>pbss/pbss.hh\<close>,
    \<^verbatim>\<open>pbsf/defs.hh\<close> and of the standard library), the result type, the build configuration,
    little-endian words.
  \<^item> \<open>Misc\<close>, \<open>Functional\<close>: \<^verbatim>\<open>utils/misc.hh\<close>, \<^verbatim>\<open>functional.hh\<close>, \<^verbatim>\<open>tuple-util.hh\<close>, \<^verbatim>\<open>bp-14.hh\<close>.
  \<^item> \<open>Optional\<close>: \<^verbatim>\<open>utils/optional.hh\<close>, \<^verbatim>\<open>lazy-value.hh\<close>. The storage of the value is a field of its
    own, so that reading it when there is no value is an error of the model.
  \<^item> \<open>Iterators\<close>, \<open>Writers\<close>: \<^verbatim>\<open>utils/iter-util.hh\<close>. An iterator type is a record of its operations,
    an adaptor a function between such records; the world behind an iterator (a stream, say) is
    passed along. An assignment of an rvalue to an output iterator also gives what it leaves of the
    value.
  \<^item> \<open>Ranges\<close>, \<open>RangeFacts\<close>: \<^verbatim>\<open>utils/range.hh\<close>, \<^verbatim>\<open>range-util.hh\<close>, \<^verbatim>\<open>type-traits.hh\<close>.
  \<^item> \<open>Streams\<close>: \<^verbatim>\<open>pbss/char-range-reader.hh\<close>, \<^verbatim>\<open>char-range-writer.hh\<close>, \<^verbatim>\<open>utils/peek-for-eof.hh\<close>. A
    stream type is a record of its operations; reader and writer are cursors into a list of bytes,
    whose checks are those of the code and whose accesses out of the range are errors of the
    model.
  \<^item> \<open>FileStream\<close>: \<^verbatim>\<open>std::fstream\<close> and \<^verbatim>\<open>std::ifstream\<close> as the C++ standard describes them: one
    position, the state bits, the exception mask.
  \<^item> \<open>VarUint\<close>, \<open>Primitives\<close>, \<open>Sequences\<close>, \<open>TaggedStruct\<close>: \<^verbatim>\<open>pbss/impl\<close>, by header; \<open>StaticSizes\<close>:
    \<^verbatim>\<open>pbss-size.hh\<close> and the wrappers \<^verbatim>\<open>var-uint.hh\<close> and \<^verbatim>\<open>uninitialized-byte.hh\<close>.
  \<^item> \<open>Pbss\<close>: \<^verbatim>\<open>pbss/pbss.hh\<close>. The types with an overload of \<^verbatim>\<open>serialize\<close> are the datatype \<open>ty\<close>,
    their objects the datatype \<open>val\<close>, and overload resolution is one equation for each constructor
    of \<open>ty\<close>.
  \<^item> \<open>Crc32\<close>, \<open>ErrorDetection\<close>: \<^verbatim>\<open>src/pbsf/crc-32.cc\<close>, \<^verbatim>\<open>pbsf/crc-32.hh\<close>. \<open>Codec\<close>: the wrappers
    \<^verbatim>\<open>src/pbsf/*-wrap.cc\<close>.
  \<^item> \<open>DataBlock\<close>: \<^verbatim>\<open>pbsf/data-block.hh\<close>, \<^verbatim>\<open>realm.hh\<close>, \<^verbatim>\<open>defs.hh\<close>, \<^verbatim>\<open>src/pbsf/data-block.cc\<close>.
    \<open>SequentialFile\<close>: \<^verbatim>\<open>pbsf/file-header.hh\<close>, \<^verbatim>\<open>range-api.hh\<close>. \<open>IndexedFile\<close>:
    \<^verbatim>\<open>pbsf/indexed-file.hh\<close>, over \<open>OrderedMap\<close>, which is \<^verbatim>\<open>std::map\<close> as a sorted association list.
  \<^item> \<open>Pipelines\<close>, \<open>Examples\<close>: the programs of \<^verbatim>\<open>example/\<close> at the top of the repository, functions
    of a map from file names to contents.
  \<^item> \<open>Samples\<close>, \<open>FileSamples\<close>, \<open>KeyTypes\<close>: concrete types, realms, keys and libraries.

  \<^bold>\<open>What the lemmas show.\<close> The interfaces are locales, interpreted where a component provides
  them. \<open>input_stream\<close>, \<open>ending_stream\<close> and \<open>output_stream\<close> (\<open>Streams\<close>) say what the serializer
  relies on; memory and file streams provide them. Inside them every writer is shown to emit its
  format (\<open>emits\<close>), every reader to invert it (\<open>parses\<close>), and to report an early end when the
  input is cut off (\<open>starves\<close>): first for integers, sequences and structs given what their
  elements do, then for all types by one induction (\<open>PbssFacts\<close>, \<open>PbssTheorems\<close>, \<open>FieldOrder\<close>).
  \<open>Safety\<close> and \<open>TypeSoundness\<close> take any input whatever, and so does \<open>StreamAgreement\<close>, which shows
  that any two streams of the contract (\<open>two_streams\<close>) are parsed alike, a file and its contents in
  memory among them; \<open>ParserLimits\<close> gives what becomes of overlong integers, of counts beyond
  an array, and of the elements of an unordered container, which come back as a set. \<open>input_iterator\<close>, \<open>pure_iterator\<close> and \<open>sink\<close> are the contracts of iterators, from
  which the elements of every adaptor and range follow; \<open>zippable\<close> adds that zipped iterators do
  not disturb each other. \<open>Pipelines\<close> shows that the reader of a file is an input iterator and its
  writer a sink, so that what a program built from the parts computes is put together from the
  contracts. \<open>ordered_keys\<close> is the contract of a key's comparison; the integers and strings of
  \<open>KeyTypes\<close> provide it. \<open>Crc32\<close> relates the table and the processor's instruction to polynomial
  division bit by bit. \<open>DataBlockFacts\<close> proves that blocks survive encoding, writing and filtering
  by type, \<open>SequentialFile\<close> that files survive sessions, and \<open>TornFiles\<close> what is read from a file
  that an interrupted program left, over the locale \<open>breaking_iterator\<close> of iterators that throw
  where their elements end. \<open>IndexedFileFacts\<close> relates an open file
  to a finite map (\<open>file_rep\<close>) and a closed one to the bytes it left (\<open>index_rep\<close>);
  \<open>IndexSessions\<close> composes sessions, and \<open>FileMachine\<close> is a step relation of insertions and reads
  on one open file, simulated by the map. The properties of the program are collected in
  \<open>SerializerProperties\<close>, \<open>StorageProperties\<close>, \<open>UtilityProperties\<close> and in this theory.
\<close>

text \<open>
  \<^bold>\<open>Conventions.\<close> Machine integers are words; pointers into a range are integers. An exception is
  the left side of a sum, together with what the language leaves undefined (\<open>Undefined\<close>). The
  platform is the one the build files ask for: C++20, 64 bits, little-endian, IEEE floating point
  numbers as their bits. In particular a shift to the left of a negative or large number is
  defined unless it shifts by the width or more. Taking the address of the first element of an
  empty buffer, as the wrappers do before they pass a length of zero along, has no effect.

  \<^bold>\<open>Bounds.\<close> Loops that the input controls take their bound from \<open>fuel cfg\<close>, and running out of it
  is the error \<open>OutOfFuel\<close>, which the properties exclude: 256 rounds are enough for the fields of
  a struct, whose tags are bytes (\<open>fuel_enough\<close>), a loop over a stream needs more rounds than
  there are objects in it, and the loop that skips an unknown integer more than its bytes. On
  arbitrary input (\<open>Safety\<close>) the number of bytes is enough in a checked build, since every round
  consumes one; in an unchecked build no number is, as is shown there. Sizes are bounded as the
  code needs it: objects by \<open>2\<^sup>6\<^sup>3\<close> bytes in memory, for a count is cast to \<^verbatim>\<open>std::streamsize\<close>,
  and by \<open>2\<^sup>3\<^sup>1\<close> in a block, for the wrapper of zstd stores an \<^verbatim>\<open>int32_t\<close>; files by \<open>2\<^sup>6\<^sup>3\<close> bytes.

  \<^bold>\<open>Parameters.\<close> Code outside the repository's own is an argument of the model: the compression
  libraries are records of the functions called (\<open>zstd_lib\<close>, \<open>lzo_lib\<close>, \<open>lz4_lib\<close>, \<open>gipfeli_lib\<close>),
  with their documented behaviour as a predicate (\<open>zstd_contract\<close> and so on, satisfied by the
  run-length coders of \<open>Codec\<close>). The processor's checksum instruction (\<open>documented_crc32\<close>), the
  words \<^verbatim>\<open>cpuid\<close> returns, the address of a buffer, the content of uninitialized memory and the
  environment variable are fields of \<open>environment\<close>. \<open>long_frames\<close> is what the last block of an
  indexed file relies on: no library makes its ten bytes shorter, so that the block has the size
  the reader expects. The comparison of a key type is a field of \<open>key_type\<close>, the
  insertion of an unordered container and the largest size it can reserve are arguments of its
  constructor \<open>Hashed\<close>, and so are the elements a \<^verbatim>\<open>std::array\<close> has when it is declared of
  \<open>ArrayN\<close>; a user's conversion is an argument, and so is what a move leaves of its source.

  \<^bold>\<open>Not modelled.\<close> \<^verbatim>\<open>src/deps\<close> is third-party code. \<^verbatim>\<open>src/util/pbsic\<close> is a Perl program that
  writes headers; what it writes are tagged structs. Tests, benchmarks and build files are
  clients. Of the headers modelled: the lifetime of a file's stream, which copies of a file object share and iterators only
  point to; forward declarations; the static assertions and overloads that only decide whether a
  program compiles. Objects on a little-endian machine are their bytes, so pointers, references
  and user-defined overloads of \<^verbatim>\<open>serialize\<close> have no counterpart in \<open>ty\<close>. The library has no
  threads of its own.
\<close>

section \<open>Sequential files\<close>

text \<open>
  C2: Writing sessions on a sequential file, each appending to it or overwriting it, leave the
  objects written since the last one that overwrote; a reader gets exactly those of the type it
  asks for, in the order they were written, whatever the encoding of their blocks.
\<close>

theorem sequential_sessions:
  assumes "good_env env" and "realm_ok (rl_entries r)" and "T \<in> snd ` set (rl_entries r)"
    and "\<forall>(ow, items) \<in> set sessions. items_ok (rl_entries r) items" and "sessions \<noteq> []"
    and "length (file_bytes env r (concat (map snd sessions))) < 2 ^ 63 - 1"
    and "length (left_behind sessions []) < fuel (env_cfg env)"
  shows "rbind (write_sessions env r sessions None) (read_session env r T) =
    Inr (items_of T (left_behind sessions []))"
  using sessions_roundtrip [OF assms] by auto

definition sample_writes :: "(bool \<times> (ctype \<times> val) list) list" where
  "sample_writes = [(True, sample_items), (False, sample_items)]"

theorem sequential_sessions_witness:
  "rbind (write_sessions sample_env sample_realm sample_writes None) (read_session sample_env sample_realm count_ctype) =
    Inr [count_val 3, count_val 4, count_val 3, count_val 4]"
proof -
  have ok: "items_ok (rl_entries sample_realm) (sample_items @ sample_items)"
    using items_sample realm_sample by (simp add: items_ok_def ball_Un)
  have n: "length (sample_items @ sample_items) = 6" by (simp add: sample_items_def)
  have "length (file_bytes sample_env sample_realm (concat (map snd sample_writes))) < 2 ^ 63 - 1"
    using length_stored_items [OF good_sample ok] n by (simp add: sample_writes_def)
  moreover have "length (left_behind sample_writes []) < fuel (env_cfg sample_env)"
    using n by (simp add: sample_writes_def sample_cfg debug_cfg_def)
  moreover have "items_of count_ctype (left_behind sample_writes []) = [count_val 3, count_val 4, count_val 3, count_val 4]"
    using point_ne_count by (simp add: sample_writes_def sample_items_def items_of_def)
  moreover have "\<forall>(ow, items) \<in> set sample_writes. items_ok (rl_entries sample_realm) items"
    using items_sample realm_sample by (simp add: sample_writes_def)
  ultimately show ?thesis
    using sequential_sessions [OF good_sample, of sample_realm count_ctype sample_writes] realm_sample
    by (simp add: sample_writes_def)
qed

text \<open>
  C18: A sequential file of another realm is opened neither for reading nor for appending,
  but \<^verbatim>\<open>unknown_realm_error\<close> is thrown, and a missing file cannot be read.
\<close>

theorem sequential_refused:
  assumes "good_env env" and "items_ok (rl_entries r) items"
    and "length (file_bytes env r items) < 2 ^ 63 - 1" and "write_session env r overwrite items None = Inr d"
    and "rl_id r' \<noteq> rl_id r"
  shows "open_sequential_input_file env (Some d) r' = Inl UnknownRealm \<and>
    open_sequential_output_file env (Some d) r' False = Inl UnknownRealm \<and>
    open_sequential_input_file env None r' = Inl IosFailure"
proof -
  have d: "d = file_bytes env r items"
    using write_session_ok [OF assms(1,2), of "[]" None overwrite] assms(3,4) by simp
  have "fuel_enough (env_cfg env)" using assms(1) by (simp add: good_env_def)
  then show ?thesis
    using open_for_reading(2) [OF _ d [unfolded file_bytes_def]] reopen_file(2) [OF _ d [unfolded file_bytes_def]]
      open_missing_file assms(3,5) d by simp
qed

theorem sequential_refused_witness:
  "open_sequential_input_file sample_env (Some (file_bytes sample_env sample_realm sample_items))
     (sample_realm\<lparr>rl_id := 1\<rparr>) = Inl UnknownRealm"
proof -
  have ok: "items_ok (rl_entries sample_realm) sample_items" using items_sample realm_sample by simp
  have len: "length (file_bytes sample_env sample_realm ([] @ sample_items)) < 2 ^ 63 - 1"
    using length_stored_items [OF good_sample ok] by (simp add: sample_items_def)
  have w: "write_session sample_env sample_realm True sample_items None = Inr (file_bytes sample_env sample_realm sample_items)"
    using write_session_ok [OF good_sample ok len, of None True] by simp
  show ?thesis
    by (rule sequential_refused [OF good_sample ok _ w, THEN conjunct1]) (use len in \<open>simp_all add: sample_realm_def\<close>)
qed

text \<open>
  C20: A sequential file that an interrupted writer has left incomplete is read as far as its
  blocks are whole when it ends between two blocks. When it ends anywhere else, inside of the
  header or of a block, the reader throws; it never gives an object that was not written whole.
\<close>

theorem torn_file:
  assumes "good_env env" and "realm_ok (rl_entries r)" and "T \<in> snd ` set (rl_entries r)"
    and "items_ok (rl_entries r) items" and "length items < fuel (env_cfg env)"
    and "length (file_bytes env r items) < 2 ^ 63 - 1" and "n \<le> length (file_bytes env r items)"
  shows "(\<forall>k. n = length (file_bytes env r (take k items)) \<longrightarrow>
       read_session env r T (Some (take n (file_bytes env r items))) = Inr (items_of T (take k items))) \<and>
    ((\<forall>k. n \<noteq> length (file_bytes env r (take k items))) \<longrightarrow>
       (\<exists>e \<in> {EarlyEof, IosFailure}. read_session env r T (Some (take n (file_bytes env r items))) = Inl e))"
proof (intro conjI allI impI)
  fix k
  assume n: "n = length (file_bytes env r (take k items))"
  have "file_bytes env r items = file_bytes env r (take k items) @ concat (map (stored_bytes env (rl_entries r)) (drop k items))"
    by (simp add: file_bytes_def flip: concat_append map_append)
  then have d: "take n (file_bytes env r items) = file_bytes env r (take k items)" using n by simp
  have "items_ok (rl_entries r) (take k items)" using assms(4) by (auto simp: items_ok_def dest: in_set_takeD)
  from read_session_ok [OF assms(1,2) this assms(3)] assms(5-7) n
  show "read_session env r T (Some (take n (file_bytes env r items))) = Inr (items_of T (take k items))"
    unfolding d by simp
next
  assume "\<forall>k. n \<noteq> length (file_bytes env r (take k items))"
  then show "\<exists>e \<in> {EarlyEof, IosFailure}. read_session env r T (Some (take n (file_bytes env r items))) = Inl e"
    using read_truncated [OF assms] by blast
qed

theorem torn_file_witness:
  "read_session sample_env sample_realm count_ctype
     (Some (file_bytes sample_env sample_realm (take 2 sample_items))) = Inr [count_val 3] \<and>
   (\<exists>e \<in> {EarlyEof, IosFailure}. read_session sample_env sample_realm count_ctype
     (Some (take 9 (file_bytes sample_env sample_realm sample_items))) = Inl e)"
proof -
  have ok: "items_ok (rl_entries sample_realm) sample_items" using items_sample realm_sample by simp
  have len: "length (file_bytes sample_env sample_realm sample_items) < 2 ^ 63 - 1"
    using length_stored_items [OF good_sample ok] by (simp add: sample_items_def)
  have fuel: "length sample_items < fuel (env_cfg sample_env)"
    by (simp add: sample_items_def sample_cfg debug_cfg_def)
  note torn = torn_file [OF good_sample realm_sample(1) [folded realm_sample(2)]
      realm_sample(4) [folded realm_sample(2)] ok fuel len]
  have split: "file_bytes sample_env sample_realm sample_items =
      file_bytes sample_env sample_realm (take k sample_items) @
      concat (map (stored_bytes sample_env (rl_entries sample_realm)) (drop k sample_items))" for k
    by (simp add: file_bytes_def flip: concat_append map_append)
  have block: "1 < length (stored_bytes sample_env (rl_entries sample_realm) x)" for x
    by (cases x) (simp add: stored_bytes_def block_bytes_def)
  have two: "take 2 sample_items = [(count_ctype, count_val 3), (point_ctype, point_val)]"
    by (simp add: sample_items_def)
  have "9 \<noteq> length (file_bytes sample_env sample_realm (take k sample_items))" for k
  proof (cases "k = 0")
    case True
    then show ?thesis by (simp add: file_bytes_def)
  next
    case False
    then obtain x xs where "take k sample_items = x # xs" by (cases k) (auto simp: sample_items_def)
    then show ?thesis using block [of x] by (simp add: file_bytes_def)
  qed
  moreover have "9 \<le> length (file_bytes sample_env sample_realm sample_items)"
    using block [of "(count_ctype, count_val 3)"] by (simp add: file_bytes_def sample_items_def)
  ultimately have "\<exists>e \<in> {EarlyEof, IosFailure}. read_session sample_env sample_realm count_ctype
      (Some (take 9 (file_bytes sample_env sample_realm sample_items))) = Inl e"
    using torn [of 9] by blast
  moreover have "read_session sample_env sample_realm count_ctype
      (Some (file_bytes sample_env sample_realm (take 2 sample_items))) = Inr (items_of count_ctype (take 2 sample_items))"
    using torn [of "length (file_bytes sample_env sample_realm (take 2 sample_items))"] split [of 2] by (metis append_eq_conv_conj length_append le_add1)
  moreover have "items_of count_ctype (take 2 sample_items) = [count_val 3]"
    using point_ne_count by (simp add: two items_of_def)
  ultimately show ?thesis by simp
qed

section \<open>Indexed files\<close>

text \<open>
  C3: Sessions on an indexed file, each opening it with or without overwriting, inserting
  objects and closing it, update a finite map. Whoever opens the file afterwards finds the keys of the
  map in order, and looking up a key gives its object, \<^verbatim>\<open>key_missing_error\<close> when there is none and
  \<^verbatim>\<open>type_mismatch_error\<close> when it has another type.
\<close>

theorem indexed_file_life:
  assumes "good_env env" and "long_frames env" and "key_ok K" and "realm_ok (rl_entries r)"
    and "\<forall>(ow, inserts) \<in> set sessions. inserts_ok r K inserts" and "sessions \<noteq> []"
    and "index_space K (inserted_keys sessions) < 2 ^ 31" and "room_for sessions < 2 ^ 63 - 16"
  shows "\<exists>d f. index_sessions env r K sessions None = Inr (Some d) \<and> open_indexed_input_file env (Some d) r K = Inr f \<and>
    sorted_wrt (k_less K) (indexed_indices f) \<and> set (indexed_indices f) = dom (contents_after sessions Map.empty) \<and>
    (\<forall>k T. is_key K k \<and> T \<in> snd ` set (rl_entries r) \<longrightarrow>
       rbind (indexed_get env r K T k f) (\<lambda>(v, f'). Inr v) =
         (case contents_after sessions Map.empty k of None \<Rightarrow> Inl KeyMissing
          | Some (U, v) \<Rightarrow> if U = T then Inr v else Inl TypeMismatch))"
proof -
  let ?c = "contents_after sessions Map.empty"
  obtain d m where d: "index_sessions env r K sessions None = Inr (Some d)" "index_rep env r K ?c m d" "closed_with env r K m d"
    using sessions_from_scratch [OF assms(1,2,3,5,6,7,8)] by (auto simp: saved_file_def)
  from open_existing(1) [OF assms(1,2) d(2,3)] obtain f where
    f: "open_indexed_input_file env (Some d) r K = Inr f" "file_rep env r K ?c f" by blast
  have "rbind (indexed_get env r K T k f) (\<lambda>(v, f'). Inr v) =
      (case ?c k of None \<Rightarrow> Inl KeyMissing | Some (U, v) \<Rightarrow> if U = T then Inr v else Inl TypeMismatch)"
    if "is_key K k" "T \<in> snd ` set (rl_entries r)" for k T
    using get_rep [OF assms(1,3,4) f(2) that] by (auto split: option.split)
  moreover have "sorted_wrt (k_less K) (indexed_indices f)"
    using index_rep_sorted(1) [OF f(2)] by (simp add: sorted_map_def indexed_indices_def)
  ultimately show ?thesis using d(1) f(1) index_rep_sorted(2) [OF f(2)] by blast
qed

definition sample_sessions :: "(bool \<times> (val \<times> ctype \<times> val) list) list" where
  "sample_sessions = [(True, sample_inserts), (False, [(run 3, count_ctype, count_val 9)])]"

lemma sessions_sample:
  "\<forall>(ow, inserts) \<in> set sample_sessions. inserts_ok sample_realm run_key inserts"
  "index_space run_key (inserted_keys sample_sessions) < 2 ^ 31" "room_for sample_sessions < 2 ^ 63 - 16"
proof -
  show "\<forall>(ow, inserts) \<in> set sample_sessions. inserts_ok sample_realm run_key inserts"
    using inserts_sample run_key_ok(2) storable_count realm_sample
    by (simp add: sample_sessions_def inserts_ok_def)
  have "inserted_keys sample_sessions = {run 7, run 2, run 3}"
    by (auto simp: inserted_keys_def sample_sessions_def sample_inserts_def)
  moreover have "length (encode (c_ty (k_type run_key)) (run n)) = 2" for n
    by (simp add: run_key_def uint_key_def run_def prim_val_bytes_def)
  ultimately show "index_space run_key (inserted_keys sample_sessions) < 2 ^ 31"
    by (simp add: index_space_def)
  show "room_for sample_sessions < 2 ^ 63 - 16"
    by (simp add: room_for_def sample_sessions_def sample_inserts_def)
qed

theorem indexed_file_life_witness:
  "\<exists>d f. index_sessions sample_env sample_realm run_key sample_sessions None = Inr (Some d) \<and>
    open_indexed_input_file sample_env (Some d) sample_realm run_key = Inr f \<and>
    rbind (indexed_get sample_env sample_realm run_key count_ctype (run 7) f) (\<lambda>(v, f'). Inr v) = Inr (count_val 4) \<and>
    rbind (indexed_get sample_env sample_realm run_key count_ctype (run 2) f) (\<lambda>(v, f'). Inr v) = Inl TypeMismatch \<and>
    rbind (indexed_get sample_env sample_realm run_key count_ctype (run 5) f) (\<lambda>(v, f'). Inr v) = Inl KeyMissing"
proof -
  have c: "contents_after sample_sessions Map.empty (run 7) = Some (count_ctype, count_val 4)"
      "contents_after sample_sessions Map.empty (run 2) = Some (point_ctype, point_val)"
      "contents_after sample_sessions Map.empty (run 5) = None"
    by (simp_all add: sample_sessions_def sample_inserts_def)
  have r: "realm_ok (rl_entries sample_realm)" "sample_sessions \<noteq> []" "count_ctype \<in> snd ` set (rl_entries sample_realm)"
    using realm_sample by (simp_all add: sample_sessions_def)
  obtain d f where f: "index_sessions sample_env sample_realm run_key sample_sessions None = Inr (Some d)"
      "open_indexed_input_file sample_env (Some d) sample_realm run_key = Inr f"
    and get: "\<forall>k T. is_key run_key k \<and> T \<in> snd ` set (rl_entries sample_realm) \<longrightarrow>
      rbind (indexed_get sample_env sample_realm run_key T k f) (\<lambda>(v, f'). Inr v) =
        (case contents_after sample_sessions Map.empty k of None \<Rightarrow> Inl KeyMissing
         | Some (U, v) \<Rightarrow> if U = T then Inr v else Inl TypeMismatch)"
    using indexed_file_life [OF good_sample long_frames_sample run_key_ok(1) r(1) sessions_sample(1) r(2) sessions_sample(2,3)]
    by blast
  note at = get [rule_format, OF conjI, OF run_key_ok(2) r(3)]
  show ?thesis
    using f at [of 7] at [of 2] at [of 5] point_ne_count(1) by (intro exI [of _ d] exI [of _ f]) (simp add: c)
qed

text \<open>
  C19: An indexed file written with one type of keys is not opened with another one of the
  realm, for reading or writing: \<^verbatim>\<open>key_mismatch_error\<close>. A file of another realm is refused with
  \<^verbatim>\<open>unknown_realm_error\<close>, and a missing one cannot be read.
\<close>

theorem indexed_refused:
  assumes "good_env env" and "long_frames env" and "key_ok K" and "realm_ok (rl_entries r)"
    and "\<forall>(ow, inserts) \<in> set sessions. inserts_ok r K inserts" and "sessions \<noteq> []"
    and "index_space K (inserted_keys sessions) < 2 ^ 31" and "room_for sessions < 2 ^ 63 - 16"
    and "index_sessions env r K sessions None = Inr (Some d)"
    and "k_type K \<in> snd ` set (rl_entries r)" and "k_type K' \<in> snd ` set (rl_entries r)" and "k_type K \<noteq> k_type K'"
    and "rl_id r' \<noteq> rl_id r"
  shows "open_indexed_input_file env (Some d) r K' = Inl KeyMismatch \<and>
    open_indexed_output_file env (Some d) r K' False = Inl KeyMismatch \<and>
    open_indexed_input_file env (Some d) r' K = Inl UnknownRealm \<and>
    open_indexed_output_file env (Some d) r' K False = Inl UnknownRealm \<and>
    open_indexed_input_file env None r K = Inl IosFailure"
proof -
  obtain m where m: "index_rep env r K (contents_after sessions Map.empty) m d" "closed_with env r K m d"
    using sessions_from_scratch [OF assms(1,2,3,5,6,7,8)] assms(9) by (auto simp: saved_file_def)
  have "type_id (k_type K) (rl_entries r) \<noteq> type_id (k_type K') (rl_entries r)"
    using type_id_inj [OF assms(4,10,11)] assms(12) by simp
  note other = open_other_key [OF assms(1,2) m this]
  obtain rest where d: "d = header_bytes (rl_id r) @ rest" using m(1) by (auto simp: index_rep_def)
  have "length d < 2 ^ 63 - 1" using m(2) by (simp add: closed_with_def)
  moreover have "fuel_enough (env_cfg env)" using assms(1) by (simp add: good_env_def)
  moreover have "open_indexed_input_file env None r K = Inl IosFailure"
    by (simp add: open_indexed_input_file_def ifstream_open_def fs_exceptions_def fs_setstate_def)
  ultimately show ?thesis
    using other open_header(1) [OF _ d, of env r' K] open_header(2) [OF _ d, of env r' K] assms(13) by auto
qed

theorem indexed_refused_witness:
  "\<exists>d. index_sessions sample_env sample_realm run_key sample_sessions None = Inr (Some d) \<and>
    open_indexed_input_file sample_env (Some d) sample_realm name_key = Inl KeyMismatch"
proof -
  have r: "realm_ok (rl_entries sample_realm)" "sample_sessions \<noteq> []"
      "k_type run_key \<in> snd ` set (rl_entries sample_realm)" "k_type name_key \<in> snd ` set (rl_entries sample_realm)"
    using realm_sample by (simp_all add: sample_sessions_def)
  obtain d where d: "index_sessions sample_env sample_realm run_key sample_sessions None = Inr (Some d)"
    using sessions_from_scratch [OF good_sample long_frames_sample run_key_ok(1) sessions_sample(1) r(2) sessions_sample(2,3)]
    by blast
  have "rl_id (sample_realm\<lparr>rl_id := 1\<rparr>) \<noteq> rl_id sample_realm" by (simp add: sample_realm_def)
  from indexed_refused [OF good_sample long_frames_sample run_key_ok(1) r(1) sessions_sample(1) r(2)
      sessions_sample(2,3) d r(3,4) point_ne_count(2) this] d
  show ?thesis by blast
qed

section \<open>Pipelines\<close>

text \<open>
  C7: The programs of the examples, run one after the other on any file of raw data, compute
  with files what \<^verbatim>\<open>filter\<close>, \<^verbatim>\<open>map\<close> and \<^verbatim>\<open>zip\<close> compute with lists: \<^verbatim>\<open>single-input\<close> writes the hits and the
  sums, with a cut on the hits only, \<^verbatim>\<open>multi-input\<close> pairs what is in the two files by position, up to
  the end of the shorter one, and \<^verbatim>\<open>dump\<close> prints the files.
\<close>

theorem example_programs:
  assumes "good_env env" and "fs ''raw.bs'' = Some (int_file env raws)" and "length raws < fuel (env_cfg env)"
    and "8 + 2 ^ 32 * length raws < 2 ^ 63 - 1" and "\<forall>r \<in> set raws. fits_int (sint r + 10)"
    and "cuts = filter (\<lambda>r. 3 < sint r) raws" and "hits = filter (\<lambda>h. sint h < 8) (map (\<lambda>r. r + 1) cuts)"
    and "esums = map (\<lambda>r. r + 2) cuts" and "sigs = filter (\<lambda>x. 3 < sint x) (map2 (+) hits esums)"
  shows "rbind (single_input env fs) (\<lambda>fs1. rbind (multi_input env fs1) (\<lambda>fs2.
      dump env fs2 [''hit.bs'', ''esum.bs'', ''sig.bs''] '''')) =
    Inr (file_text ''hit.bs'' hits @ file_text ''esum.bs'' esums @ file_text ''sig.bs'' sigs)"
proof -
  let ?fs1 = "fs(''hit.bs'' \<mapsto> int_file env hits, ''esum.bs'' \<mapsto> int_file env esums)"
  let ?fs2 = "?fs1(''sig.bs'' \<mapsto> int_file env sigs)" and ?names = "[''hit.bs'', ''esum.bs'', ''sig.bs'']"
  have "\<forall>r \<in> set raws. 3 < sint r \<longrightarrow> fits_int (sint r + 2)" using assms(5) by (auto simp: fits_int_def)
  from single_input_files [of env fs raws cuts, OF assms(1-4) this assms(6)] have single: "single_input env fs = Inr ?fs1"
    using assms(7,8) by simp
  have c: "length cuts \<le> length raws" unfolding assms(6) by (rule length_filter_le)
  have "length hits \<le> length (map (\<lambda>r. r + 1) cuts)" unfolding assms(7) by (rule length_filter_le)
  moreover have "length sigs \<le> length (map2 (+) hits esums)" unfolding assms(9) by (rule length_filter_le)
  ultimately have l: "length hits \<le> length raws" "length esums \<le> length raws" "length sigs \<le> length raws"
    using c assms(8) by simp_all
  have room: "8 + 2 ^ 32 * n < 2 ^ 63 - 1" "n < fuel (env_cfg env)" if "n \<le> length raws" for n
    using that assms(3,4) by simp_all
  have multi: "multi_input env ?fs1 = Inr ?fs2"
    using multi_input_files [OF assms(1) _ _ room(2) [OF l(1)] room(2) [OF l(2)] room(1) [OF l(1)] room(1) [OF l(2)]
      sums_in_range [OF assms(5-8)], of ?fs1] assms(9) by simp
  define ints where "ints = (\<lambda>name. if name = ''hit.bs'' then hits else if name = ''esum.bs'' then esums else sigs)"
  have "\<forall>name \<in> set ?names. ?fs2 name = Some (int_file env (ints name)) \<and> length (ints name) < fuel (env_cfg env) \<and>
      8 + 2 ^ 32 * length (ints name) < 2 ^ 63 - 1"
    using room(1) [OF l(1)] room(1) [OF l(2)] room(1) [OF l(3)] room(2) [OF l(1)] room(2) [OF l(2)] room(2) [OF l(3)]
    by (simp add: ints_def)
  from dump_prints [OF assms(1) this] show ?thesis
    by (simp only: single multi rbind_simps) (simp add: ints_def)
qed

theorem example_programs_witness:
  "rbind (gen_src sample_env Map.empty) (\<lambda>fs. rbind (single_input sample_env fs) (\<lambda>fs1.
     rbind (multi_input sample_env fs1) (\<lambda>fs2. dump sample_env fs2 [''hit.bs'', ''esum.bs'', ''sig.bs''] ''''))) =
   Inr (file_text ''hit.bs'' [5, 6, 7] @ file_text ''esum.bs'' [6, 7, 8, 9, 10, 11] @ file_text ''sig.bs'' [11, 13, 15])"
proof -
  let ?raws = "[0, 1, 2, 3, 4, 5, 6, 7, 8, 9] :: 32 word list"
  have raw: "(Map.empty(''raw.bs'' \<mapsto> int_file sample_env ?raws)) ''raw.bs'' = Some (int_file sample_env ?raws)" by simp
  have cuts: "[4, 5, 6, 7, 8, 9] = filter (\<lambda>r. 3 < sint r) ?raws" by simp
  have hits: "[5, 6, 7] = filter (\<lambda>h. sint h < 8) (map (\<lambda>r. r + 1) [4, 5, 6, 7, 8, 9 :: 32 word])" by simp
  have esums: "[6, 7, 8, 9, 10, 11] = map (\<lambda>r. r + 2) [4, 5, 6, 7, 8, 9 :: 32 word]" by simp
  have sigs: "[11, 13, 15] = filter (\<lambda>x. 3 < sint x) (map2 (+) [5, 6, 7] [6, 7, 8, 9, 10, 11 :: 32 word])" by simp
  have "length ?raws < fuel (env_cfg sample_env)" by (simp add: sample_cfg debug_cfg_def)
  from example_programs [of sample_env "Map.empty(''raw.bs'' \<mapsto> int_file sample_env ?raws)" ?raws
      "[4, 5, 6, 7, 8, 9]" "[5, 6, 7]" "[6, 7, 8, 9, 10, 11]" "[11, 13, 15]", OF good_sample raw this _ _ cuts hits esums sigs]
  show ?thesis by (simp add: gen_src_files [OF good_sample] fits_int_def)
qed

text \<open>What is printed of the last file is eleven, thirteen and fifteen, a line each.\<close>

lemma sig_text: "file_text ''sig.bs'' [11, 13, 15] = ''sig.bs:'' @ newline @ ''11'' @ newline @ ''13'' @ newline @ ''15'' @ newline @ newline"
  by (simp add: file_text_def digits)

end
